(* ===== verification/Prelude.thy ===== *)
theory Prelude
  imports Main "HOL-Library.Word"
begin

unbundle bit_operations_syntax

text \<open>
  Shared by every component: the machine types of \<^verbatim>\<open>kernel/types.h\<close>, little-endian
  encoding of words, byte-addressed memory, and the computations in which the kernel's
  functions are written.

  A kernel function is a computation \<open>('s, 'a) kernel\<close>: from a state it returns a value and
  a new state (\<open>Ok\<close>), stops the machine with a message (\<open>Panic\<close>, the source's
  \<^verbatim>\<open>panic()\<close>), or gives up the processor on a wait channel (\<open>Sleep\<close>, the source's
  \<^verbatim>\<open>sleep()\<close>) in the state it leaves behind.  The state is an extensible record:
  each component adds its own global variables to the record of the components below it, and
  its functions work on every extension, so a caller higher up uses them as they are.
\<close>

section \<open>Machine types\<close>

type_synonym byte = "8 word"
type_synonym u16 = "16 word"
type_synonym u32 = "32 word"
type_synonym u64 = "64 word"
type_synonym addr = "64 word"

named_theorems kernel_run \<open>equations that run a computation on a state\<close>
named_theorems mem_simps \<open>reads of an updated memory\<close>

section \<open>Splitting at a separator\<close>

fun split_on :: "'a \<Rightarrow> 'a list \<Rightarrow> 'a list list" where
  "split_on c [] = [[]]"
| "split_on c (x # xs) =
     (if x = c then [] # split_on c xs
      else case split_on c xs of [] \<Rightarrow> [[x]] | w # ws \<Rightarrow> (x # w) # ws)"

lemma split_on_eq:
  "split_on c xs = takeWhile (\<lambda>x. x \<noteq> c) xs #
     (case dropWhile (\<lambda>x. x \<noteq> c) xs of [] \<Rightarrow> [] | _ # ys \<Rightarrow> split_on c ys)"
  by (induction xs) (auto split: list.splits)

lemma split_on_ne [simp]: "split_on c xs \<noteq> []"
  by (induction xs) (auto split: list.splits)

lemma split_on_append:
  "split_on c (xs @ ys) = butlast (split_on c xs) @ split_on c (last (split_on c xs) @ ys)"
proof (induction xs)
  case (Cons x xs)
  show ?case
  proof (cases "split_on c xs")
    case Nil
    then show ?thesis using split_on_ne [of c xs] by simp
  next
    case sp: (Cons w ws)
    then show ?thesis using Cons by (cases ws) (auto split: list.splits)
  qed
qed simp

lemma split_on_single: "c \<notin> set xs \<Longrightarrow> split_on c xs = [xs]"
  by (induction xs) auto

lemma split_on_hit: "c \<notin> set xs \<Longrightarrow> split_on c (xs @ c # ys) = xs # split_on c ys"
  by (induction xs) auto

lemma sep_notin_split: "w \<in> set (split_on c xs) \<Longrightarrow> c \<notin> set w"
  by (induction xs arbitrary: w) (auto split: list.splits if_splits)

lemma set_last_split: "set (last (split_on c xs)) \<subseteq> set xs"
  by (induction xs) (auto split: list.splits if_splits)

section \<open>Little-endian words\<close>

definition le_bytes :: "nat \<Rightarrow> 'a::len word \<Rightarrow> byte list" where
  "le_bytes n w = map (\<lambda>i. ucast (drop_bit (8 * i) w)) [0..<n]"

primrec le_word :: "byte list \<Rightarrow> 'a::len word" where
  "le_word [] = 0"
| "le_word (b # bs) = ucast b OR push_bit 8 (le_word bs)"

lemma length_le_bytes [simp]: "length (le_bytes n w) = n"
  by (simp add: le_bytes_def)

lemma nth_le_bytes [simp]: "i < n \<Longrightarrow> le_bytes n w ! i = ucast (drop_bit (8 * i) w)"
  by (simp add: le_bytes_def)

lemma bit_le_word:
  "bit (le_word bs :: 'a::len word) i \<longleftrightarrow>
     i < LENGTH('a) \<and> i div 8 < length bs \<and> bit (bs ! (i div 8)) (i mod 8)"
proof (induction bs arbitrary: i)
  case Nil
  then show ?case by simp
next
  case (Cons b bs)
  show ?case
  proof (cases "i < 8")
    case True
    then show ?thesis
      by (auto simp: bit_or_iff bit_push_bit_iff bit_ucast_iff dest: bit_imp_le_length)
  next
    case False
    then have d: "i div 8 = Suc ((i - 8) div 8)" "i mod 8 = (i - 8) mod 8"
      by (simp_all add: le_div_geq le_mod_geq)
    have "\<not> bit b i" using False by (auto dest: bit_imp_le_length)
    with False show ?thesis
      by (auto simp: bit_or_iff bit_push_bit_iff bit_ucast_iff Cons.IH d)
  qed
qed

lemma le_word_le_bytes [simp]:
  assumes "LENGTH('a::len) = 8 * n"
  shows "le_word (le_bytes n (w :: 'a word)) = w"
proof (rule bit_word_eqI)
  fix i assume i: "i < LENGTH('a)"
  with assms have "i div 8 < n" by simp
  moreover have "8 * (i div 8) + i mod 8 = i" "i mod 8 < 8" by simp_all
  ultimately show "bit (le_word (le_bytes n w) :: 'a word) i = bit w i"
    using i by (simp add: bit_le_word bit_ucast_iff bit_drop_bit_eq add.commute
        del: mod_less_divisor)
qed

lemma le_bytes_le_word:
  assumes "length bs = n" and "8 * n \<le> LENGTH('a::len)"
  shows "le_bytes n (le_word bs :: 'a word) = bs"
proof (rule nth_equalityI)
  show "length (le_bytes n (le_word bs :: 'a word)) = length bs" using assms by simp
  fix i assume "i < length (le_bytes n (le_word bs :: 'a word))"
  then have i: "i < n" by simp
  show "le_bytes n (le_word bs :: 'a word) ! i = bs ! i"
  proof (rule bit_word_eqI)
    fix k assume k: "k < LENGTH(8)"
    then have "(8 * i + k) div 8 = i" "(8 * i + k) mod 8 = k" "8 * i + k < LENGTH('a)"
      using i assms by auto
    then show "bit (le_bytes n (le_word bs :: 'a word) ! i) k = bit (bs ! i) k"
      using i k assms
      by (simp add: bit_le_word bit_ucast_iff bit_drop_bit_eq add.commute)
  qed
qed

section \<open>Byte-addressed memory\<close>

type_synonym memory = "addr \<Rightarrow> byte"

definition region :: "addr \<Rightarrow> nat \<Rightarrow> addr set" where
  "region a n = {x. unat (x - a) < n}"

definition mem_read :: "memory \<Rightarrow> addr \<Rightarrow> nat \<Rightarrow> byte list" where
  "mem_read m a n = map (\<lambda>i. m (a + of_nat i)) [0..<n]"

definition mem_write :: "memory \<Rightarrow> addr \<Rightarrow> byte list \<Rightarrow> memory" where
  "mem_write m a bs = (\<lambda>x. if unat (x - a) < length bs then bs ! unat (x - a) else m x)"

definition load64 :: "memory \<Rightarrow> addr \<Rightarrow> u64" where
  "load64 m a = le_word (mem_read m a 8)"

definition store64 :: "memory \<Rightarrow> addr \<Rightarrow> u64 \<Rightarrow> memory" where
  "store64 m a v = mem_write m a (le_bytes 8 v)"

lemma eq_offset_iff: "n < 2 ^ 64 \<Longrightarrow> x = a + of_nat n \<longleftrightarrow> unat (x - a) = n" for x a :: addr
proof
  assume "n < 2 ^ 64" "x = a + of_nat n"
  then show "unat (x - a) = n" by (simp add: unat_of_nat take_bit_eq_mod)
next
  assume "unat (x - a) = n"
  then have "x - a = of_nat n" by auto
  then show "x = a + of_nat n" by (metis add.commute diff_add_cancel)
qed

lemma unat_addr_less: "unat (x :: addr) < 2 ^ 64"
proof -
  have "unat x < 2 ^ LENGTH(64)" by (rule unsigned_less)
  then show ?thesis by simp
qed

lemma unat_max: "unat (- 1 :: addr) = 2 ^ 64 - 1"
  by (simp add: unat_eq_nat_uint uint_word_ariths)

lemma length_mem_read [simp]: "length (mem_read m a n) = n"
  by (simp add: mem_read_def)

lemma nth_mem_read [simp]: "i < n \<Longrightarrow> mem_read m a n ! i = m (a + of_nat i)"
  by (simp add: mem_read_def)

lemma mem_read_cong: "(\<And>x. x \<in> region a n \<Longrightarrow> m x = m' x) \<Longrightarrow> n \<le> 2 ^ 64 \<Longrightarrow>
    mem_read m a n = mem_read m' a n"
  by (rule nth_equalityI) (auto simp: region_def unat_of_nat take_bit_eq_mod)

lemma mem_write_other: "x \<notin> region a (length bs) \<Longrightarrow> mem_write m a bs x = m x"
  by (simp add: mem_write_def region_def)

lemma mem_write_in: "i < length bs \<Longrightarrow> length bs \<le> 2 ^ 64 \<Longrightarrow>
    mem_write m a bs (a + of_nat i) = bs ! i"
  by (simp add: mem_write_def unat_of_nat take_bit_eq_mod)

lemma mem_read_write_same [mem_simps]:
  "length bs = n \<Longrightarrow> n \<le> 2 ^ 64 \<Longrightarrow> mem_read (mem_write m a bs) a n = bs"
  by (rule nth_equalityI) (auto simp: mem_write_in)

lemma mem_read_write_disjoint:
  "region a (length bs) \<inter> region b n = {} \<Longrightarrow> n \<le> 2 ^ 64 \<Longrightarrow>
     mem_read (mem_write m a bs) b n = mem_read m b n"
  by (rule mem_read_cong) (auto intro!: mem_write_other)

lemma load64_store64_same [mem_simps, simp]: "load64 (store64 m a v) a = v"
  by (simp add: load64_def store64_def mem_simps)

lemma load64_store64_disjoint:
  "region a 8 \<inter> region b 8 = {} \<Longrightarrow> load64 (store64 m a v) b = load64 m b"
  by (simp add: load64_def store64_def mem_read_write_disjoint)

lemma load64_mem_write_disjoint:
  "region a (length bs) \<inter> region b 8 = {} \<Longrightarrow> load64 (mem_write m a bs) b = load64 m b"
  by (simp add: load64_def mem_read_write_disjoint)

lemma store64_other: "x \<notin> region a 8 \<Longrightarrow> store64 m a v x = m x"
  by (simp add: store64_def mem_write_other)

lemma region_self [simp]: "0 < n \<Longrightarrow> a \<in> region a n"
  by (simp add: region_def)

lemma region_mono: "n \<le> k \<Longrightarrow> region a n \<subseteq> region a k"
  by (auto simp: region_def)

lemma region_offset:
  assumes "k + n \<le> l" "k < 2 ^ 64"
  shows "region (a + of_nat k) n \<subseteq> region a l"
proof
  fix x assume "x \<in> region (a + of_nat k) n"
  then have *: "unat (x - (a + of_nat k)) < n" by (simp add: region_def)
  have "x - a = (x - (a + of_nat k)) + of_nat k" by simp
  then have "unat (x - a) \<le> unat (x - (a + of_nat k)) + unat (of_nat k :: addr)"
    by (metis unat_plus_if' le_add1 linorder_le_cases diff_le_self)
  also have "unat (of_nat k :: addr) \<le> k" by (simp add: unat_of_nat take_bit_eq_mod)
  finally show "x \<in> region a l" using * assms(1) by (simp add: region_def)
qed

section \<open>Computations\<close>

text \<open>Wait channels: the objects whose addresses the source passes to \<^verbatim>\<open>sleep()\<close>.\<close>

datatype chan =
    Chan_none
  | Chan_log
  | Chan_ticks
  | Chan_proc nat
  | Chan_buf nat
  | Chan_buflock nat
  | Chan_inodelock nat
  | Chan_nread addr
  | Chan_nwrite addr
  | Chan_cons
  | Chan_tx
  | Chan_disk_free

datatype ('s, 'a) res = Ok 'a 's | Panic string | Sleep chan 's

type_synonym ('s, 'a) kernel = "'s \<Rightarrow> ('s, 'a) res"

definition ret :: "'a \<Rightarrow> ('s, 'a) kernel" where
  "ret a = (\<lambda>s. Ok a s)"

definition bnd :: "('s, 'a) kernel \<Rightarrow> ('a \<Rightarrow> ('s, 'b) kernel) \<Rightarrow> ('s, 'b) kernel" where
  "bnd m f = (\<lambda>s. case m s of Ok a s' \<Rightarrow> f a s' | Panic e \<Rightarrow> Panic e | Sleep c s' \<Rightarrow> Sleep c s')"

definition sq :: "('s, 'a) kernel \<Rightarrow> ('s, 'b) kernel \<Rightarrow> ('s, 'b) kernel" where
  "sq m m' = bnd m (\<lambda>_. m')"

definition get :: "('s \<Rightarrow> 'a) \<Rightarrow> ('s, 'a) kernel" where
  "get f = (\<lambda>s. Ok (f s) s)"

definition upd :: "('s \<Rightarrow> 's) \<Rightarrow> ('s, unit) kernel" where
  "upd f = (\<lambda>s. Ok () (f s))"

definition panic :: "string \<Rightarrow> ('s, 'a) kernel" where
  "panic e = (\<lambda>s. Panic e)"

definition unless_panic :: "bool \<Rightarrow> string \<Rightarrow> ('s, unit) kernel" where
  "unless_panic b e = (if b then ret () else panic e)"

definition whenk :: "bool \<Rightarrow> ('s, unit) kernel \<Rightarrow> ('s, unit) kernel" where
  "whenk b m = (if b then m else ret ())"

primrec foreach :: "'i list \<Rightarrow> ('i \<Rightarrow> ('s, unit) kernel) \<Rightarrow> ('s, unit) kernel" where
  "foreach [] f = ret ()"
| "foreach (i # is) f = sq (f i) (foreach is f)"

lemma ret_run [kernel_run, simp]: "ret a s = Ok a s"
  by (simp add: ret_def)

lemma get_run [kernel_run, simp]: "get f s = Ok (f s) s"
  by (simp add: get_def)

lemma upd_run [kernel_run, simp]: "upd f s = Ok () (f s)"
  by (simp add: upd_def)

lemma panic_run [kernel_run, simp]: "panic e s = Panic e"
  by (simp add: panic_def)

lemma unless_panic_run [kernel_run, simp]:
  "unless_panic b e s = (if b then Ok () s else Panic e)"
  by (simp add: unless_panic_def)

lemma whenk_run [kernel_run, simp]: "whenk b m s = (if b then m s else Ok () s)"
  by (simp add: whenk_def)

lemma bnd_run [kernel_run]:
  "bnd m f s = (case m s of Ok a s' \<Rightarrow> f a s' | Panic e \<Rightarrow> Panic e | Sleep c s' \<Rightarrow> Sleep c s')"
  by (simp add: bnd_def)

lemma sq_run [kernel_run]:
  "sq m m' s = (case m s of Ok a s' \<Rightarrow> m' s' | Panic e \<Rightarrow> Panic e | Sleep c s' \<Rightarrow> Sleep c s')"
  by (simp add: sq_def bnd_def)

lemma bnd_Ok: "m s = Ok a s' \<Longrightarrow> bnd m f s = f a s'"
  by (simp add: bnd_def)

lemma sq_Ok: "m s = Ok a s' \<Longrightarrow> sq m m' s = m' s'"
  by (simp add: sq_run)

lemma bnd_OkE:
  assumes "bnd m f s = Ok b t"
  obtains a s' where "m s = Ok a s'" and "f a s' = Ok b t"
  using assms by (auto simp: bnd_def split: res.splits)

lemma sq_OkE:
  assumes "sq m m' s = Ok b t"
  obtains a s' where "m s = Ok a s'" and "m' s' = Ok b t"
  using assms by (auto simp: sq_run split: res.splits)

lemma foreach_append:
  "foreach (is @ js) f s =
     (case foreach is f s of Ok _ s' \<Rightarrow> foreach js f s' | Panic e \<Rightarrow> Panic e | Sleep c s' \<Rightarrow> Sleep c s')"
  by (induction "is" arbitrary: s) (auto simp: sq_run split: res.splits)

lemma foreach_upt_Suc:
  "foreach [0..<Suc n] f s =
     (case foreach [0..<n] f s of Ok _ s' \<Rightarrow> f n s' | Panic e \<Rightarrow> Panic e | Sleep c s' \<Rightarrow> Sleep c s')"
  by (simp add: foreach_append sq_run split: res.splits)

text \<open>Weakest preconditions: \<open>wp\<close> demands that the computation returns, \<open>wlp\<close> does not.\<close>

definition wp :: "('s, 'a) kernel \<Rightarrow> ('a \<Rightarrow> 's \<Rightarrow> bool) \<Rightarrow> 's \<Rightarrow> bool" where
  "wp m Q s = (case m s of Ok a s' \<Rightarrow> Q a s' | _ \<Rightarrow> False)"

definition wlp :: "('s, 'a) kernel \<Rightarrow> ('a \<Rightarrow> 's \<Rightarrow> bool) \<Rightarrow> 's \<Rightarrow> bool" where
  "wlp m Q s = (case m s of Ok a s' \<Rightarrow> Q a s' | _ \<Rightarrow> True)"

named_theorems wp_rules \<open>weakest preconditions of the computations' constructors\<close>

lemma wp_ret [wp_rules]: "wp (ret a) Q s = Q a s"
  and wp_get [wp_rules]: "wp (get f) Q s = Q (f s) s"
  and wp_upd [wp_rules]: "wp (upd g) Q' s = Q' () (g s)"
  and wp_panic [wp_rules]: "wp (panic e) Q s = False"
  and wp_unless_panic [wp_rules]: "wp (unless_panic b e) Q' s = (b \<and> Q' () s)"
  and wp_whenk [wp_rules]: "wp (whenk b m) Q' s = (if b then wp m Q' s else Q' () s)"
  by (simp_all add: wp_def)

lemma wp_bnd [wp_rules]: "wp (bnd m f) Q s = wp m (\<lambda>a. wp (f a) Q) s"
  by (simp add: wp_def bnd_def split: res.splits)

lemma wp_sq [wp_rules]: "wp (sq m m') Q s = wp m (\<lambda>_. wp m' Q) s"
  by (simp add: sq_def wp_bnd)

lemma wp_if [wp_rules]: "wp (if b then m else m') Q s = (if b then wp m Q s else wp m' Q s)"
  by simp

lemma wp_weaken: "wp m R s \<Longrightarrow> (\<And>a s'. R a s' \<Longrightarrow> Q a s') \<Longrightarrow> wp m Q s"
  by (auto simp: wp_def split: res.splits)

lemma wp_Ok: "wp m Q s \<longleftrightarrow> (\<exists>a s'. m s = Ok a s' \<and> Q a s')"
  by (auto simp: wp_def split: res.splits)

lemma wlp_bnd [wp_rules]: "wlp (bnd m f) Q s = wlp m (\<lambda>a. wlp (f a) Q) s"
  by (simp add: wlp_def bnd_def split: res.splits)

lemma wlp_sq [wp_rules]: "wlp (sq m m') Q s = wlp m (\<lambda>_. wlp m' Q) s"
  by (simp add: sq_def wlp_bnd)

lemma wlp_ret [wp_rules]: "wlp (ret a) Q s = Q a s"
  and wlp_get [wp_rules]: "wlp (get f) Q s = Q (f s) s"
  and wlp_upd [wp_rules]: "wlp (upd g) Q' s = Q' () (g s)"
  and wlp_panic [wp_rules]: "wlp (panic e) Q s = True"
  and wlp_unless_panic [wp_rules]: "wlp (unless_panic b e) Q' s = (b \<longrightarrow> Q' () s)"
  and wlp_whenk [wp_rules]: "wlp (whenk b m) Q' s = (if b then wlp m Q' s else Q' () s)"
  by (simp_all add: wlp_def)

lemma wlp_weaken: "wlp m R s \<Longrightarrow> (\<And>a s'. R a s' \<Longrightarrow> Q a s') \<Longrightarrow> wlp m Q s"
  by (auto simp: wlp_def split: res.splits)

lemma wlp_Ok: "wlp m Q s \<longleftrightarrow> (\<forall>a s'. m s = Ok a s' \<longrightarrow> Q a s')"
  by (auto simp: wlp_def split: res.splits)

section \<open>Frames\<close>

text \<open>\<open>keeps p m\<close>: the computation leaves the part \<open>p\<close> of the state alone.\<close>

definition keeps :: "('s \<Rightarrow> 'b) \<Rightarrow> ('s, 'a) kernel \<Rightarrow> bool" where
  "keeps p m \<longleftrightarrow> (\<forall>s t. (\<forall>a. m s = Ok a t \<longrightarrow> p t = p s) \<and> (\<forall>c. m s = Sleep c t \<longrightarrow> p t = p s))"

named_theorems keeps_intros \<open>computations that leave a part of the state alone\<close>

lemma keepsD: "keeps p m \<Longrightarrow> m s = Ok a t \<Longrightarrow> p t = p s"
  by (simp add: keeps_def)

lemma keeps_ret [keeps_intros]: "keeps p (ret a)"
  and keeps_get [keeps_intros]: "keeps p (get f)"
  and keeps_upd [keeps_intros]: "(\<And>s. p (g s) = p s) \<Longrightarrow> keeps p (upd g)"
  and keeps_panic [keeps_intros]: "keeps p (panic e)"
  and keeps_unless_panic [keeps_intros]: "keeps p (unless_panic b e)"
  and keeps_whenk [keeps_intros]: "keeps p n \<Longrightarrow> keeps p (whenk b n)"
  by (simp_all add: keeps_def)

lemma keeps_bnd [keeps_intros]: "keeps p m \<Longrightarrow> (\<And>a. keeps p (f a)) \<Longrightarrow> keeps p (bnd m f)"
  unfolding keeps_def bnd_run by (simp split: res.splits)

lemma keeps_sq [keeps_intros]: "keeps p m \<Longrightarrow> keeps p m' \<Longrightarrow> keeps p (sq m m')"
  by (simp add: sq_def keeps_bnd)

lemma keeps_if [keeps_intros]: "keeps p m \<Longrightarrow> keeps p m' \<Longrightarrow> keeps p (if b then m else m')"
  by simp

lemma keeps_option [keeps_intros]:
  "keeps p m \<Longrightarrow> (\<And>a. keeps p (f a)) \<Longrightarrow> keeps p (case x of None \<Rightarrow> m | Some a \<Rightarrow> f a)"
  by (cases x) auto

lemma keeps_foreach [keeps_intros]: "(\<And>i. keeps p (f i)) \<Longrightarrow> keeps p (foreach is f)"
  by (induction "is") (auto intro!: keeps_intros)

end
