(* ===== verification/Klock.thy ===== *)
theory Klock
  imports Prelude
begin

text \<open>
  The base of the kernel's state as one kernel thread sees it: the spin locks its processor
  holds, and the messages the kernel has printed.  \<open>lock_acquire\<close> and \<open>lock_release\<close> are what
  \<^verbatim>\<open>acquire()\<close> and \<^verbatim>\<open>release()\<close> of \<^verbatim>\<open>kernel/spinlock.c\<close> mean to the thread
  that calls them: an \<open>acquire\<close> returns once the lock is its processor's, and taking a lock
  twice or releasing one not held panics.  Theory \<open>Spinlock\<close> models the functions themselves,
  on several processors, and shows that they have this meaning.
\<close>

text \<open>The spin locks of the kernel, each named by the structure that contains it.\<close>

datatype lockid =
    L_kmem
  | L_pid
  | L_wait
  | L_proc nat
  | L_ticks
  | L_bcache
  | L_buf nat
  | L_log
  | L_itable
  | L_inode nat
  | L_ftable
  | L_pipe addr
  | L_cons
  | L_tx
  | L_vdisk
  | L_pr

record base_st =
  held :: "lockid list"
  klog :: "string list"

definition lock_acquire :: "lockid \<Rightarrow> ('z base_st_scheme, unit) kernel" where
  "lock_acquire l =
     bnd (get held) (\<lambda>h.
     sq (unless_panic (l \<notin> set h) ''acquire'')
        (upd (\<lambda>s. s\<lparr>held := l # held s\<rparr>)))"

definition lock_release :: "lockid \<Rightarrow> ('z base_st_scheme, unit) kernel" where
  "lock_release l =
     bnd (get held) (\<lambda>h.
     sq (unless_panic (l \<in> set h) ''release'')
        (upd (\<lambda>s. s\<lparr>held := remove1 l (held s)\<rparr>)))"

definition printk :: "string \<Rightarrow> ('z base_st_scheme, unit) kernel" where
  "printk msg = upd (\<lambda>s. s\<lparr>klog := klog s @ [msg]\<rparr>)"

lemma lock_acquire_run [kernel_run, simp]:
  "lock_acquire l s =
     (if l \<in> set (held s) then Panic ''acquire'' else Ok () (s\<lparr>held := l # held s\<rparr>))"
  by (simp add: lock_acquire_def bnd_run sq_run)

lemma lock_release_run [kernel_run, simp]:
  "lock_release l s =
     (if l \<in> set (held s) then Ok () (s\<lparr>held := remove1 l (held s)\<rparr>) else Panic ''release'')"
  by (simp add: lock_release_def bnd_run sq_run)

lemma printk_run [kernel_run, simp]: "printk msg s = Ok () (s\<lparr>klog := klog s @ [msg]\<rparr>)"
  by (simp add: printk_def)

end
