(* ===== verification/Spinlock.thy ===== *)
theory Spinlock
  imports Klock
begin

text \<open>
  \<^verbatim>\<open>kernel/spinlock.c\<close> on several processors.  The state is the memory the locks live in
  and, for each processor, the fields of \<^verbatim>\<open>struct cpu\<close> that the lock functions use and
  its interrupt-enable bit.  The functions are written as sequential computations of one
  processor; an interleaved step relation then runs them with a switch possible before every
  access to the lock word.  The first part of the development's state, the list \<open>held\<close> of
  theory \<open>Klock\<close>, is shown to be what a processor of this system sees.
\<close>

section \<open>Structures\<close>

record spinlock =
  sl_locked :: u32
  sl_name :: string
  sl_cpu :: "nat option"

record cpu =
  c_noff :: int
  c_intena :: bool
  c_intr :: bool

record smp =
  locks :: "lockid \<Rightarrow> spinlock"
  cpus :: "nat \<Rightarrow> cpu"

definition lset :: "lockid \<Rightarrow> (spinlock \<Rightarrow> spinlock) \<Rightarrow> ('z smp_scheme, unit) kernel" where
  "lset l f = upd (\<lambda>s. s\<lparr>locks := (locks s)(l := f (locks s l))\<rparr>)"

definition cset :: "nat \<Rightarrow> (cpu \<Rightarrow> cpu) \<Rightarrow> ('z smp_scheme, unit) kernel" where
  "cset c f = upd (\<lambda>s. s\<lparr>cpus := (cpus s)(c := f (cpus s c))\<rparr>)"

section \<open>Functions\<close>

definition initlock :: "lockid \<Rightarrow> string \<Rightarrow> ('z smp_scheme, unit) kernel" where
  "initlock l nm =
     sq (lset l (\<lambda>k. k\<lparr>sl_name := nm\<rparr>)) (
     sq (lset l (\<lambda>k. k\<lparr>sl_locked := 0\<rparr>))
        (lset l (\<lambda>k. k\<lparr>sl_cpu := None\<rparr>)))"

definition holding :: "nat \<Rightarrow> lockid \<Rightarrow> ('z smp_scheme, bool) kernel" where
  "holding c l = get (\<lambda>s. sl_locked (locks s l) \<noteq> 0 \<and> sl_cpu (locks s l) = Some c)"

definition push_off :: "nat \<Rightarrow> ('z smp_scheme, unit) kernel" where
  "push_off c =
     bnd (get (\<lambda>s. c_intr (cpus s c))) (\<lambda>old.
     sq (cset c (\<lambda>k. k\<lparr>c_intr := False\<rparr>)) (
     bnd (get (\<lambda>s. c_noff (cpus s c))) (\<lambda>n.
     sq (whenk (n = 0) (cset c (\<lambda>k. k\<lparr>c_intena := old\<rparr>)))
        (cset c (\<lambda>k. k\<lparr>c_noff := c_noff k + 1\<rparr>)))))"

definition pop_off :: "nat \<Rightarrow> ('z smp_scheme, unit) kernel" where
  "pop_off c =
     bnd (get (\<lambda>s. c_intr (cpus s c))) (\<lambda>on.
     sq (unless_panic (\<not> on) ''pop_off - interruptible'') (
     bnd (get (\<lambda>s. c_noff (cpus s c))) (\<lambda>n.
     sq (unless_panic (\<not> n < 1) ''pop_off'') (
     sq (cset c (\<lambda>k. k\<lparr>c_noff := c_noff k - 1\<rparr>)) (
     bnd (get (\<lambda>s. c_noff (cpus s c) = 0 \<and> c_intena (cpus s c))) (\<lambda>b.
     whenk b (cset c (\<lambda>k. k\<lparr>c_intr := True\<rparr>))))))))"

text \<open>
  \<^verbatim>\<open>acquire\<close> up to its loop; one turn of the loop, an atomic swap, with the old value of
  the lock word as its result; what follows the loop.
\<close>

definition acquire_enter :: "nat \<Rightarrow> lockid \<Rightarrow> ('z smp_scheme, unit) kernel" where
  "acquire_enter c l =
     sq (push_off c) (
     bnd (holding c l) (\<lambda>h.
     unless_panic (\<not> h) ''acquire''))"

definition acquire_swap :: "lockid \<Rightarrow> ('z smp_scheme, u32) kernel" where
  "acquire_swap l =
     bnd (get (\<lambda>s. sl_locked (locks s l))) (\<lambda>old.
     sq (lset l (\<lambda>k. k\<lparr>sl_locked := 1\<rparr>)) (ret old))"

definition acquire_record :: "nat \<Rightarrow> lockid \<Rightarrow> ('z smp_scheme, unit) kernel" where
  "acquire_record c l = lset l (\<lambda>k. k\<lparr>sl_cpu := Some c\<rparr>)"

text \<open>\<open>acquire n c l\<close> gives up after \<open>n\<close> turns of the loop; the result says whether it got the lock.\<close>

primrec acquire_spin :: "nat \<Rightarrow> nat \<Rightarrow> lockid \<Rightarrow> ('z smp_scheme, bool) kernel" where
  "acquire_spin 0 c l = ret False"
| "acquire_spin (Suc n) c l =
     bnd (acquire_swap l) (\<lambda>old.
     if old \<noteq> 0 then acquire_spin n c l
     else sq (acquire_record c l) (ret True))"

definition acquire :: "nat \<Rightarrow> nat \<Rightarrow> lockid \<Rightarrow> ('z smp_scheme, bool) kernel" where
  "acquire n c l = sq (acquire_enter c l) (acquire_spin n c l)"

definition release_enter :: "nat \<Rightarrow> lockid \<Rightarrow> ('z smp_scheme, unit) kernel" where
  "release_enter c l =
     bnd (holding c l) (\<lambda>h.
     sq (unless_panic h ''release'')
        (lset l (\<lambda>k. k\<lparr>sl_cpu := None\<rparr>)))"

definition release_store :: "nat \<Rightarrow> lockid \<Rightarrow> ('z smp_scheme, unit) kernel" where
  "release_store c l =
     sq (lset l (\<lambda>k. k\<lparr>sl_locked := 0\<rparr>)) (pop_off c)"

definition release :: "nat \<Rightarrow> lockid \<Rightarrow> ('z smp_scheme, unit) kernel" where
  "release c l = sq (release_enter c l) (release_store c l)"

section \<open>Running them\<close>

lemma lset_run [kernel_run, simp]: "lset l f s = Ok () (s\<lparr>locks := (locks s)(l := f (locks s l))\<rparr>)"
  by (simp add: lset_def)

lemma cset_run [kernel_run, simp]: "cset c f s = Ok () (s\<lparr>cpus := (cpus s)(c := f (cpus s c))\<rparr>)"
  by (simp add: cset_def)

lemma holding_run [kernel_run, simp]:
  "holding c l s = Ok (sl_locked (locks s l) \<noteq> 0 \<and> sl_cpu (locks s l) = Some c) s"
  by (simp add: holding_def)

lemma push_off_run [kernel_run]:
  "push_off c s = Ok () (s\<lparr>cpus := (cpus s)(c := (cpus s c)
     \<lparr>c_intr := False, c_noff := c_noff (cpus s c) + 1,
      c_intena := if c_noff (cpus s c) = 0 then c_intr (cpus s c) else c_intena (cpus s c)\<rparr>)\<rparr>)"
  by (cases "cpus s c") (simp add: push_off_def bnd_run sq_run)

lemma pop_off_run [kernel_run]:
  "pop_off c s =
     (if c_intr (cpus s c) then Panic ''pop_off - interruptible''
      else if c_noff (cpus s c) < 1 then Panic ''pop_off''
      else Ok () (s\<lparr>cpus := (cpus s)(c := (cpus s c)
        \<lparr>c_noff := c_noff (cpus s c) - 1,
         c_intr := c_noff (cpus s c) = 1 \<and> c_intena (cpus s c)\<rparr>)\<rparr>))"
  by (cases "cpus s c") (auto simp: pop_off_def bnd_run sq_run)

lemma acquire_enter_run [kernel_run]:
  "acquire_enter c l s =
     (if sl_locked (locks s l) \<noteq> 0 \<and> sl_cpu (locks s l) = Some c then Panic ''acquire''
      else push_off c s)"
  by (simp add: acquire_enter_def bnd_run sq_run push_off_run)

lemma release_run [kernel_run]:
  "release c l s =
     (if sl_locked (locks s l) \<noteq> 0 \<and> sl_cpu (locks s l) = Some c
      then pop_off c (s\<lparr>locks := (locks s)(l := (locks s l)\<lparr>sl_cpu := None, sl_locked := 0\<rparr>)\<rparr>)
      else Panic ''release'')"
  by (simp add: release_def release_enter_def release_store_def bnd_run sq_run)

section \<open>Interleaving\<close>

text \<open>
  Where a processor stands: outside the lock functions, in the loop of \<open>acquire\<close>, past the loop
  with the lock word taken, or in \<open>release\<close> with the owner field cleared.  \<open>own\<close> lists the
  locks whose \<open>acquire\<close> has returned and whose \<open>release\<close> has not begun, latest first;
  \<open>offs\<close> counts the \<open>push_off\<close>s of the kernel's own that are not yet undone.
\<close>

datatype pc = Idle | Spinning lockid | Taken lockid | Dropping lockid

record sys = smp +
  pcs :: "nat \<Rightarrow> pc"
  own :: "nat \<Rightarrow> lockid list"
  offs :: "nat \<Rightarrow> nat"

inductive step :: "sys \<Rightarrow> sys \<Rightarrow> bool" where
  enter: "pcs s c = Idle \<Longrightarrow> acquire_enter c l s = Ok () t \<Longrightarrow>
     step s (t\<lparr>pcs := (pcs s)(c := Spinning l)\<rparr>)"
| spin: "pcs s c = Spinning l \<Longrightarrow> acquire_swap l s = Ok old t \<Longrightarrow> old \<noteq> 0 \<Longrightarrow> step s t"
| swap: "pcs s c = Spinning l \<Longrightarrow> acquire_swap l s = Ok 0 t \<Longrightarrow>
     step s (t\<lparr>pcs := (pcs s)(c := Taken l)\<rparr>)"
| got: "pcs s c = Taken l \<Longrightarrow> acquire_record c l s = Ok () t \<Longrightarrow>
     step s (t\<lparr>pcs := (pcs s)(c := Idle), own := (own s)(c := l # own s c)\<rparr>)"
| drop: "pcs s c = Idle \<Longrightarrow> release_enter c l s = Ok () t \<Longrightarrow>
     step s (t\<lparr>pcs := (pcs s)(c := Dropping l), own := (own s)(c := remove1 l (own s c))\<rparr>)"
| dropped: "pcs s c = Dropping l \<Longrightarrow> release_store c l s = Ok () t \<Longrightarrow>
     step s (t\<lparr>pcs := (pcs s)(c := Idle)\<rparr>)"
| push: "pcs s c = Idle \<Longrightarrow> push_off c s = Ok () t \<Longrightarrow>
     step s (t\<lparr>offs := (offs s)(c := Suc (offs s c))\<rparr>)"
| pop: "pcs s c = Idle \<Longrightarrow> offs s c = Suc n \<Longrightarrow> pop_off c s = Ok () t \<Longrightarrow>
     step s (t\<lparr>offs := (offs s)(c := n)\<rparr>)"
| intr: "pcs s c = Idle \<Longrightarrow> c_noff (cpus s c) = 0 \<Longrightarrow>
     step s (s\<lparr>cpus := (cpus s)(c := (cpus s c)\<lparr>c_intr := b\<rparr>)\<rparr>)"

text \<open>At boot every lock is initialised, and every processor starts outside with no lock.\<close>

definition boot_sys :: "sys \<Rightarrow> bool" where
  "boot_sys s \<longleftrightarrow> (\<forall>l. sl_locked (locks s l) = 0 \<and> sl_cpu (locks s l) = None) \<and>
     (\<forall>c. c_noff (cpus s c) = 0 \<and> pcs s c = Idle \<and> own s c = [] \<and> offs s c = 0)"

inductive reach :: "sys \<Rightarrow> bool" where
  init: "boot_sys s \<Longrightarrow> reach s"
| step: "reach s \<Longrightarrow> step s t \<Longrightarrow> reach t"

text \<open>
  The invariant.  A lock word is 1 exactly when some processor has the lock, is about to record
  it, or is about to clear it; the owner field names the first kind.
\<close>

definition has :: "sys \<Rightarrow> nat \<Rightarrow> lockid \<Rightarrow> bool" where
  "has s c l \<longleftrightarrow> l \<in> set (own s c) \<or> pcs s c = Taken l \<or> pcs s c = Dropping l"

definition depth :: "sys \<Rightarrow> nat \<Rightarrow> int" where
  "depth s c = int (length (own s c)) + int (offs s c) + (if pcs s c = Idle then 0 else 1)"

definition lock_ok :: "sys \<Rightarrow> lockid \<Rightarrow> bool" where
  "lock_ok s l \<longleftrightarrow>
     (sl_locked (locks s l) \<noteq> 0 \<longleftrightarrow> (\<exists>c. has s c l)) \<and>
     (\<forall>c d. c \<noteq> d \<longrightarrow> \<not> (has s c l \<and> has s d l)) \<and>
     (\<forall>c. sl_cpu (locks s l) = Some c \<longleftrightarrow> l \<in> set (own s c))"

definition cpu_ok :: "sys \<Rightarrow> nat \<Rightarrow> bool" where
  "cpu_ok s c \<longleftrightarrow> c_noff (cpus s c) = depth s c \<and> (0 < depth s c \<longrightarrow> \<not> c_intr (cpus s c)) \<and>
     distinct (own s c) \<and>
     (\<forall>l. pcs s c = Taken l \<or> pcs s c = Dropping l \<longrightarrow> l \<notin> set (own s c))"

definition sys_ok :: "sys \<Rightarrow> bool" where
  "sys_ok s \<longleftrightarrow> (\<forall>l. lock_ok s l) \<and> (\<forall>c. cpu_ok s c)"

lemmas step_simps = acquire_enter_run push_off_run pop_off_run acquire_swap_def acquire_record_def
  release_enter_def release_store_def bnd_run sq_run

lemma boot_ok: "boot_sys s \<Longrightarrow> sys_ok s"
  by (auto simp: boot_sys_def sys_ok_def lock_ok_def cpu_ok_def has_def depth_def)

lemma lock_okI:
  assumes "sl_locked (locks s l) \<noteq> 0" "has s c l" "\<And>d. has s d l \<Longrightarrow> d = c"
    "\<And>d. sl_cpu (locks s l) = Some d \<longleftrightarrow> l \<in> set (own s d)"
  shows "lock_ok s l"
  using assms unfolding lock_ok_def by blast

lemma sys_okD: "sys_ok s \<Longrightarrow> cpu_ok s c" "sys_ok s \<Longrightarrow> lock_ok s l"
  by (simp_all add: sys_ok_def)

lemma cpu_ok_frame:
  "cpu_ok s d \<Longrightarrow> cpus t d = cpus s d \<and> pcs t d = pcs s d \<and> own t d = own s d \<and> offs t d = offs s d \<Longrightarrow>
     cpu_ok t d"
  by (simp add: cpu_ok_def depth_def)

lemma lock_ok_frame:
  "lock_ok s l \<Longrightarrow> locks t l = locks s l \<Longrightarrow> (\<And>c. has t c l = has s c l) \<Longrightarrow>
     (\<And>c. l \<in> set (own t c) \<longleftrightarrow> l \<in> set (own s c)) \<Longrightarrow> lock_ok t l"
  by (simp add: lock_ok_def)

text \<open>A step of processor \<open>c\<close> on lock \<open>k\<close> leaves the views of the others alone.\<close>

lemma sys_ok_update:
  assumes ok: "sys_ok s" and c: "cpu_ok t c" and k: "lock_ok t k"
    and d: "\<And>d. d \<noteq> c \<Longrightarrow> cpus t d = cpus s d \<and> pcs t d = pcs s d \<and> own t d = own s d \<and> offs t d = offs s d"
    and l: "\<And>l. l \<noteq> k \<Longrightarrow> locks t l = locks s l \<and> has t c l = has s c l \<and>
      (l \<in> set (own t c) \<longleftrightarrow> l \<in> set (own s c))"
  shows "sys_ok t"
proof -
  have "cpu_ok t e" for e
    using c cpu_ok_frame [OF sys_okD(1) [OF ok] d [of e]] by (cases "e = c") blast+
  moreover have "lock_ok t m" for m
  proof (cases "m = k")
    case False
    have *: "has t e m = has s e m" "(m \<in> set (own t e) \<longleftrightarrow> m \<in> set (own s e))" for e
      using d [of e] l [OF False] by (cases "e = c"; simp add: has_def)+
    show ?thesis
      by (rule lock_ok_frame [OF sys_okD(2) [OF ok]]) (use l [OF False] * in blast)+
  qed (use k in simp)
  ultimately show ?thesis by (simp add: sys_ok_def)
qed

lemma has_unique: "sys_ok s \<Longrightarrow> has s c l \<Longrightarrow> has s d l \<Longrightarrow> d = c"
  unfolding sys_ok_def lock_ok_def by blast

lemma enter_ok:
  assumes "sys_ok s" "pcs s c = Idle" "acquire_enter c l s = Ok () t"
  shows "sys_ok (t\<lparr>pcs := (pcs s)(c := Spinning l)\<rparr>)"
proof (rule sys_ok_update [OF assms(1), of _ c l])
  show "cpu_ok (t\<lparr>pcs := (pcs s)(c := Spinning l)\<rparr>) c"
    using assms sys_okD(1) [OF assms(1), of c]
    by (auto simp: step_simps cpu_ok_def depth_def split: if_splits)
  show "lock_ok (t\<lparr>pcs := (pcs s)(c := Spinning l)\<rparr>) l"
    using assms by (intro lock_ok_frame [OF sys_okD(2) [OF assms(1)]]) (auto simp: step_simps has_def split: if_splits)
qed (use assms in \<open>auto simp: step_simps has_def split: if_splits\<close>)

lemma spin_ok:
  assumes "sys_ok s" "acquire_swap l s = Ok old t" "old \<noteq> 0"
  shows "sys_ok t"
proof (rule sys_ok_update [OF assms(1), of _ 0 l])
  have t: "t = s\<lparr>locks := (locks s)(l := (locks s l)\<lparr>sl_locked := 1\<rparr>)\<rparr>"
    and l: "sl_locked (locks s l) \<noteq> 0" using assms by (auto simp: step_simps)
  show "cpu_ok t 0" using sys_okD(1) [OF assms(1), of 0] by (simp add: t cpu_ok_def depth_def)
  have "has t d k = has s d k" for d k by (simp add: t has_def)
  then show "lock_ok t l" using sys_okD(2) [OF assms(1), of l] l by (simp add: lock_ok_def t)
qed (use assms in \<open>auto simp: step_simps has_def\<close>)

lemma swap_ok:
  assumes "sys_ok s" "pcs s c = Spinning l" "acquire_swap l s = Ok 0 t"
  shows "sys_ok (t\<lparr>pcs := (pcs s)(c := Taken l)\<rparr>)" (is "sys_ok ?t")
proof (rule sys_ok_update [OF assms(1), of _ c l])
  have t: "?t = s\<lparr>locks := (locks s)(l := (locks s l)\<lparr>sl_locked := 1\<rparr>), pcs := (pcs s)(c := Taken l)\<rparr>"
    and "sl_locked (locks s l) = 0" using assms by (auto simp: step_simps)
  with sys_okD(2) [OF assms(1), of l]
  have none: "\<not> has s d l" "sl_cpu (locks s l) = Some d \<longleftrightarrow> l \<in> set (own s d)" for d
    by (auto simp: lock_ok_def)
  show "cpu_ok ?t c" using sys_okD(1) [OF assms(1), of c] assms(2) none(1) [of c]
    by (auto simp: t cpu_ok_def depth_def has_def)
  show "lock_ok ?t l"
  proof (rule lock_okI [of _ _ c])
    show "d = c" if "has ?t d l" for d
      using that none(1) [of d] by (auto simp: t has_def split: if_splits)
  qed (simp_all add: t has_def none(2))
qed (use assms in \<open>auto simp: step_simps has_def\<close>)

lemma got_ok:
  assumes "sys_ok s" "pcs s c = Taken l" "acquire_record c l s = Ok () t"
  shows "sys_ok (t\<lparr>pcs := (pcs s)(c := Idle), own := (own s)(c := l # own s c)\<rparr>)" (is "sys_ok ?t")
proof (rule sys_ok_update [OF assms(1), of _ c l])
  have t: "?t = s\<lparr>locks := (locks s)(l := (locks s l)\<lparr>sl_cpu := Some c\<rparr>),
      pcs := (pcs s)(c := Idle), own := (own s)(c := l # own s c)\<rparr>"
    using assms by (auto simp: step_simps)
  have h: "has s c l" "l \<notin> set (own s c)"
    using assms(2) sys_okD(1) [OF assms(1), of c] by (auto simp: has_def cpu_ok_def)
  have others: "\<not> has s d l" if "d \<noteq> c" for d using has_unique [OF assms(1) h(1)] that by blast
  show "cpu_ok ?t c" using sys_okD(1) [OF assms(1), of c] assms(2) h(2)
    by (auto simp: t cpu_ok_def depth_def)
  show "lock_ok ?t l"
  proof (rule lock_okI [of _ _ c])
    show "sl_locked (locks ?t l) \<noteq> 0" using sys_okD(2) [OF assms(1), of l] h(1) by (auto simp: t lock_ok_def)
    show "d = c" if "has ?t d l" for d using that others [of d] by (auto simp: t has_def split: if_splits)
    show "sl_cpu (locks ?t l) = Some d \<longleftrightarrow> l \<in> set (own ?t d)" for d
      using others [of d] by (auto simp: t has_def)
  qed (simp add: t has_def)
qed (use assms in \<open>auto simp: step_simps has_def\<close>)

lemma drop_ok:
  assumes "sys_ok s" "pcs s c = Idle" "release_enter c l s = Ok () t"
  shows "sys_ok (t\<lparr>pcs := (pcs s)(c := Dropping l), own := (own s)(c := remove1 l (own s c))\<rparr>)"
    (is "sys_ok ?t")
proof (rule sys_ok_update [OF assms(1), of _ c l])
  have t: "?t = s\<lparr>locks := (locks s)(l := (locks s l)\<lparr>sl_cpu := None\<rparr>),
      pcs := (pcs s)(c := Dropping l), own := (own s)(c := remove1 l (own s c))\<rparr>"
    and l: "sl_locked (locks s l) \<noteq> 0" "sl_cpu (locks s l) = Some c"
    using assms by (auto simp: step_simps split: if_splits)
  have mine: "l \<in> set (own s c)" "has s c l" "distinct (own s c)" "0 < length (own s c)"
    using l sys_okD [OF assms(1)] by (auto simp: lock_ok_def has_def cpu_ok_def)
  have others: "\<not> has s d l" if "d \<noteq> c" for d using has_unique [OF assms(1) mine(2)] that by blast
  show "cpu_ok ?t c" using sys_okD(1) [OF assms(1), of c] assms(2) mine
    by (auto simp: t cpu_ok_def depth_def length_remove1 of_nat_diff Suc_le_eq)
  show "lock_ok ?t l"
  proof (rule lock_okI [of _ _ c])
    show "d = c" if "has ?t d l" for d using that others [of d] by (auto simp: t has_def split: if_splits)
    show "sl_cpu (locks ?t l) = Some d \<longleftrightarrow> l \<in> set (own ?t d)" for d
      using others [of d] mine by (auto simp: t has_def)
  qed (simp_all add: t has_def l)
qed (use assms in \<open>auto simp: step_simps has_def split: if_splits\<close>)

lemma dropped_ok:
  assumes "sys_ok s" "pcs s c = Dropping l" "release_store c l s = Ok () t"
  shows "sys_ok (t\<lparr>pcs := (pcs s)(c := Idle)\<rparr>)" (is "sys_ok ?t")
proof (rule sys_ok_update [OF assms(1), of _ c l])
  have t: "?t = s\<lparr>locks := (locks s)(l := (locks s l)\<lparr>sl_locked := 0\<rparr>),
      cpus := (cpus s)(c := (cpus s c)\<lparr>c_noff := c_noff (cpus s c) - 1,
        c_intr := c_noff (cpus s c) = 1 \<and> c_intena (cpus s c)\<rparr>), pcs := (pcs s)(c := Idle)\<rparr>"
    using assms by (auto simp: step_simps split: if_splits)
  have h: "has s c l" "l \<notin> set (own s c)"
    using assms(2) sys_okD(1) [OF assms(1), of c] by (auto simp: has_def cpu_ok_def)
  have "\<not> has ?t d l" for d
    using has_unique [OF assms(1) h(1), of d] h(2) by (cases "d = c") (auto simp: t has_def)
  then show "lock_ok ?t l" using sys_okD(2) [OF assms(1), of l] by (simp add: t lock_ok_def)
  show "cpu_ok ?t c" using sys_okD(1) [OF assms(1), of c] assms(2)
    by (auto simp: t cpu_ok_def depth_def)
qed (use assms in \<open>auto simp: step_simps has_def split: if_splits\<close>)

lemma own_cpu_ok:
  assumes "sys_ok s" "cpu_ok t c" "locks t = locks s" "pcs t = pcs s" "own t = own s"
    "\<And>d. d \<noteq> c \<Longrightarrow> cpus t d = cpus s d \<and> offs t d = offs s d"
  shows "sys_ok t"
proof (rule sys_ok_update [OF assms(1,2), where k = L_kmem])
  show "lock_ok t L_kmem" using assms(3-5) by (intro lock_ok_frame [OF sys_okD(2) [OF assms(1)]]) (auto simp: has_def)
qed (use assms in \<open>auto simp: has_def\<close>)

lemma step_ok:
  assumes "step s t" "sys_ok s"
  shows "sys_ok t"
  using assms(1)
proof cases
  case (push c u)
  then show ?thesis using sys_okD(1) [OF assms(2), of c]
    by (intro own_cpu_ok [OF assms(2), of _ c]) (auto simp: step_simps cpu_ok_def depth_def)
next
  case (pop c n u)
  then show ?thesis using sys_okD(1) [OF assms(2), of c]
    by (intro own_cpu_ok [OF assms(2), of _ c]) (auto simp: step_simps cpu_ok_def depth_def split: if_splits)
next
  case (intr c b)
  then show ?thesis using sys_okD(1) [OF assms(2), of c]
    by (intro own_cpu_ok [OF assms(2), of _ c]) (auto simp: cpu_ok_def depth_def)
next
  case enter
  then show ?thesis using enter_ok [OF assms(2)] by simp
next
  case spin
  then show ?thesis using spin_ok [OF assms(2)] by blast
next
  case swap
  then show ?thesis using swap_ok [OF assms(2)] by simp
next
  case got
  then show ?thesis using got_ok [OF assms(2)] by simp
next
  case drop
  then show ?thesis using drop_ok [OF assms(2)] by simp
next
  case dropped
  then show ?thesis using dropped_ok [OF assms(2)] by simp
qed

lemma reach_ok: "reach s \<Longrightarrow> sys_ok s"
  by (induction rule: reach.induct) (auto intro: boot_ok step_ok)

lemma own_intr_off:
  assumes "sys_ok s" "l \<in> set (own s c)"
  shows "\<not> c_intr (cpus s c)" "0 < c_noff (cpus s c)"
proof -
  have "0 < depth s c" using assms(2) by (cases "own s c") (auto simp: depth_def)
  then show "\<not> c_intr (cpus s c)" "0 < c_noff (cpus s c)"
    using sys_okD(1) [OF assms(1), of c] by (simp_all add: cpu_ok_def)
qed

section \<open>Properties\<close>

text \<open>
  Property C21: spin locks exclude.  In every state that any interleaving of the processors can
  reach, a lock that one processor has acquired and not begun to release is acquired by no
  other processor and about to be by none, every other processor that tries for it gets a
  nonzero word and keeps spinning, and interrupts are off on the processor that has it, so no
  handler can run there and deadlock on it.
\<close>

theorem spinlock_mutual_exclusion:
  assumes "reach s" "l \<in> set (own s c)"
  shows "(\<forall>d. d \<noteq> c \<longrightarrow> l \<notin> set (own s d) \<and> pcs s d \<noteq> Taken l) \<and>
     (\<exists>old t. acquire_swap l s = Ok old t \<and> old \<noteq> 0) \<and>
     sl_cpu (locks s l) = Some c \<and> \<not> c_intr (cpus s c) \<and> 0 < c_noff (cpus s c)"
proof -
  have ok: "sys_ok s" using assms(1) by (rule reach_ok)
  have h: "has s c l" using assms(2) by (auto simp: has_def)
  have "l \<notin> set (own s d) \<and> pcs s d \<noteq> Taken l" if "d \<noteq> c" for d
    using has_unique [OF ok h, of d] that by (auto simp: has_def)
  moreover have "sl_locked (locks s l) \<noteq> 0" "sl_cpu (locks s l) = Some c"
    using sys_okD(2) [OF ok, of l] h assms(2) unfolding lock_ok_def by blast+
  ultimately show ?thesis using own_intr_off [OF ok assms(2)] by (auto simp: acquire_swap_def bnd_run sq_run)
qed

definition boot0 :: sys where
  "boot0 = \<lparr>locks = (\<lambda>_. \<lparr>sl_locked = 0, sl_name = [], sl_cpu = None\<rparr>),
     cpus = (\<lambda>_. \<lparr>c_noff = 0, c_intena = False, c_intr = True\<rparr>),
     pcs = (\<lambda>_. Idle), own = (\<lambda>_. []), offs = (\<lambda>_. 0)\<rparr>"

lemma boot0_reach: "reach boot0"
  by (rule reach.init) (simp add: boot0_def boot_sys_def)

text \<open>Run alone, \<open>acquire\<close> and \<open>release\<close> are sequences of steps.\<close>

lemma acquire_free:
  assumes "pcs s c = Idle" "sl_locked (locks s l) = 0"
  shows "\<exists>t. acquire (Suc n) c l s = Ok True t \<and> locks t l = (locks s l)\<lparr>sl_locked := 1, sl_cpu := Some c\<rparr> \<and>
     pcs t = pcs s \<and> (reach s \<longrightarrow> reach (t\<lparr>own := (own s)(c := l # own s c)\<rparr>))"
proof -
  obtain u where u: "push_off c s = Ok () u" "locks u = locks s" "pcs u = pcs s" "own u = own s" "offs u = offs s"
    by (simp add: push_off_run)
  let ?t = "u\<lparr>locks := (locks s)(l := (locks s l)\<lparr>sl_locked := 1, sl_cpu := Some c\<rparr>)\<rparr>"
  have e: "acquire_enter c l s = Ok () u" using assms u by (simp add: acquire_enter_run)
  have "acquire (Suc n) c l s = Ok True ?t"
    using assms u e by (simp add: acquire_def acquire_swap_def acquire_record_def bnd_run sq_run)
  moreover have "reach (?t\<lparr>own := (own s)(c := l # own s c)\<rparr>)" if "reach s"
  proof -
    let ?u1 = "u\<lparr>pcs := (pcs s)(c := Spinning l)\<rparr>"
    let ?u2 = "u\<lparr>locks := (locks s)(l := (locks s l)\<lparr>sl_locked := 1\<rparr>), pcs := (pcs s)(c := Taken l)\<rparr>"
    have "reach ?u1" using that assms(1) e by (blast intro: reach.step step.enter)
    moreover have "step ?u1 ?u2"
      using step.swap [of ?u1 c l "u\<lparr>locks := (locks s)(l := (locks s l)\<lparr>sl_locked := 1\<rparr>), pcs := (pcs s)(c := Spinning l)\<rparr>"]
        assms u by (simp add: acquire_swap_def bnd_run sq_run)
    moreover have "step ?u2 (?t\<lparr>pcs := (pcs s)(c := Idle), own := (own s)(c := l # own s c)\<rparr>)"
      using step.got [of ?u2 c l "?u2\<lparr>locks := (locks s)(l := (locks s l)\<lparr>sl_locked := 1, sl_cpu := Some c\<rparr>)\<rparr>"]
        u by (simp add: acquire_record_def)
    ultimately have "reach (?t\<lparr>pcs := (pcs s)(c := Idle), own := (own s)(c := l # own s c)\<rparr>)"
      by (blast intro: reach.step)
    moreover have "(pcs s)(c := Idle) = pcs u" using assms(1) u(3) by auto
    ultimately show ?thesis by simp
  qed
  ultimately show ?thesis using u by auto
qed

lemma acquire_busy:
  assumes "sl_locked (locks s l) \<noteq> 0" "sl_cpu (locks s l) \<noteq> Some c"
  shows "\<exists>t. acquire n c l s = Ok False t"
proof -
  have "\<exists>t. acquire_spin n c l u = Ok False t" if "sl_locked (locks u l) \<noteq> 0" for u :: "'a smp_scheme"
    using that by (induction n arbitrary: u) (auto simp: acquire_swap_def bnd_run sq_run)
  then show ?thesis using assms by (simp add: acquire_def acquire_enter_run push_off_run sq_run)
qed

lemma release_own:
  assumes "reach s" "pcs s c = Idle" "l \<in> set (own s c)"
  shows "\<exists>t. release c l s = Ok () t \<and> reach (t\<lparr>own := (own s)(c := remove1 l (own s c))\<rparr>)"
proof -
  have ok: "sys_ok s" using assms(1) by (rule reach_ok)
  have l: "sl_locked (locks s l) \<noteq> 0" "sl_cpu (locks s l) = Some c"
    using sys_okD(2) [OF ok, of l] assms(3) unfolding lock_ok_def has_def by blast+
  have n: "\<not> c_intr (cpus s c)" "\<not> c_noff (cpus s c) < 1"
    using own_intr_off [OF ok assms(3)] by auto
  let ?u = "s\<lparr>locks := (locks s)(l := (locks s l)\<lparr>sl_cpu := None\<rparr>),
      pcs := (pcs s)(c := Dropping l), own := (own s)(c := remove1 l (own s c))\<rparr>"
  have "step s ?u"
    using step.drop [OF assms(2), of l "s\<lparr>locks := (locks s)(l := (locks s l)\<lparr>sl_cpu := None\<rparr>)\<rparr>"] l
    by (simp add: release_enter_def bnd_run sq_run)
  then have "reach ?u" using assms(1) by (rule reach.step [rotated])
  let ?w = "s\<lparr>locks := (locks s)(l := (locks s l)\<lparr>sl_cpu := None, sl_locked := 0\<rparr>)\<rparr>"
  let ?t = "?w\<lparr>cpus := (cpus s)(c := (cpus s c)\<lparr>c_noff := c_noff (cpus s c) - 1,
      c_intr := c_noff (cpus s c) = 1 \<and> c_intena (cpus s c)\<rparr>)\<rparr>"
  have "release c l s = Ok () ?t" using l n by (simp add: release_run pop_off_run)
  moreover have "step ?u (?t\<lparr>own := (own s)(c := remove1 l (own s c)), pcs := (pcs s)(c := Idle)\<rparr>)"
    using step.dropped [of ?u c l "?t\<lparr>pcs := (pcs s)(c := Dropping l), own := (own s)(c := remove1 l (own s c))\<rparr>"]
      n by (simp add: release_store_def pop_off_run sq_run)
  moreover have "?t\<lparr>own := (own s)(c := remove1 l (own s c)), pcs := (pcs s)(c := Idle)\<rparr> =
      ?t\<lparr>own := (own s)(c := remove1 l (own s c))\<rparr>" using assms(2) by (cases s) auto
  ultimately show ?thesis using reach.step [OF \<open>reach ?u\<close>] by metis
qed

theorem spinlock_mutual_exclusion_witness:
  "\<exists>s. reach s \<and> L_kmem \<in> set (own s 0) \<and> L_kmem \<notin> set (own s 1) \<and> \<not> c_intr (cpus s 0)"
proof -
  obtain t where t: "reach (t\<lparr>own := (own boot0)(0 := L_kmem # own boot0 0)\<rparr>)"
    using acquire_free [of boot0 0 L_kmem] boot0_reach by (auto simp: boot0_def)
  have o: "L_kmem \<in> set (own (t\<lparr>own := (own boot0)(0 := L_kmem # own boot0 0)\<rparr>) 0)" by simp
  show ?thesis using spinlock_mutual_exclusion [OF t o] t o by (metis zero_neq_one)
qed

text \<open>
  Property C22: the functions of \<^verbatim>\<open>spinlock.c\<close> mean to a processor what \<open>lock_acquire\<close> and
  \<open>lock_release\<close> on its list of held locks say.  From any reachable state of the machine in
  which processor \<open>c\<close> is outside the lock functions: where \<open>lock_acquire\<close> panics so does
  \<open>acquire\<close>; where it succeeds, \<open>acquire\<close> returns on the first turn of its loop if the lock
  is free, and spins without taking it if another processor has it; \<open>release\<close> panics exactly
  where \<open>lock_release\<close> does and otherwise returns.  The new lists of held locks agree.
\<close>

theorem spinlock_refines_held:
  assumes "reach s" "pcs s c = Idle"
  shows "(case lock_acquire l \<lparr>held = own s c, klog = []\<rparr> of
      Ok _ v \<Rightarrow> (if sl_locked (locks s l) = 0
          then \<exists>t. acquire (Suc n) c l s = Ok True t \<and> reach (t\<lparr>own := (own s)(c := held v)\<rparr>)
          else \<exists>t. acquire n c l s = Ok False t)
    | Panic e \<Rightarrow> acquire n c l s = Panic e
    | Sleep _ _ \<Rightarrow> False) \<and>
   (case lock_release l \<lparr>held = own s c, klog = []\<rparr> of
      Ok _ v \<Rightarrow> \<exists>t. release c l s = Ok () t \<and> reach (t\<lparr>own := (own s)(c := held v)\<rparr>)
    | Panic e \<Rightarrow> release c l s = Panic e
    | Sleep _ _ \<Rightarrow> False)"
proof (cases "l \<in> set (own s c)")
  case True
  then have "sl_locked (locks s l) \<noteq> 0" "sl_cpu (locks s l) = Some c"
    using sys_okD(2) [OF reach_ok [OF assms(1)], of l] unfolding lock_ok_def has_def by blast+
  then have "acquire n c l s = Panic ''acquire''"
    by (simp add: acquire_def acquire_enter_run sq_run)
  with True release_own [OF assms True] show ?thesis by simp
next
  case False
  then have "sl_cpu (locks s l) \<noteq> Some c"
    using sys_okD(2) [OF reach_ok [OF assms(1)], of l] unfolding lock_ok_def by blast
  with False acquire_free [OF assms(2), of l n] acquire_busy [of s l c n] assms(1)
  show ?thesis by (auto simp: release_run)
qed

theorem spinlock_refines_held_witness:
  "\<exists>t. acquire 1 0 L_kmem boot0 = Ok True t \<and> reach (t\<lparr>own := (own boot0)(0 := [L_kmem])\<rparr>)"
  using spinlock_refines_held [OF boot0_reach, of 0 L_kmem 0] by (simp add: boot0_def)

lemma push_offs_run:
  assumes "0 \<le> c_noff (cpus s c)" "0 < c_noff (cpus s c) \<longrightarrow> \<not> c_intr (cpus s c)"
  shows "foreach [0..<n] (\<lambda>_. push_off c) s = Ok () (if n = 0 then s else
     s\<lparr>cpus := (cpus s)(c := (cpus s c)\<lparr>c_intr := False, c_noff := c_noff (cpus s c) + int n,
       c_intena := if c_noff (cpus s c) = 0 then c_intr (cpus s c) else c_intena (cpus s c)\<rparr>)\<rparr>)"
  using assms by (induction n) (auto simp: foreach_upt_Suc push_off_run algebra_simps simp del: upt_Suc)

lemma pop_offs_run:
  assumes "\<not> c_intr (cpus s c)" "int n \<le> c_noff (cpus s c)"
  shows "foreach [0..<n] (\<lambda>_. pop_off c) s = Ok () (if n = 0 then s else
     s\<lparr>cpus := (cpus s)(c := (cpus s c)\<lparr>c_noff := c_noff (cpus s c) - int n,
       c_intr := c_noff (cpus s c) = int n \<and> c_intena (cpus s c)\<rparr>)\<rparr>)"
  using assms
  by (induction n) (auto simp: foreach_upt_Suc pop_off_run eq_diff_eq diff_diff_eq add.commute
      diff_eq_eq simp del: upt_Suc)

text \<open>
  Property C23: \<open>push_off\<close> and \<open>pop_off\<close> nest.  After \<open>n\<close> calls of \<open>push_off\<close> interrupts are off
  (for \<open>n > 0\<close>), and the \<open>n\<close> matching calls of \<open>pop_off\<close> do not panic and restore the depth
  and the interrupt-enable bit to what they were, whether on or off, touching no other
  processor and no lock.
\<close>

theorem push_pop_nest:
  assumes "0 \<le> c_noff (cpus s c)" "0 < c_noff (cpus s c) \<longrightarrow> \<not> c_intr (cpus s c)" "0 < n"
  shows "\<exists>t i. foreach [0..<n] (\<lambda>_. push_off c) s = Ok () t \<and> \<not> c_intr (cpus t c) \<and>
     c_noff (cpus t c) = c_noff (cpus s c) + int n \<and>
     foreach [0..<n] (\<lambda>_. pop_off c) t =
       Ok () (s\<lparr>cpus := (cpus s)(c := (cpus s c)\<lparr>c_intena := i\<rparr>)\<rparr>)"
proof -
  let ?i = "if c_noff (cpus s c) = 0 then c_intr (cpus s c) else c_intena (cpus s c)"
  let ?t = "s\<lparr>cpus := (cpus s)(c := (cpus s c)\<lparr>c_intr := False, c_noff := c_noff (cpus s c) + int n,
       c_intena := ?i\<rparr>)\<rparr>"
  have "foreach [0..<n] (\<lambda>_. push_off c) s = Ok () ?t"
    using push_offs_run [OF assms(1,2), of n] assms(3) by simp
  moreover have "foreach [0..<n] (\<lambda>_. pop_off c) ?t =
      Ok () (s\<lparr>cpus := (cpus s)(c := (cpus s c)\<lparr>c_intena := ?i\<rparr>)\<rparr>)"
    using pop_offs_run [of ?t c n] assms by (cases "cpus s c") auto
  ultimately show ?thesis by (intro exI [of _ ?t] exI [of _ ?i]) simp
qed

theorem push_pop_nest_witness:
  "\<exists>t i. foreach [0..<2] (\<lambda>_. push_off 0) boot0 = Ok () t \<and> \<not> c_intr (cpus t 0) \<and>
     foreach [0..<2] (\<lambda>_. pop_off 0) t =
       Ok () (boot0\<lparr>cpus := (cpus boot0)(0 := (cpus boot0 0)\<lparr>c_intena := i\<rparr>)\<rparr>)"
  using push_pop_nest [of boot0 0 2] by (fastforce simp: boot0_def)

end
