(* ===== verification/Cstring.thy ===== *)
theory Cstring
  imports Prelude
begin

text \<open>
  \<^verbatim>\<open>kernel/string.c\<close>.  A character array is a function from index to byte, so the same
  definition serves an array that lives in memory (\<open>at m a\<close>) and one held in a struct.
  \<open>memset\<close> and \<open>memmove\<close> work on the memory itself, because \<open>memmove\<close> is about overlap.
  Lengths are natural numbers; a negative \<open>int\<close> length copies nothing, as in the source.
\<close>

type_synonym cstr = "nat \<Rightarrow> byte"

definition at :: "memory \<Rightarrow> addr \<Rightarrow> cstr" where
  "at m a = (\<lambda>i. m (a + of_nat i))"

section \<open>Definitions\<close>

primrec memset_from :: "memory \<Rightarrow> addr \<Rightarrow> byte \<Rightarrow> nat \<Rightarrow> nat \<Rightarrow> memory" where
  "memset_from m dst c i 0 = m"
| "memset_from m dst c i (Suc k) = memset_from (m(dst + of_nat i := c)) dst c (Suc i) k"

definition memset :: "memory \<Rightarrow> addr \<Rightarrow> byte \<Rightarrow> nat \<Rightarrow> memory" where
  "memset m dst c n = memset_from m dst c 0 n"

primrec memcmp :: "cstr \<Rightarrow> cstr \<Rightarrow> nat \<Rightarrow> int" where
  "memcmp s1 s2 0 = 0"
| "memcmp s1 s2 (Suc n) =
     (if s1 0 \<noteq> s2 0 then uint (s1 0) - uint (s2 0)
      else memcmp (\<lambda>i. s1 (Suc i)) (\<lambda>i. s2 (Suc i)) n)"

primrec move_down :: "memory \<Rightarrow> addr \<Rightarrow> addr \<Rightarrow> nat \<Rightarrow> memory" where
  "move_down m d s 0 = m"
| "move_down m d s (Suc n) = (let d' = d - 1; s' = s - 1 in move_down (m(d' := m s')) d' s' n)"

primrec move_up :: "memory \<Rightarrow> addr \<Rightarrow> addr \<Rightarrow> nat \<Rightarrow> memory" where
  "move_up m d s 0 = m"
| "move_up m d s (Suc n) = move_up (m(d := m s)) (d + 1) (s + 1) n"

definition memmove :: "memory \<Rightarrow> addr \<Rightarrow> addr \<Rightarrow> nat \<Rightarrow> memory" where
  "memmove m dst src n =
     (if n = 0 then m
      else if src < dst \<and> dst < src + of_nat n
      then move_down m (dst + of_nat n) (src + of_nat n) n
      else move_up m dst src n)"

definition memcpy :: "memory \<Rightarrow> addr \<Rightarrow> addr \<Rightarrow> nat \<Rightarrow> memory" where
  "memcpy m dst src n = memmove m dst src n"

primrec strncmp :: "cstr \<Rightarrow> cstr \<Rightarrow> nat \<Rightarrow> int" where
  "strncmp p q 0 = 0"
| "strncmp p q (Suc n) =
     (if p 0 \<noteq> 0 \<and> p 0 = q 0 then strncmp (\<lambda>i. p (Suc i)) (\<lambda>i. q (Suc i)) n
      else uint (p 0) - uint (q 0))"

primrec strncpy_pad :: "cstr \<Rightarrow> nat \<Rightarrow> nat \<Rightarrow> cstr" where
  "strncpy_pad s i 0 = s"
| "strncpy_pad s i (Suc n) = strncpy_pad (s(i := 0)) (Suc i) n"

primrec strncpy_copy :: "cstr \<Rightarrow> cstr \<Rightarrow> nat \<Rightarrow> nat \<Rightarrow> cstr" where
  "strncpy_copy s t i 0 = s"
| "strncpy_copy s t i (Suc n) =
     (if t i \<noteq> 0 then strncpy_copy (s(i := t i)) t (Suc i) n
      else strncpy_pad (s(i := t i)) (Suc i) n)"

definition strncpy :: "cstr \<Rightarrow> cstr \<Rightarrow> nat \<Rightarrow> cstr" where
  "strncpy s t n = strncpy_copy s t 0 n"

primrec safestrcpy_from :: "cstr \<Rightarrow> cstr \<Rightarrow> nat \<Rightarrow> nat \<Rightarrow> cstr" where
  "safestrcpy_from s t i 0 = s(i := 0)"
| "safestrcpy_from s t i (Suc n) =
     (if t i \<noteq> 0 then safestrcpy_from (s(i := t i)) t (Suc i) n
      else (s(i := t i))(Suc i := 0))"

definition safestrcpy :: "cstr \<Rightarrow> cstr \<Rightarrow> int \<Rightarrow> cstr" where
  "safestrcpy s t n = (if n \<le> 0 then s else safestrcpy_from s t 0 (nat (n - 1)))"

partial_function (option) strlen_from :: "cstr \<Rightarrow> nat \<Rightarrow> nat option" where
  "strlen_from s n = (if s n \<noteq> 0 then strlen_from s (Suc n) else Some n)"

definition strlen :: "cstr \<Rightarrow> nat option" where
  "strlen s = strlen_from s 0"

section \<open>Lemmas\<close>

lemma memset_from_apply:
  assumes "i + k \<le> 2 ^ 64"
  shows "memset_from m dst c i k x =
    (if i \<le> unat (x - dst) \<and> unat (x - dst) < i + k then c else m x)"
  using assms
proof (induction k arbitrary: m i)
  case 0
  then show ?case by auto
next
  case (Suc k)
  have "x = dst + of_nat i \<longleftrightarrow> unat (x - dst) = i"
    using Suc.prems by (intro eq_offset_iff) simp
  with Suc show ?case by auto
qed

lemma memset_eq [mem_simps]:
  "n \<le> 2 ^ 64 \<Longrightarrow> memset m dst c n = mem_write m dst (replicate n c)"
  by (rule ext) (auto simp: memset_def memset_from_apply mem_write_def)

lemma move_up_eq:
  assumes "unat d + n \<le> 2 ^ 64" "unat s + n \<le> 2 ^ 64" "d \<le> s \<or> unat s + n \<le> unat d"
  shows "move_up m d s n = mem_write m d (mem_read m s n)"
  using assms
proof (induction n arbitrary: m d s)
  case 0
  then show ?case by (simp add: mem_write_def)
next
  case (Suc n)
  show ?case
  proof (cases "n = 0")
    case True
    then show ?thesis
      by (auto simp: mem_write_def unat_eq_0)
  next
    case False
    then have u: "unat (d + 1) = Suc (unat d)" "unat (s + 1) = Suc (unat s)"
      using Suc.prems by (simp_all add: unat_word_ariths)
    have "d + 1 \<le> s + 1 \<or> unat (s + 1) + n \<le> unat (d + 1)"
      using Suc.prems u by (auto simp: word_le_nat_alt)
    then have IH: "move_up (m(d := m s)) (d + 1) (s + 1) n =
        mem_write (m(d := m s)) (d + 1) (mem_read (m(d := m s)) (s + 1) n)"
      using Suc.prems u by (intro Suc.IH) auto
    have rd: "mem_read (m(d := m s)) (s + 1) n = mem_read m (s + 1) n"
    proof (rule mem_read_cong)
      fix x assume "x \<in> region (s + 1) n"
      then have "unat (x - (s + 1)) < n" by (simp add: region_def)
      then have "x \<noteq> d" using Suc.prems u False
        by (auto simp: word_le_nat_alt unat_sub_if_size word_size split: if_splits)
      then show "(m(d := m s)) x = m x" by simp
    qed (use Suc.prems in simp)
    show ?thesis
    proof (rule ext)
      fix x
      show "move_up m d s (Suc n) x = mem_write m d (mem_read m s (Suc n)) x"
      proof (cases "x = d")
        case True
        then have "\<not> unat (x - (d + 1)) < n"
          using Suc.prems by (simp add: unat_max)
        with True show ?thesis by (simp add: IH mem_write_def)
      next
        case False
        then have "unat (x - d) \<noteq> 0" by (simp add: unat_eq_0)
        then have e: "unat (x - (d + 1)) = unat (x - d) - 1"
          by (metis add.commute diff_diff_add diff_diff_eq unat_minus_one unat_eq_zero)
        have "s + 1 + of_nat (unat (x - d) - 1) = s + of_nat (unat (x - d))"
          using \<open>unat (x - d) \<noteq> 0\<close> by (cases "unat (x - d)") (auto simp: algebra_simps)
        with False \<open>unat (x - d) \<noteq> 0\<close> show ?thesis
          by (auto simp: IH rd mem_write_def e)
      qed
    qed
  qed
qed

lemma move_down_eq:
  assumes "unat d + n \<le> 2 ^ 64" "unat s + n \<le> 2 ^ 64" "s \<le> d"
  shows "move_down m (d + of_nat n) (s + of_nat n) n = mem_write m d (mem_read m s n)"
  using assms(1,2)
proof (induction n arbitrary: m)
  case 0
  then show ?case by (simp add: mem_write_def)
next
  case (Suc n)
  let ?m = "m(d + of_nat n := m (s + of_nat n))"
  have IH: "move_down ?m (d + of_nat n) (s + of_nat n) n = mem_write ?m d (mem_read ?m s n)"
    using Suc.prems by (intro Suc.IH) auto
  have n: "unat (of_nat n :: addr) = n" using Suc.prems by (simp add: unat_of_nat take_bit_eq_mod)
  have rd: "mem_read ?m s n = mem_read m s n"
  proof (rule mem_read_cong)
    fix x assume "x \<in> region s n"
    then have x: "unat (x - s) < n" by (simp add: region_def)
    have "unat (d + of_nat n) = unat d + n" using Suc.prems n by (simp add: unat_word_ariths)
    moreover have "unat x < unat s + n"
      using x Suc.prems by (auto simp: unat_sub_if_size word_size split: if_splits)
    ultimately have "x \<noteq> d + of_nat n" using assms(3) by (auto simp: word_le_nat_alt)
    then show "?m x = m x" by simp
  qed (use Suc.prems in simp)
  have eq: "x = d + of_nat n \<longleftrightarrow> unat (x - d) = n" for x
    using Suc.prems by (intro eq_offset_iff) simp
  show ?case
  proof (rule ext)
    fix x
    have "move_down m (d + of_nat (Suc n)) (s + of_nat (Suc n)) (Suc n) x =
        mem_write ?m d (mem_read m s n) x"
      using IH by (simp add: rd add.assoc add.commute [of 1] flip: add.assoc)
    also have "\<dots> = mem_write m d (mem_read m s (Suc n)) x"
      by (auto simp: mem_write_def eq less_Suc_eq)
    finally show "move_down m (d + of_nat (Suc n)) (s + of_nat (Suc n)) (Suc n) x =
        mem_write m d (mem_read m s (Suc n)) x" .
  qed
qed

text \<open>The C string that starts an array: at most \<open>n\<close> bytes, up to the first NUL.\<close>

definition cpre :: "nat \<Rightarrow> cstr \<Rightarrow> byte list" where
  "cpre n p = takeWhile (\<lambda>b. b \<noteq> 0) (map p [0..<n])"

lemma cpre_0 [simp]: "cpre 0 p = []"
  by (simp add: cpre_def)

lemma cpre_Suc: "cpre (Suc n) p = (if p 0 = 0 then [] else p 0 # cpre n (\<lambda>i. p (Suc i)))"
proof -
  have "map p [0..<Suc n] = p 0 # map (\<lambda>i. p (Suc i)) [0..<n]"
    by (simp add: map_upt_Suc del: upt_Suc)
  then show ?thesis by (simp add: cpre_def del: upt_Suc)
qed

lemma length_cpre_le: "length (cpre n p) \<le> n"
  using length_takeWhile_le [of "\<lambda>b. b \<noteq> 0" "map p [0..<n]"] by (simp add: cpre_def)

lemma cpre_cong: "(\<And>i. i < n \<Longrightarrow> p i = q i) \<Longrightarrow> cpre n p = cpre n q"
  by (auto simp: cpre_def intro!: arg_cong [where f = "takeWhile _"])

lemma strncmp_0_iff: "strncmp p q n = 0 \<longleftrightarrow> cpre n p = cpre n q"
  by (induction n arbitrary: p q) (auto simp: cpre_Suc word_uint_eq_iff)

lemma memcmp_0_iff: "memcmp s1 s2 n = 0 \<longleftrightarrow> (\<forall>i<n. s1 i = s2 i)"
proof (induction n arbitrary: s1 s2)
  case (Suc n)
  have "(\<forall>i<Suc n. s1 i = s2 i) \<longleftrightarrow> s1 0 = s2 0 \<and> (\<forall>i<n. s1 (Suc i) = s2 (Suc i))"
    using less_Suc_eq_0_disj by auto
  then show ?case using Suc.IH by (auto simp: word_uint_eq_iff)
qed simp

lemma strncpy_pad_apply: "strncpy_pad s i n k = (if i \<le> k \<and> k < i + n then 0 else s k)"
  by (induction n arbitrary: s i) auto

lemma strncpy_copy_apply:
  "strncpy_copy s t i n k =
     (if i \<le> k \<and> k < i + n then (if \<exists>j. i \<le> j \<and> j < k \<and> t j = 0 then 0 else t k) else s k)"
proof (induction n arbitrary: s i)
  case (Suc n)
  show ?case
  proof (cases "t i = 0")
    case True
    then show ?thesis by (auto simp: strncpy_pad_apply)
  next
    case False
    then have "(\<exists>j. i \<le> j \<and> j < k \<and> t j = 0) \<longleftrightarrow> (\<exists>j. Suc i \<le> j \<and> j < k \<and> t j = 0)"
      by (metis Suc_leD Suc_leI le_neq_implies_less)
    with False show ?thesis by (auto simp: Suc.IH)
  qed
qed auto

lemma strncpy_apply:
  "strncpy s t n k = (if k < n then (if \<exists>j<k. t j = 0 then 0 else t k) else s k)"
  by (simp add: strncpy_def strncpy_copy_apply)

lemma takeWhile_same:
  assumes "length xs = length ys"
    and "\<And>k. k < length xs \<Longrightarrow> xs ! k = (if \<exists>j<k. \<not> P (ys ! j) then z else ys ! k)" and "\<not> P z"
  shows "takeWhile P xs = takeWhile P ys"
  using assms
proof (induction xs ys rule: list_induct2)
  case (Cons x xs y ys)
  have x: "x = y" using Cons.prems(1) [of 0] by simp
  show ?case
  proof (cases "P y")
    case True
    have "xs ! k = (if \<exists>j<k. \<not> P (ys ! j) then z else ys ! k)" if "k < length xs" for k
    proof -
      have "(\<exists>j<Suc k. \<not> P ((y # ys) ! j)) \<longleftrightarrow> (\<exists>j<k. \<not> P (ys ! j))"
        using True less_Suc_eq_0_disj by auto
      with Cons.prems(1) [of "Suc k"] that show ?thesis by (auto split: if_splits)
    qed
    with Cons.IH Cons.prems(2) x show ?thesis by simp
  qed (simp add: x)
qed simp

lemma cpre_strncpy: "cpre n (strncpy s t n) = cpre n t"
  unfolding cpre_def
  by (rule takeWhile_same [where z = 0]) (auto simp: strncpy_apply)

lemma safestrcpy_from_frame: "k < i \<or> i + n < k \<Longrightarrow> safestrcpy_from s t i n k = s k"
  by (induction n arbitrary: s i) auto

lemma safestrcpy_from_copy:
  "\<exists>e. i \<le> e \<and> e \<le> i + n \<and> safestrcpy_from s t i n e = 0 \<and>
     (\<forall>j. i \<le> j \<and> j < e \<longrightarrow> safestrcpy_from s t i n j = t j \<and> t j \<noteq> 0) \<and>
     (e = i + n \<or> t e = 0)"
proof (induction n arbitrary: s i)
  case 0
  then show ?case by auto
next
  case (Suc n)
  show ?case
  proof (cases "t i = 0")
    case True
    then show ?thesis by (intro exI [of _ i]) auto
  next
    case False
    from Suc.IH [of "Suc i" "s(i := t i)"] obtain e where
      e: "Suc i \<le> e" "e \<le> Suc i + n" "safestrcpy_from (s(i := t i)) t (Suc i) n e = 0"
        "\<forall>j. Suc i \<le> j \<and> j < e \<longrightarrow> safestrcpy_from (s(i := t i)) t (Suc i) n j = t j \<and> t j \<noteq> 0"
        "e = Suc i + n \<or> t e = 0" by blast
    have "safestrcpy_from (s(i := t i)) t (Suc i) n i = t i"
      by (simp add: safestrcpy_from_frame)
    with e False show ?thesis
      by (intro exI [of _ e]) (auto simp: le_eq_less_or_eq [of i])
  qed
qed

lemma strlen_from_Some: "s n = 0 \<Longrightarrow> i \<le> n \<Longrightarrow> (\<forall>j. i \<le> j \<and> j < n \<longrightarrow> s j \<noteq> 0) \<Longrightarrow>
    strlen_from s i = Some n"
proof (induction "n - i" arbitrary: i)
  case 0
  then show ?case by (subst strlen_from.simps) simp
next
  case (Suc k)
  then have "s i \<noteq> 0" "strlen_from s (Suc i) = Some n" by auto
  then show ?case by (subst strlen_from.simps) simp
qed

lemma strlen_Some: "s n = 0 \<Longrightarrow> (\<forall>j<n. s j \<noteq> 0) \<Longrightarrow> strlen s = Some n"
  by (simp add: strlen_def strlen_from_Some)

section \<open>Properties\<close>

text \<open>
  Property C26: \<^verbatim>\<open>memmove\<close> copies as if through a temporary buffer.  Whichever way source and
  destination overlap, and whichever of its two loops it takes, afterwards the destination
  holds the \<open>n\<close> bytes the source held before, and no other byte of memory has changed.  The
  ranges must not wrap around the end of the address space.
\<close>

theorem memmove_correct:
  assumes "unat dst + n \<le> 2 ^ 64" and "unat src + n \<le> 2 ^ 64"
  shows "memmove m dst src n = mem_write m dst (mem_read m src n)"
proof (cases "n = 0 \<or> unat src + n = 2 ^ 64")
  case False
  then have "unat (src + of_nat n) = unat src + n"
    using assms by (simp add: unat_word_ariths unat_of_nat take_bit_eq_mod)
  then have lt: "dst < src + of_nat n \<longleftrightarrow> unat dst < unat src + n"
    by (simp add: word_less_nat_alt)
  show ?thesis
  proof (cases "src < dst \<and> unat dst < unat src + n")
    case True
    then have "move_down m (dst + of_nat n) (src + of_nat n) n = mem_write m dst (mem_read m src n)"
      using assms by (intro move_down_eq) auto
    with True lt False show ?thesis by (simp add: memmove_def)
  next
    case no_overlap: False
    then have "move_up m dst src n = mem_write m dst (mem_read m src n)"
      using assms by (intro move_up_eq) auto
    with no_overlap lt False show ?thesis by (auto simp: memmove_def)
  qed
next
  case True
  show ?thesis
  proof (cases "n = 0")
    case True
    then show ?thesis by (simp add: memmove_def mem_write_def)
  next
    case False
    with True assms have "dst \<le> src" by (simp add: word_le_nat_alt)
    then have "move_up m dst src n = mem_write m dst (mem_read m src n)"
      using assms by (intro move_up_eq) auto
    moreover have "\<not> src < dst" using \<open>dst \<le> src\<close> by simp
    ultimately show ?thesis using False by (simp add: memmove_def)
  qed
qed

theorem memmove_correct_witness:
  "unat (9 :: addr) + 3 \<le> 2 ^ 64 \<and> unat (8 :: addr) + 3 \<le> 2 ^ 64 \<and>
   mem_read (memmove (\<lambda>a. ucast a) 9 8 3) 9 3 = [8, 9, 10]"
proof -
  have h: "unat (9 :: addr) + 3 \<le> 2 ^ 64" "unat (8 :: addr) + 3 \<le> 2 ^ 64" by simp_all
  show ?thesis
    using h by (simp add: memmove_correct [OF h] mem_simps) (simp add: mem_read_def upt_rec)
qed

text \<open>
  Property C27: \<^verbatim>\<open>safestrcpy\<close> always leaves a NUL-terminated string within the \<open>n\<close> bytes it
  is given.  The bytes before the terminator are the source's, none of them NUL; the string is
  cut only when the source does not fit in \<open>n - 1\<close> bytes; and no byte at or beyond \<open>n\<close> is
  written.
\<close>

theorem safestrcpy_correct:
  assumes "0 < n"
  shows "(\<exists>e < nat n. safestrcpy s t n e = 0 \<and>
            (\<forall>j<e. safestrcpy s t n j = t j \<and> t j \<noteq> 0) \<and> (e = nat n - 1 \<or> t e = 0)) \<and>
         (\<forall>k \<ge> nat n. safestrcpy s t n k = s k)"
proof -
  have r: "safestrcpy s t n = safestrcpy_from s t 0 (nat n - 1)"
    using assms by (simp add: safestrcpy_def nat_diff_distrib')
  from safestrcpy_from_copy [of 0 "nat n - 1" s t] obtain e where
    e: "e \<le> nat n - 1" "safestrcpy s t n e = 0"
      "\<forall>j<e. safestrcpy s t n j = t j \<and> t j \<noteq> 0" "e = nat n - 1 \<or> t e = 0"
    unfolding r by auto
  moreover have "e < nat n" using e(1) assms by linarith
  moreover have "\<forall>k \<ge> nat n. safestrcpy s t n k = s k"
    using assms by (auto simp: r intro!: safestrcpy_from_frame)
  ultimately show ?thesis by blast
qed

theorem safestrcpy_correct_witness:
  "(0 :: int) < 3 \<and> safestrcpy (\<lambda>_. 7) (\<lambda>_. 65) 3 9 = 7 \<and>
   map (safestrcpy (\<lambda>_. 7) (\<lambda>_. 65) 3) [0, 1, 2] = [65, 65, 0]"
proof -
  have h: "(0 :: int) < 3" by simp
  have "safestrcpy (\<lambda>_. 7) (\<lambda>_. 65) 3 9 = 7"
    using safestrcpy_correct [OF h, of "\<lambda>_. 7" "\<lambda>_. 65"] by simp
  moreover have "map (safestrcpy (\<lambda>_. 7) (\<lambda>_. 65) 3) [0, 1, 2] = [65, 65, 0]" by code_simp
  ultimately show ?thesis using h by blast
qed

end
