(* ===== verification/Kalloc.thy ===== *)
theory Kalloc
  imports Klock Cstring
begin

text \<open>
  \<^verbatim>\<open>kernel/kalloc.c\<close>: the allocator of physical pages.  Free pages are chained through
  their first eight bytes, in the memory they manage; \<open>freelist\<close> is the head pointer.  \<open>kend\<close>
  is the linker's symbol \<^verbatim>\<open>end\<close>, the first address after the kernel.
\<close>

section \<open>Definitions\<close>

record kmem_st = base_st +
  mem :: memory
  freelist :: addr
  kend :: addr

definition PGSIZE :: addr where [simp]: "PGSIZE = 4096"
definition KERNBASE :: addr where [simp]: "KERNBASE = 0x80000000"
definition PHYSTOP :: addr where "PHYSTOP = KERNBASE + 128 * 1024 * 1024"
definition PGROUNDUP :: "addr \<Rightarrow> addr" where
  "PGROUNDUP sz = (sz + PGSIZE - 1) AND NOT (PGSIZE - 1)"
definition PGROUNDDOWN :: "addr \<Rightarrow> addr" where
  "PGROUNDDOWN a = a AND NOT (PGSIZE - 1)"

definition kfree :: "addr \<Rightarrow> ('z kmem_st_scheme, unit) kernel" where
  "kfree pa =
     bnd (get kend) (\<lambda>e.
     sq (unless_panic (\<not> (pa mod PGSIZE \<noteq> 0 \<or> pa < e \<or> PHYSTOP \<le> pa)) ''kfree'') (
     sq (upd (\<lambda>s. s\<lparr>mem := memset (mem s) pa 1 4096\<rparr>)) (
     sq (lock_acquire L_kmem) (
     sq (upd (\<lambda>s. s\<lparr>mem := store64 (mem s) pa (freelist s)\<rparr>)) (
     sq (upd (\<lambda>s. s\<lparr>freelist := pa\<rparr>)) (
     lock_release L_kmem))))))"

definition kalloc :: "('z kmem_st_scheme, addr) kernel" where
  "kalloc =
     sq (lock_acquire L_kmem) (
     bnd (get freelist) (\<lambda>r.
     sq (whenk (r \<noteq> 0) (upd (\<lambda>s. s\<lparr>freelist := load64 (mem s) r\<rparr>))) (
     sq (lock_release L_kmem) (
     sq (whenk (r \<noteq> 0) (upd (\<lambda>s. s\<lparr>mem := memset (mem s) r 5 4096\<rparr>))) (
     ret r)))))"

function freerange_from :: "addr \<Rightarrow> addr \<Rightarrow> ('z kmem_st_scheme, unit) kernel" where
  "freerange_from p pa_end =
     (if unat p + 4096 \<le> unat pa_end
      then sq (kfree p) (freerange_from (p + PGSIZE) pa_end)
      else ret ())"
  by pat_completeness auto
termination
proof (relation "measure (\<lambda>(p, e). unat e - unat p)")
  fix p e :: addr
  assume le: "unat p + 4096 \<le> unat e"
  have "unat p + 4096 < 2 ^ 64" using le unat_addr_less [of e] by simp
  then have "unat (p + 4096) = unat p + 4096" by (simp add: unat_word_ariths)
  with le show "((p + PGSIZE, e), p, e) \<in> measure (\<lambda>(p, e). unat e - unat p)" by simp
qed simp

definition freerange :: "addr \<Rightarrow> addr \<Rightarrow> ('z kmem_st_scheme, unit) kernel" where
  "freerange pa_start pa_end = freerange_from (PGROUNDUP pa_start) pa_end"

definition kinit :: "('z kmem_st_scheme, unit) kernel" where
  "kinit = bnd (get kend) (\<lambda>e. freerange e PHYSTOP)"

declare freerange_from.simps [simp del]

section \<open>Pages\<close>

abbreviation page :: "addr \<Rightarrow> addr set" where
  "page p \<equiv> region p 4096"

definition page_aligned :: "addr \<Rightarrow> bool" where
  "page_aligned p \<longleftrightarrow> p mod PGSIZE = 0"

lemma page_aligned_unat: "page_aligned p \<longleftrightarrow> unat p mod 4096 = 0"
  by (simp add: page_aligned_def unat_mod_distrib flip: unat_eq_0)

lemma page_disjoint:
  assumes "page_aligned p" "page_aligned q" "p \<noteq> q"
  shows "page p \<inter> page q = {}"
proof (rule ccontr)
  assume "page p \<inter> page q \<noteq> {}"
  then obtain x where x: "unat (x - p) < 4096" "unat (x - q) < 4096"
    by (auto simp: region_def)
  from assms obtain a b where ab: "unat p = 4096 * a" "unat q = 4096 * b"
    by (auto simp: page_aligned_unat mod_eq_0_iff_dvd dvd_def)
  have bd: "a < 2 ^ 52" "b < 2 ^ 52"
    using ab unat_addr_less [of p] unat_addr_less [of q] by simp_all
  have *: "unat x div 4096 = c" if "unat (x - r) < 4096" "unat r = 4096 * c" "c < 2 ^ 52" for r c
    using that unat_addr_less [of x]
    by (auto simp: unat_sub_if_size word_size split: if_splits)
  have "a = b" using * [OF x(1) ab(1) bd(1)] * [OF x(2) ab(2) bd(2)] by simp
  with ab assms(3) show False by (metis word_unat_eq_iff)
qed

lemma region_in_page: "page_aligned p \<Longrightarrow> region p 8 \<subseteq> page p"
  by (rule region_mono) simp

section \<open>The free list\<close>

text \<open>\<open>flist m h ps\<close>: the chain of pages that starts at \<open>h\<close> in memory \<open>m\<close> is \<open>ps\<close>.\<close>

primrec flist :: "memory \<Rightarrow> addr \<Rightarrow> addr list \<Rightarrow> bool" where
  "flist m h [] \<longleftrightarrow> h = 0"
| "flist m h (p # ps) \<longleftrightarrow> h = p \<and> flist m (load64 m p) ps"

definition kpage :: "addr \<Rightarrow> addr \<Rightarrow> bool" where
  "kpage e p \<longleftrightarrow> page_aligned p \<and> e \<le> p \<and> p < PHYSTOP"

definition kmem_inv :: "'z kmem_st_scheme \<Rightarrow> addr list \<Rightarrow> bool" where
  "kmem_inv s ps \<longleftrightarrow> KERNBASE \<le> kend s \<and> flist (mem s) (freelist s) ps \<and> distinct ps \<and>
     (\<forall>p \<in> set ps. kpage (kend s) p)"

lemma flist_unique: "flist m h ps \<Longrightarrow> flist m h qs \<Longrightarrow> 0 \<notin> set ps \<Longrightarrow> 0 \<notin> set qs \<Longrightarrow> ps = qs"
proof (induction ps arbitrary: h qs)
  case Nil
  then show ?case by (cases qs) auto
next
  case (Cons p ps)
  then show ?case by (cases qs) auto
qed

lemma flist_cong:
  "(\<And>p. p \<in> set ps \<Longrightarrow> load64 m p = load64 m' p) \<Longrightarrow> flist m h ps = flist m' h ps"
  by (induction ps arbitrary: h) auto

lemma kpage_not_0: "KERNBASE \<le> e \<Longrightarrow> kpage e p \<Longrightarrow> p \<noteq> 0"
  by (auto simp: kpage_def word_le_nat_alt)

lemma kmem_inv_not_0: "kmem_inv s ps \<Longrightarrow> 0 \<notin> set ps"
  unfolding kmem_inv_def using kpage_not_0 by blast

text \<open>A change of memory outside the free pages does not touch the list.\<close>

lemma flist_frame:
  assumes "\<forall>p \<in> set ps. page_aligned p" "\<And>x. x \<in> (\<Union>p \<in> set ps. page p) \<Longrightarrow> m' x = m x"
  shows "flist m' h ps = flist m h ps"
proof (rule flist_cong)
  fix p assume p: "p \<in> set ps"
  have "m' x = m x" if "x \<in> region p 8" for x
    using that assms p region_in_page by blast
  then show "load64 m' p = load64 m p"
    by (auto simp: load64_def intro!: arg_cong [where f = le_word] mem_read_cong)
qed

lemma kmem_inv_frame:
  assumes "kmem_inv s ps" "freelist s' = freelist s" "kend s' = kend s"
    "\<And>x. x \<in> (\<Union>p \<in> set ps. page p) \<Longrightarrow> mem s' x = mem s x"
  shows "kmem_inv s' ps"
proof -
  have "flist (mem s') (freelist s) ps = flist (mem s) (freelist s) ps"
    using assms(1,4) by (intro flist_frame) (auto simp: kmem_inv_def kpage_def)
  with assms show ?thesis by (simp add: kmem_inv_def)
qed

lemma kfree_run [kernel_run]:
  "kfree pa s =
     (if pa mod PGSIZE \<noteq> 0 \<or> pa < kend s \<or> PHYSTOP \<le> pa then Panic ''kfree''
      else if L_kmem \<in> set (held s) then Panic ''acquire''
      else Ok () (s\<lparr>mem := store64 (mem_write (mem s) pa (replicate 4096 1)) pa (freelist s),
                   freelist := pa\<rparr>))"
  by (simp add: kfree_def bnd_run sq_run memset_eq)

lemma kalloc_run [kernel_run]:
  "kalloc s =
     (if L_kmem \<in> set (held s) then Panic ''acquire''
      else if freelist s = 0 then Ok 0 s
      else Ok (freelist s) (s\<lparr>freelist := load64 (mem s) (freelist s),
                             mem := mem_write (mem s) (freelist s) (replicate 4096 5)\<rparr>))"
  by (simp add: kalloc_def bnd_run sq_run memset_eq)

lemma kfree_mem_other:
  "x \<notin> page pa \<Longrightarrow> store64 (mem_write m pa (replicate 4096 c)) pa v x = m x"
proof -
  assume x: "x \<notin> page pa"
  then have "x \<notin> region pa 8" using region_mono [of 8 4096 pa] by auto
  with x show ?thesis by (simp add: store64_other mem_write_other)
qed

lemma kfree_inv:
  assumes inv: "kmem_inv s ps" and pa: "kpage (kend s) pa" "pa \<notin> set ps"
    and lk: "L_kmem \<notin> set (held s)"
  shows "\<exists>m f. kfree pa s = Ok () (s\<lparr>mem := m, freelist := f\<rparr>) \<and>
     kmem_inv (s\<lparr>mem := m, freelist := f\<rparr>) (pa # ps) \<and> (\<forall>x. x \<notin> page pa \<longrightarrow> m x = mem s x)"
proof -
  let ?m = "store64 (mem_write (mem s) pa (replicate 4096 1)) pa (freelist s)"
  have "flist ?m (freelist s) ps = flist (mem s) (freelist s) ps"
  proof (rule flist_frame)
    show "\<forall>p \<in> set ps. page_aligned p" using inv by (simp add: kmem_inv_def kpage_def)
    fix x assume "x \<in> (\<Union>p \<in> set ps. page p)"
    then obtain p where p: "p \<in> set ps" "x \<in> page p" by blast
    with inv pa have "page p \<inter> page pa = {}"
      by (intro page_disjoint) (auto simp: kmem_inv_def kpage_def)
    with p show "?m x = mem s x" by (intro kfree_mem_other) blast
  qed
  with inv pa lk have "kfree pa s = Ok () (s\<lparr>mem := ?m, freelist := pa\<rparr>) \<and>
     kmem_inv (s\<lparr>mem := ?m, freelist := pa\<rparr>) (pa # ps) \<and> (\<forall>x. x \<notin> page pa \<longrightarrow> ?m x = mem s x)"
    by (simp add: kfree_run kmem_inv_def kpage_def page_aligned_def kfree_mem_other not_less not_le)
  then show ?thesis by blast
qed

lemma kalloc_inv:
  assumes inv: "kmem_inv s (p # ps)" and lk: "L_kmem \<notin> set (held s)"
  shows "\<exists>m f. kalloc s = Ok p (s\<lparr>mem := m, freelist := f\<rparr>) \<and>
     kmem_inv (s\<lparr>mem := m, freelist := f\<rparr>) ps \<and> mem_read m p 4096 = replicate 4096 5 \<and>
     (\<forall>x. x \<notin> page p \<longrightarrow> m x = mem s x)"
proof -
  let ?m = "mem_write (mem s) p (replicate 4096 5)"
  have p: "freelist s = p" "p \<noteq> 0" using inv kmem_inv_not_0 [OF inv] by (auto simp: kmem_inv_def)
  have "flist ?m (load64 (mem s) p) ps = flist (mem s) (load64 (mem s) p) ps"
  proof (rule flist_frame)
    show "\<forall>q \<in> set ps. page_aligned q" using inv by (simp add: kmem_inv_def kpage_def)
    fix x assume "x \<in> (\<Union>q \<in> set ps. page q)"
    then obtain q where q: "q \<in> set ps" "x \<in> page q" by blast
    with inv have "page q \<inter> page p = {}"
      by (intro page_disjoint) (auto simp: kmem_inv_def kpage_def)
    with q show "?m x = mem s x" by (intro mem_write_other) auto
  qed
  with inv lk p have "kalloc s = Ok p (s\<lparr>mem := ?m, freelist := load64 (mem s) p\<rparr>) \<and>
     kmem_inv (s\<lparr>mem := ?m, freelist := load64 (mem s) p\<rparr>) ps \<and>
     mem_read ?m p 4096 = replicate 4096 5 \<and> (\<forall>x. x \<notin> page p \<longrightarrow> ?m x = mem s x)"
    by (simp add: kalloc_run kmem_inv_def mem_read_write_same mem_write_other)
  then show ?thesis by blast
qed

lemma kalloc_empty: "kmem_inv s [] \<Longrightarrow> L_kmem \<notin> set (held s) \<Longrightarrow> kalloc s = Ok 0 s"
  by (simp add: kalloc_run kmem_inv_def)

section \<open>Initialisation\<close>

lemma unat_PGROUNDDOWN: "unat (PGROUNDDOWN a) = unat a div 4096 * 4096"
proof -
  have "PGROUNDDOWN a = a AND NOT (mask 12)" by (simp add: PGROUNDDOWN_def mask_eq_exp_minus_1)
  also have "\<dots> = push_bit 12 (drop_bit 12 a)"
    by (rule bit_word_eqI) (auto simp: bit_simps)
  also have "\<dots> = a div 4096 * 4096"
    by (simp add: push_bit_eq_mult drop_bit_eq_div)
  finally have "unat (PGROUNDDOWN a) = unat a div 4096 * 4096 mod 2 ^ 64"
    by (simp add: unat_word_ariths mod_mult_left_eq)
  moreover have "unat a div 4096 * 4096 \<le> unat a" by simp
  ultimately show ?thesis using unat_addr_less [of a] by simp
qed

lemma PGROUNDUP_down: "PGROUNDUP sz = PGROUNDDOWN (sz + 4095)"
  by (simp add: PGROUNDUP_def PGROUNDDOWN_def add.commute)

lemma unat_PGROUNDUP:
  "unat sz + 4095 < 2 ^ 64 \<Longrightarrow> unat (PGROUNDUP sz) = (unat sz + 4095) div 4096 * 4096"
  by (simp add: PGROUNDUP_down unat_PGROUNDDOWN unat_word_ariths)

lemma page_aligned_PGROUNDUP: "page_aligned (PGROUNDUP a)"
  by (simp add: page_aligned_unat PGROUNDUP_down unat_PGROUNDDOWN)

lemma page_aligned_PGROUNDDOWN: "page_aligned (PGROUNDDOWN a)"
  by (simp add: page_aligned_unat unat_PGROUNDDOWN)

text \<open>\<open>PGROUNDUP a\<close> is the least page boundary at or above \<open>a\<close>.\<close>

lemma PGROUNDUP_le_iff:
  assumes "page_aligned q" "unat a + 4095 < 2 ^ 64"
  shows "PGROUNDUP a \<le> q \<longleftrightarrow> a \<le> q"
proof -
  from assms(1) obtain b where b: "unat q = 4096 * b"
    by (auto simp: page_aligned_unat mod_eq_0_iff_dvd dvd_def)
  have "(unat a + 4095) div 4096 < Suc b \<longleftrightarrow> unat a + 4095 < Suc b * 4096"
    by (rule div_less_iff_less_mult) simp
  then have "(unat a + 4095) div 4096 * 4096 \<le> 4096 * b \<longleftrightarrow> unat a \<le> 4096 * b"
    by (simp add: less_Suc_eq_le mult.commute)
  then show ?thesis using assms(2) b by (simp add: word_le_nat_alt unat_PGROUNDUP)
qed

lemma PHYSTOP_unat: "unat PHYSTOP = 0x88000000"
  by (simp add: PHYSTOP_def)

lemma page_aligned_step:
  assumes "page_aligned p" "page_aligned q" "p < q"
  shows "p + 4096 \<le> q \<and> unat (p + 4096) = unat p + 4096"
proof -
  from assms obtain a b where ab: "unat p = 4096 * a" "unat q = 4096 * b"
    by (auto simp: page_aligned_unat mod_eq_0_iff_dvd dvd_def)
  with assms(3) have "4096 * a < 4096 * b" by (simp add: word_less_nat_alt)
  then have "Suc a \<le> b" by simp
  then have "unat p + 4096 \<le> unat q" using ab by simp
  moreover from this have "unat (p + 4096) = unat p + 4096"
    using unat_addr_less [of q] by (simp add: unat_word_ariths)
  ultimately show ?thesis by (simp add: word_le_nat_alt)
qed

lemma page_aligned_PHYSTOP: "page_aligned PHYSTOP"
  by (simp add: page_aligned_def PHYSTOP_def)

lemma page_aligned_add: "page_aligned p \<Longrightarrow> page_aligned (p + 4096)"
  by (simp add: page_aligned_unat unat_word_ariths mod_mod_cancel)

lemma managed_step:
  assumes "page_aligned p" "p < PHYSTOP"
  shows "{q. page_aligned q \<and> p \<le> q \<and> q < PHYSTOP} =
    insert p {q. page_aligned q \<and> p + 4096 \<le> q \<and> q < PHYSTOP}"
proof -
  have "p < p + 4096"
    using page_aligned_step [OF assms(1) page_aligned_PHYSTOP assms(2)]
    by (simp add: word_less_nat_alt)
  then show ?thesis using assms page_aligned_step [of p] by (auto simp: order_le_less)
qed

lemma freerange_from_inv:
  assumes "kmem_inv s ps" "page_aligned p" "kend s \<le> p" "p \<le> PHYSTOP" "\<forall>q \<in> set ps. q < p"
    "L_kmem \<notin> set (held s)"
  shows "\<exists>m f ps'. freerange_from p PHYSTOP s = Ok () (s\<lparr>mem := m, freelist := f\<rparr>) \<and>
     kmem_inv (s\<lparr>mem := m, freelist := f\<rparr>) ps' \<and>
     set ps' = set ps \<union> {q. page_aligned q \<and> p \<le> q \<and> q < PHYSTOP}"
  using assms
proof (induction "unat PHYSTOP - unat p" arbitrary: s p ps rule: less_induct)
  case less
  show ?case
  proof (cases "p = PHYSTOP")
    case True
    then have "freerange_from p PHYSTOP s = Ok () (s\<lparr>mem := mem s, freelist := freelist s\<rparr>)"
      by (simp add: freerange_from.simps)
    moreover have "set ps = set ps \<union> {q. page_aligned q \<and> p \<le> q \<and> q < PHYSTOP}"
      unfolding True by fastforce
    moreover have "kmem_inv (s\<lparr>mem := mem s, freelist := freelist s\<rparr>) ps" using less.prems(1) by simp
    ultimately show ?thesis by blast
  next
    case False
    with less.prems(4) have lt: "p < PHYSTOP" by simp
    from page_aligned_step [OF less.prems(2) page_aligned_PHYSTOP lt]
    have st: "p + 4096 \<le> PHYSTOP" "unat (p + 4096) = unat p + 4096" by simp_all
    from less.prems lt have "kpage (kend s) p" "p \<notin> set ps" by (auto simp: kpage_def)
    from kfree_inv [OF less.prems(1) this less.prems(6)] obtain m1 f1 where
      s1: "kfree p s = Ok () (s\<lparr>mem := m1, freelist := f1\<rparr>)"
        "kmem_inv (s\<lparr>mem := m1, freelist := f1\<rparr>) (p # ps)" by blast
    let ?s1 = "s\<lparr>mem := m1, freelist := f1\<rparr>"
    have pp: "p < p + 4096" using st by (simp add: word_less_nat_alt)
    have "\<exists>m f ps'. freerange_from (p + 4096) PHYSTOP ?s1 = Ok () (?s1\<lparr>mem := m, freelist := f\<rparr>) \<and>
        kmem_inv (?s1\<lparr>mem := m, freelist := f\<rparr>) ps' \<and>
        set ps' = set (p # ps) \<union> {q. page_aligned q \<and> p + 4096 \<le> q \<and> q < PHYSTOP}"
    proof (rule less.hyps)
      show "unat PHYSTOP - unat (p + 4096) < unat PHYSTOP - unat p"
        using st lt by (simp add: word_less_nat_alt)
      show "\<forall>q \<in> set (p # ps). q < p + 4096" using less.prems(5) pp by auto
    qed (use s1 less.prems page_aligned_add st pp in auto)
    then obtain m f ps' where
      s': "freerange_from (p + 4096) PHYSTOP ?s1 = Ok () (s\<lparr>mem := m, freelist := f\<rparr>)"
        "kmem_inv (s\<lparr>mem := m, freelist := f\<rparr>) ps'"
        "set ps' = set (p # ps) \<union> {q. page_aligned q \<and> p + 4096 \<le> q \<and> q < PHYSTOP}" by auto
    have "freerange_from p PHYSTOP s = Ok () (s\<lparr>mem := m, freelist := f\<rparr>)"
      using st s1(1) s'(1) by (subst freerange_from.simps) (simp add: sq_run word_le_nat_alt)
    moreover have "set ps' = set ps \<union> {q. page_aligned q \<and> p \<le> q \<and> q < PHYSTOP}"
      using managed_step [OF less.prems(2) lt] s'(3) by auto
    ultimately show ?thesis using s'(2) by blast
  qed
qed

lemma kinit_inv:
  assumes "freelist s = 0" "KERNBASE \<le> kend s" "kend s \<le> PHYSTOP" "L_kmem \<notin> set (held s)"
  shows "\<exists>m f ps. kinit s = Ok () (s\<lparr>mem := m, freelist := f\<rparr>) \<and>
     kmem_inv (s\<lparr>mem := m, freelist := f\<rparr>) ps \<and> set ps = {p. kpage (kend s) p}"
proof -
  have ov: "unat (kend s) + 4095 < 2 ^ 64"
    using assms(3) PHYSTOP_unat by (simp add: word_le_nat_alt)
  have *: "PGROUNDUP (kend s) \<le> q \<longleftrightarrow> kend s \<le> q" if "page_aligned q" for q
    using PGROUNDUP_le_iff that ov by blast
  have "\<exists>m f ps'. freerange_from (PGROUNDUP (kend s)) PHYSTOP s = Ok () (s\<lparr>mem := m, freelist := f\<rparr>) \<and>
     kmem_inv (s\<lparr>mem := m, freelist := f\<rparr>) ps' \<and>
     set ps' = set [] \<union> {q. page_aligned q \<and> PGROUNDUP (kend s) \<le> q \<and> q < PHYSTOP}"
  proof (rule freerange_from_inv)
    show "kmem_inv s []" using assms by (simp add: kmem_inv_def)
    show "kend s \<le> PGROUNDUP (kend s)" using * [OF page_aligned_PGROUNDUP [of "kend s"]] by simp
    show "PGROUNDUP (kend s) \<le> PHYSTOP" using * [OF page_aligned_PHYSTOP] assms(3) by simp
  qed (use assms page_aligned_PGROUNDUP in auto)
  moreover have "{q. page_aligned q \<and> PGROUNDUP (kend s) \<le> q \<and> q < PHYSTOP} = {p. kpage (kend s) p}"
    using * by (auto simp: kpage_def)
  ultimately show ?thesis by (simp add: kinit_def bnd_run freerange_def)
qed

section \<open>The interface\<close>

text \<open>
  What the allocator promises its clients (page tables, processes, pipes): a list of free pages,
  from which \<open>alloc\<close> takes the head and to which \<open>free\<close> returns a page, neither touching any
  other page.  \<open>owned s A\<close> says that exactly the pages \<open>A\<close> are in clients' hands.
\<close>

locale page_allocator =
  fixes alloc :: "('s, addr) kernel"
    and free :: "addr \<Rightarrow> ('s, unit) kernel"
    and memory_of :: "'s \<Rightarrow> memory"
    and put_memory :: "memory \<Rightarrow> 's \<Rightarrow> 's"
    and free_pages :: "'s \<Rightarrow> addr list \<Rightarrow> bool"
    and managed :: "'s \<Rightarrow> addr set"
  assumes alloc_page: "free_pages s (p # ps) \<Longrightarrow>
      \<exists>s'. alloc s = Ok p s' \<and> free_pages s' ps \<and> managed s' = managed s \<and>
        mem_read (memory_of s') p 4096 = replicate 4096 5 \<and>
        (\<forall>x. x \<notin> page p \<longrightarrow> memory_of s' x = memory_of s x)"
    and alloc_none: "free_pages s [] \<Longrightarrow> alloc s = Ok 0 s"
    and free_page: "free_pages s ps \<Longrightarrow> p \<in> managed s \<Longrightarrow> p \<notin> set ps \<Longrightarrow>
      \<exists>s'. free p s = Ok () s' \<and> free_pages s' (p # ps) \<and> managed s' = managed s \<and>
        (\<forall>x. x \<notin> page p \<longrightarrow> memory_of s' x = memory_of s x)"
    and free_pages_ok: "free_pages s ps \<Longrightarrow> distinct ps \<and> 0 \<notin> set ps \<and> set ps \<subseteq> managed s"
    and managed_aligned: "p \<in> managed s \<Longrightarrow> page_aligned p"
    and free_pages_frame: "free_pages s ps \<Longrightarrow>
      (\<And>x. x \<in> (\<Union>p \<in> set ps. page p) \<Longrightarrow> m x = memory_of s x) \<Longrightarrow> free_pages (put_memory m s) ps"
    and managed_put: "managed (put_memory m s) = managed s"
begin

definition owned :: "'s \<Rightarrow> addr set \<Rightarrow> bool" where
  "owned s A \<longleftrightarrow> (\<exists>ps. free_pages s ps \<and> set ps \<inter> A = {} \<and> set ps \<union> A = managed s)"

lemma owned_alloc:
  assumes "owned s A"
  shows "\<exists>p s'. alloc s = Ok p s' \<and>
    (if p = 0 then A = managed s \<and> s' = s
     else p \<in> managed s \<and> p \<notin> A \<and> mem_read (memory_of s') p 4096 = replicate 4096 5 \<and>
       (\<forall>x. x \<notin> page p \<longrightarrow> memory_of s' x = memory_of s x) \<and> owned s' (insert p A))"
proof -
  from assms obtain ps where ps: "free_pages s ps" "set ps \<inter> A = {}" "set ps \<union> A = managed s"
    by (auto simp: owned_def)
  show ?thesis
  proof (cases ps)
    case Nil
    with ps show ?thesis by (auto simp: alloc_none)
  next
    case (Cons p qs)
    with ps(1) alloc_page obtain s' where s': "alloc s = Ok p s'" "free_pages s' qs"
      "managed s' = managed s" "mem_read (memory_of s') p 4096 = replicate 4096 5"
      "\<forall>x. x \<notin> page p \<longrightarrow> memory_of s' x = memory_of s x" by blast
    from free_pages_ok [OF ps(1)] Cons have p: "p \<noteq> 0" "p \<in> managed s" "p \<notin> set qs" by auto
    have "owned s' (insert p A)"
      unfolding owned_def using s' ps Cons p by (intro exI [of _ qs]) auto
    with s' p ps Cons show ?thesis by auto
  qed
qed

lemma owned_free:
  assumes "owned s A" "p \<in> A"
  shows "\<exists>s'. free p s = Ok () s' \<and> owned s' (A - {p})"
proof -
  from assms(1) obtain ps where ps: "free_pages s ps" "set ps \<inter> A = {}" "set ps \<union> A = managed s"
    by (auto simp: owned_def)
  with assms(2) free_page [OF ps(1), of p] obtain s' where
    s': "free p s = Ok () s'" "free_pages s' (p # ps)" "managed s' = managed s" by blast
  have "owned s' (A - {p})"
    unfolding owned_def using s' ps assms(2) by (intro exI [of _ "p # ps"]) auto
  with s' show ?thesis by blast
qed

lemma owned_write:
  assumes "owned s A" "\<And>x. x \<notin> (\<Union>p \<in> A. page p) \<Longrightarrow> m x = memory_of s x"
  shows "owned (put_memory m s) A"
proof -
  from assms(1) obtain ps where ps: "free_pages s ps" "set ps \<inter> A = {}" "set ps \<union> A = managed s"
    by (auto simp: owned_def)
  have "m x = memory_of s x" if x: "x \<in> (\<Union>p \<in> set ps. page p)" for x
  proof (rule assms(2))
    show "x \<notin> (\<Union>p \<in> A. page p)"
    proof
      assume "x \<in> (\<Union>p \<in> A. page p)"
      with x obtain p q where "p \<in> set ps" "q \<in> A" "x \<in> page p" "x \<in> page q" by blast
      moreover from this ps have "page_aligned p" "page_aligned q" "p \<noteq> q"
        using managed_aligned by blast+
      ultimately show False using page_disjoint by blast
    qed
  qed
  then have "free_pages (put_memory m s) ps" using ps(1) free_pages_frame by blast
  with ps show ?thesis unfolding owned_def managed_put by blast
qed

end

interpretation kmem: page_allocator kalloc kfree mem "\<lambda>m s. s\<lparr>mem := m\<rparr>"
  "\<lambda>s ps. kmem_inv s ps \<and> L_kmem \<notin> set (held s)" "\<lambda>s. {p. kpage (kend s) p}"
proof unfold_locales
  fix s :: "'a kmem_st_scheme" and p ps
  assume "kmem_inv s (p # ps) \<and> L_kmem \<notin> set (held s)"
  then obtain m f where "kalloc s = Ok p (s\<lparr>mem := m, freelist := f\<rparr>)"
    "kmem_inv (s\<lparr>mem := m, freelist := f\<rparr>) ps" "mem_read m p 4096 = replicate 4096 5"
    "\<forall>x. x \<notin> page p \<longrightarrow> m x = mem s x" "L_kmem \<notin> set (held s)"
    using kalloc_inv by blast
  then show "\<exists>s'. kalloc s = Ok p s' \<and> (kmem_inv s' ps \<and> L_kmem \<notin> set (held s')) \<and>
    {p. kpage (kend s') p} = {p. kpage (kend s) p} \<and>
    mem_read (mem s') p 4096 = replicate 4096 5 \<and> (\<forall>x. x \<notin> page p \<longrightarrow> mem s' x = mem s x)"
    by (intro exI [of _ "s\<lparr>mem := m, freelist := f\<rparr>"]) simp
next
  fix s :: "'a kmem_st_scheme" and p ps
  assume "kmem_inv s ps \<and> L_kmem \<notin> set (held s)" "p \<in> {p. kpage (kend s) p}" "p \<notin> set ps"
  then obtain m f where "kfree p s = Ok () (s\<lparr>mem := m, freelist := f\<rparr>)"
    "kmem_inv (s\<lparr>mem := m, freelist := f\<rparr>) (p # ps)"
    "\<forall>x. x \<notin> page p \<longrightarrow> m x = mem s x" "L_kmem \<notin> set (held s)"
    using kfree_inv by blast
  then show "\<exists>s'. kfree p s = Ok () s' \<and> (kmem_inv s' (p # ps) \<and> L_kmem \<notin> set (held s')) \<and>
    {p. kpage (kend s') p} = {p. kpage (kend s) p} \<and> (\<forall>x. x \<notin> page p \<longrightarrow> mem s' x = mem s x)"
    by (intro exI [of _ "s\<lparr>mem := m, freelist := f\<rparr>"]) simp
next
  fix s :: "'a kmem_st_scheme" and ps m
  assume "kmem_inv s ps \<and> L_kmem \<notin> set (held s)" "\<And>x. x \<in> (\<Union>p \<in> set ps. page p) \<Longrightarrow> m x = mem s x"
  then show "kmem_inv (s\<lparr>mem := m\<rparr>) ps \<and> L_kmem \<notin> set (held (s\<lparr>mem := m\<rparr>))"
    using kmem_inv_frame [of s ps "s\<lparr>mem := m\<rparr>"] by simp
next
  fix s :: "'a kmem_st_scheme" and ps
  assume "kmem_inv s ps \<and> L_kmem \<notin> set (held s)"
  then show "distinct ps \<and> 0 \<notin> set ps \<and> set ps \<subseteq> {p. kpage (kend s) p}"
    using kmem_inv_not_0 [of s ps] by (auto simp: kmem_inv_def)
qed (auto simp: kalloc_empty kpage_def)

section \<open>Properties\<close>

text \<open>
  The life of the allocator: it is initialised, then pages are allocated, freed by their owner,
  and written by their owner.  \<open>kmem_run s A\<close>: state \<open>s\<close> is reached with the pages \<open>A\<close> in use.
\<close>

inductive kmem_run :: "'z kmem_st_scheme \<Rightarrow> addr set \<Rightarrow> bool" where
  boot: "freelist s = 0 \<Longrightarrow> KERNBASE \<le> kend s \<Longrightarrow> kend s \<le> PHYSTOP \<Longrightarrow> L_kmem \<notin> set (held s) \<Longrightarrow>
     kinit s = Ok () s' \<Longrightarrow> kmem_run s' {}"
| alloc: "kmem_run s A \<Longrightarrow> kalloc s = Ok p s' \<Longrightarrow> kmem_run s' (if p = 0 then A else insert p A)"
| free: "kmem_run s A \<Longrightarrow> p \<in> A \<Longrightarrow> kfree p s = Ok () s' \<Longrightarrow> kmem_run s' (A - {p})"
| store: "kmem_run s A \<Longrightarrow> (\<And>x. x \<notin> (\<Union>p \<in> A. page p) \<Longrightarrow> m x = mem s x) \<Longrightarrow>
     kmem_run (s\<lparr>mem := m\<rparr>) A"

lemma kmem_run_owned: "kmem_run s A \<Longrightarrow> kmem.owned s A"
proof (induction rule: kmem_run.induct)
  case (boot s s')
  from kinit_inv [OF boot(1-4)] boot(5) obtain m f ps where
    "kmem_inv s' ps" "set ps = {p. kpage (kend s) p}" "s' = s\<lparr>mem := m, freelist := f\<rparr>"
    by auto
  with boot(4) show ?case unfolding kmem.owned_def by (intro exI [of _ ps]) auto
next
  case (alloc s A p s')
  with kmem.owned_alloc [OF alloc.IH] show ?case by (auto split: if_splits)
next
  case (free s A p s')
  with kmem.owned_free [OF free.IH free.hyps(2)] show ?case by auto
next
  case (store s A m)
  then show ?case by (intro kmem.owned_write)
qed

text \<open>
  Property C2: the physical page allocator never hands a page to two owners.  After any history
  of initialisation, allocations, frees by the owner and writes by the owner, \<^verbatim>\<open>kalloc\<close>
  returns either 0, and then every managed page is in use, or a page of the managed range that
  nobody owns, filled with the junk byte 5, leaving every other page untouched; and every owned
  page can be freed without a panic.
\<close>

theorem kalloc_exclusive:
  assumes "kmem_run s A"
  shows "(\<exists>p s'. kalloc s = Ok p s' \<and>
      (if p = 0 then A = {q. kpage (kend s) q} \<and> s' = s
       else kpage (kend s) p \<and> p \<notin> A \<and> mem_read (mem s') p 4096 = replicate 4096 5 \<and>
         (\<forall>x. x \<notin> page p \<longrightarrow> mem s' x = mem s x))) \<and>
    (\<forall>p \<in> A. \<exists>s'. kfree p s = Ok () s')"
proof -
  from assms have o: "kmem.owned s A" by (rule kmem_run_owned)
  from kmem.owned_alloc [OF o] kmem.owned_free [OF o] show ?thesis by fastforce
qed

theorem kalloc_exclusive_witness:
  "\<exists>(s :: kmem_st). kmem_run s {} \<and> (\<exists>p s'. kalloc s = Ok p s' \<and> kpage (kend s) p)"
proof -
  let ?s = "\<lparr>held = [], klog = [], mem = \<lambda>_. 0, freelist = 0, kend = 0x87fff000\<rparr> :: kmem_st"
  have pre: "freelist ?s = 0" "KERNBASE \<le> kend ?s" "kend ?s \<le> PHYSTOP" "L_kmem \<notin> set (held ?s)"
    by (simp_all add: PHYSTOP_def)
  from kinit_inv [OF pre] obtain m f where
    s1: "kinit ?s = Ok () (?s\<lparr>mem := m, freelist := f\<rparr>)" by blast
  let ?s1 = "?s\<lparr>mem := m, freelist := f\<rparr>"
  have run: "kmem_run ?s1 {}" using pre s1 by (rule kmem_run.boot)
  have "kpage (kend ?s1) 0x87fff000" by (simp add: kpage_def page_aligned_def PHYSTOP_def)
  then have "{q. kpage (kend ?s1) q} \<noteq> {}" by blast
  with kalloc_exclusive [OF run] have "\<exists>p s'. kalloc ?s1 = Ok p s' \<and> kpage (kend ?s1) p"
    by (metis (no_types, lifting))
  with run show ?thesis by blast
qed

end
