(* ===== verification/Proctab.thy ===== *)
theory Proctab
  imports Kalloc
begin

text \<open>
  The process table and the scheduling primitives: \<^verbatim>\<open>kernel/proc.h\<close> and the part of
  \<^verbatim>\<open>kernel/proc.c\<close> that needs nothing but the table (process identifiers, sleep and
  wakeup, kill, the scheduler).  A process is named by its index in \<^verbatim>\<open>proc[NPROC]\<close>; a
  null pointer to a process is \<open>None\<close>.  Pointers to open files and inodes are indices into
  their tables.  The registers that a process saved in its trapframe page are kept with the
  process (\<open>p_tf\<close>), beside the address of the page (\<open>p_trapframe\<close>).
\<close>

section \<open>Structures\<close>

record ctx =
  ctx_ra :: u64
  ctx_sp :: u64
  ctx_s :: "u64 list"

record trapframe =
  tf_kernel_satp :: u64
  tf_kernel_sp :: u64
  tf_kernel_trap :: u64
  tf_epc :: u64
  tf_kernel_hartid :: u64
  tf_ra :: u64
  tf_sp :: u64
  tf_gp :: u64
  tf_tp :: u64
  tf_t :: "u64 list"
  tf_s :: "u64 list"
  tf_a :: "u64 list"

datatype procstate = UNUSED | USED | SLEEPING | RUNNABLE | RUNNING | ZOMBIE

record proc =
  p_state :: procstate
  p_chan :: chan
  p_killed :: bool
  p_xstate :: int
  p_pid :: int
  p_parent :: "nat option"
  p_kstack :: addr
  p_sz :: u64
  p_pagetable :: addr
  p_trapframe :: addr
  p_tf :: trapframe
  p_context :: ctx
  p_ofile :: "nat option list"
  p_cwd :: "nat option"
  p_name :: "byte list"

definition NPROC :: nat where "NPROC = 64"
definition NOFILE :: nat where "NOFILE = 16"

record proc_st = kmem_st +
  procs :: "proc list"
  curproc :: "nat option"
  initproc :: "nat option"
  nextpid :: int
  ticks :: u32

definition MAXVA :: addr where "MAXVA = push_bit (9 + 9 + 9 + 12 - 1) 1"
definition TRAMPOLINE :: addr where "TRAMPOLINE = MAXVA - PGSIZE"
definition TRAPFRAME :: addr where "TRAPFRAME = TRAMPOLINE - PGSIZE"
definition KSTACK :: "nat \<Rightarrow> addr" where "KSTACK p = TRAMPOLINE - (of_nat p + 1) * 2 * PGSIZE"

text \<open>Assignments to the fields of one process, as in \<^verbatim>\<open>p->state = v\<close>.\<close>

definition pset :: "nat \<Rightarrow> (proc \<Rightarrow> proc) \<Rightarrow> ('z proc_st_scheme, unit) kernel" where
  "pset i f = upd (\<lambda>s. s\<lparr>procs := (procs s)[i := f (procs s ! i)]\<rparr>)"

definition pget :: "nat \<Rightarrow> (proc \<Rightarrow> 'a) \<Rightarrow> ('z proc_st_scheme, 'a) kernel" where
  "pget i f = get (\<lambda>s. f (procs s ! i))"

text \<open>\<^verbatim>\<open>myproc()\<close> where its result is dereferenced: no process on the processor is a fault.\<close>

definition myproc :: "('z proc_st_scheme, nat) kernel" where
  "myproc = bnd (get curproc) (\<lambda>p. case p of None \<Rightarrow> panic ''null myproc'' | Some i \<Rightarrow> ret i)"

section \<open>Functions\<close>

definition procinit :: "('z proc_st_scheme, unit) kernel" where
  "procinit =
     foreach [0..<NPROC] (\<lambda>i.
       sq (pset i (\<lambda>p. p\<lparr>p_state := UNUSED\<rparr>))
          (pset i (\<lambda>p. p\<lparr>p_kstack := KSTACK i\<rparr>)))"

definition allocpid :: "('z proc_st_scheme, int) kernel" where
  "allocpid =
     sq (lock_acquire L_pid) (
     bnd (get nextpid) (\<lambda>pid.
     sq (upd (\<lambda>s. s\<lparr>nextpid := nextpid s + 1\<rparr>)) (
     sq (lock_release L_pid) (
     ret pid))))"

text \<open>
  \<^verbatim>\<open>sched()\<close> ends in \<^verbatim>\<open>swtch\<close> to the scheduler: the thread stops there, in the state
  the outcome carries.  Interrupts are off whenever a spin lock is held, which the first check
  demands, so the last check of the source cannot fail after it.
\<close>

definition sched :: "('z proc_st_scheme, unit) kernel" where
  "sched =
     bnd myproc (\<lambda>p.
     bnd (get held) (\<lambda>h.
     sq (unless_panic (L_proc p \<in> set h) ''sched p->lock'') (
     sq (unless_panic (length h = 1) ''sched locks'') (
     bnd (pget p p_state) (\<lambda>st.
     sq (unless_panic (st \<noteq> RUNNING) ''sched RUNNING'') (
     bnd (pget p p_chan) (\<lambda>c. \<lambda>s. Sleep c s)))))))"

text \<open>
  The functions by which threads hand the processor to one another are written as lists of the
  actions they take one after the other.  Threads on different processors interleave between
  these actions, which theory \<open>Handoff\<close> is about; \<open>acts\<close> runs a list of them without
  interruption.  \<open>Wake i c\<close> is the body of the loop of \<^verbatim>\<open>wakeup()\<close>, between the acquire and the
  release, and \<open>Kill i\<close> that of \<^verbatim>\<open>kkill()\<close>: each reads and writes process \<open>i\<close> under its lock.
\<close>

datatype kact =
    Acquire lockid
  | Release lockid
  | Set_chan nat chan
  | Set_state nat procstate
  | Sched
  | Wake nat chan
  | Kill nat

primrec act :: "kact \<Rightarrow> ('z proc_st_scheme, unit) kernel" where
  "act (Acquire l) = lock_acquire l"
| "act (Release l) = lock_release l"
| "act (Set_chan i c) = pset i (\<lambda>p. p\<lparr>p_chan := c\<rparr>)"
| "act (Set_state i st) = pset i (\<lambda>p. p\<lparr>p_state := st\<rparr>)"
| "act Sched = sched"
| "act (Wake i c) =
     bnd (pget i (\<lambda>p. p_state p = SLEEPING \<and> p_chan p = c)) (\<lambda>b.
     whenk b (pset i (\<lambda>p. p\<lparr>p_state := RUNNABLE\<rparr>)))"
| "act (Kill i) =
     sq (pset i (\<lambda>p. p\<lparr>p_killed := True\<rparr>)) (
     bnd (pget i p_state) (\<lambda>st.
     whenk (st = SLEEPING) (pset i (\<lambda>p. p\<lparr>p_state := RUNNABLE\<rparr>))))"

primrec acts :: "kact list \<Rightarrow> ('z proc_st_scheme, unit) kernel" where
  "acts [] = ret ()"
| "acts (a # as) = sq (act a) (acts as)"

definition yield_acts :: "nat \<Rightarrow> kact list" where
  "yield_acts p = [Acquire (L_proc p), Set_state p RUNNABLE, Sched, Release (L_proc p)]"

definition yield :: "('z proc_st_scheme, unit) kernel" where
  "yield = bnd myproc (\<lambda>p. acts (yield_acts p))"

text \<open>\<^verbatim>\<open>sleep()\<close> up to the switch, and what is left of it when the scheduler switches back.\<close>

definition sleep_enter :: "chan \<Rightarrow> lockid \<Rightarrow> nat \<Rightarrow> kact list" where
  "sleep_enter c lk p =
     [Acquire (L_proc p), Release lk, Set_chan p c, Set_state p SLEEPING, Sched]"

definition sleep_leave :: "lockid \<Rightarrow> nat \<Rightarrow> kact list" where
  "sleep_leave lk p = [Set_chan p Chan_none, Release (L_proc p), Acquire lk]"

definition sleep_acts :: "chan \<Rightarrow> lockid \<Rightarrow> nat \<Rightarrow> kact list" where
  "sleep_acts c lk p = sleep_enter c lk p @ sleep_leave lk p"

definition sleep :: "chan \<Rightarrow> lockid \<Rightarrow> ('z proc_st_scheme, unit) kernel" where
  "sleep c lk = bnd myproc (\<lambda>p. acts (sleep_acts c lk p))"

definition sleep_resume :: "lockid \<Rightarrow> ('z proc_st_scheme, unit) kernel" where
  "sleep_resume lk = bnd myproc (\<lambda>p. acts (sleep_leave lk p))"

definition wakeup1_acts :: "chan \<Rightarrow> nat option \<Rightarrow> nat \<Rightarrow> kact list" where
  "wakeup1_acts c me i =
     (if me \<noteq> Some i then [Acquire (L_proc i), Wake i c, Release (L_proc i)] else [])"

definition wakeup1 :: "chan \<Rightarrow> nat \<Rightarrow> ('z proc_st_scheme, unit) kernel" where
  "wakeup1 c i = bnd (get curproc) (\<lambda>me. acts (wakeup1_acts c me i))"

definition wakeup :: "chan \<Rightarrow> ('z proc_st_scheme, unit) kernel" where
  "wakeup c = foreach [0..<NPROC] (wakeup1 c)"

lemmas handoff_acts = yield_acts_def sleep_acts_def sleep_enter_def sleep_leave_def wakeup1_acts_def

primrec kkill_from :: "int \<Rightarrow> nat list \<Rightarrow> ('z proc_st_scheme, int) kernel" where
  "kkill_from pid [] = ret (- 1)"
| "kkill_from pid (i # is) =
     sq (lock_acquire (L_proc i)) (
     bnd (pget i p_pid) (\<lambda>q.
     if q = pid
     then sq (act (Kill i)) (
          sq (lock_release (L_proc i)) (
          ret 0))
     else sq (lock_release (L_proc i)) (kkill_from pid is)))"

definition kkill :: "int \<Rightarrow> ('z proc_st_scheme, int) kernel" where
  "kkill pid = kkill_from pid [0..<NPROC]"

definition setkilled :: "nat \<Rightarrow> ('z proc_st_scheme, unit) kernel" where
  "setkilled p =
     sq (lock_acquire (L_proc p)) (
     sq (pset p (\<lambda>q. q\<lparr>p_killed := True\<rparr>)) (
     lock_release (L_proc p)))"

definition killed :: "nat \<Rightarrow> ('z proc_st_scheme, bool) kernel" where
  "killed p =
     sq (lock_acquire (L_proc p)) (
     bnd (pget p p_killed) (\<lambda>k.
     sq (lock_release (L_proc p)) (
     ret k)))"

text \<open>
  The scheduler of one processor among several.  \<open>run i\<close> stands for what the machine does between
  the switch to process \<open>i\<close> and the switch back.  \<open>env\<close> stands for what happens to the shared state
  while the scheduler itself does nothing to it: interrupts it lets in at the head of its loop, the
  wait for the next interrupt when it found nothing, and the other processors' work up to the moment
  when the lock of entry \<open>i\<close> becomes this processor's.  The loop never ends, so \<open>scheduler\<close> takes the
  number of its turns.
\<close>

datatype place = Interrupts | Wfi | Lock nat

primrec scheduler_pass ::
  "(place \<Rightarrow> ('z proc_st_scheme, unit) kernel) \<Rightarrow> (nat \<Rightarrow> ('z proc_st_scheme, unit) kernel) \<Rightarrow>
   nat list \<Rightarrow> bool \<Rightarrow> ('z proc_st_scheme, bool) kernel"
where
  "scheduler_pass env run [] found = ret found"
| "scheduler_pass env run (i # is) found =
     sq (env (Lock i)) (
     sq (lock_acquire (L_proc i)) (
     bnd (pget i p_state) (\<lambda>st.
     if st = RUNNABLE
     then sq (pset i (\<lambda>p. p\<lparr>p_state := RUNNING\<rparr>)) (
          sq (upd (\<lambda>s. s\<lparr>curproc := Some i\<rparr>)) (
          sq (run i) (
          sq (upd (\<lambda>s. s\<lparr>curproc := None\<rparr>)) (
          sq (lock_release (L_proc i)) (
          scheduler_pass env run is True)))))
     else sq (lock_release (L_proc i)) (scheduler_pass env run is found))))"

definition scheduler_turn ::
  "(place \<Rightarrow> ('z proc_st_scheme, unit) kernel) \<Rightarrow> (nat \<Rightarrow> ('z proc_st_scheme, unit) kernel) \<Rightarrow>
   ('z proc_st_scheme, unit) kernel"
where
  "scheduler_turn env run =
     sq (env Interrupts) (
     bnd (scheduler_pass env run [0..<NPROC] False) (\<lambda>found.
     whenk (\<not> found) (env Wfi)))"

primrec scheduler_turns ::
  "(place \<Rightarrow> ('z proc_st_scheme, unit) kernel) \<Rightarrow> (nat \<Rightarrow> ('z proc_st_scheme, unit) kernel) \<Rightarrow>
   nat \<Rightarrow> ('z proc_st_scheme, unit) kernel"
where
  "scheduler_turns env run 0 = ret ()"
| "scheduler_turns env run (Suc n) = sq (scheduler_turns env run n) (scheduler_turn env run)"

definition scheduler ::
  "(place \<Rightarrow> ('z proc_st_scheme, unit) kernel) \<Rightarrow> (nat \<Rightarrow> ('z proc_st_scheme, unit) kernel) \<Rightarrow>
   nat \<Rightarrow> ('z proc_st_scheme, unit) kernel"
where
  "scheduler env run n = sq (upd (\<lambda>s. s\<lparr>curproc := None\<rparr>)) (scheduler_turns env run n)"

section \<open>Running them\<close>

lemma pset_run [kernel_run, simp]:
  "pset i f s = Ok () (s\<lparr>procs := (procs s)[i := f (procs s ! i)]\<rparr>)"
  by (simp add: pset_def)

lemma pget_run [kernel_run, simp]: "pget i f s = Ok (f (procs s ! i)) s"
  by (simp add: pget_def)

lemma myproc_run [kernel_run, simp]:
  "myproc s = (case curproc s of None \<Rightarrow> Panic ''null myproc'' | Some i \<Rightarrow> Ok i s)"
  by (simp add: myproc_def bnd_run split: option.splits)

lemma killed_run [kernel_run, simp]:
  "killed p s = (if L_proc p \<in> set (held s) then Panic ''acquire'' else Ok (p_killed (procs s ! p)) s)"
  by (simp add: killed_def bnd_run sq_run)

lemma setkilled_run [kernel_run, simp]:
  "setkilled p s = (if L_proc p \<in> set (held s) then Panic ''acquire''
     else Ok () (s\<lparr>procs := (procs s)[p := (procs s ! p)\<lparr>p_killed := True\<rparr>]\<rparr>))"
  by (simp add: setkilled_def bnd_run sq_run)

lemma allocpid_run [kernel_run, simp]:
  "allocpid s = (if L_pid \<in> set (held s) then Panic ''acquire''
     else Ok (nextpid s) (s\<lparr>nextpid := nextpid s + 1\<rparr>))"
  by (simp add: allocpid_def bnd_run sq_run)

text \<open>
  \<open>wakeup\<close> in closed form.  A processor that holds the lock of another process would panic on
  taking it again; holding no other process's lock, it returns.
\<close>

definition awake :: "chan \<Rightarrow> proc \<Rightarrow> proc" where
  "awake c p = (if p_state p = SLEEPING \<and> p_chan p = c then p\<lparr>p_state := RUNNABLE\<rparr> else p)"

definition awake_procs :: "chan \<Rightarrow> nat option \<Rightarrow> proc list \<Rightarrow> proc list" where
  "awake_procs c me ps = map (\<lambda>(i, p). if me = Some i then p else awake c p) (enumerate 0 ps)"

lemma length_awake_procs [simp]: "length (awake_procs c me ps) = length ps"
  by (simp add: awake_procs_def)

lemma nth_awake_procs [simp]: "i < length ps \<Longrightarrow>
    awake_procs c me ps ! i = (if me = Some i then ps ! i else awake c (ps ! i))"
  by (simp add: awake_procs_def nth_enumerate_eq)

lemma wakeup1_run:
  "wakeup1 c i s = (if curproc s = Some i then Ok () s
     else if L_proc i \<in> set (held s) then Panic ''acquire''
     else Ok () (s\<lparr>procs := (procs s)[i := awake c (procs s ! i)]\<rparr>))"
  by (auto simp: wakeup1_def handoff_acts bnd_run sq_run awake_def)

lemma wakeup_from_run:
  assumes "n \<le> length (procs s)" "\<forall>i<n. L_proc i \<in> set (held s) \<longrightarrow> curproc s = Some i"
  shows "foreach [0..<n] (wakeup1 c) s =
     Ok () (s\<lparr>procs := take n (awake_procs c (curproc s) (procs s)) @ drop n (procs s)\<rparr>)"
  using assms
proof (induction n)
  case 0
  then show ?case by simp
next
  case (Suc n)
  let ?aw = "awake_procs c (curproc s) (procs s)"
  have n: "n < length (procs s)" using Suc.prems by simp
  then have split: "take (Suc n) ?aw = take n ?aw @ [?aw ! n]"
    "drop n (procs s) = procs s ! n # drop (Suc n) (procs s)"
    by (simp_all add: take_Suc_conv_app_nth Cons_nth_drop_Suc)
  have upd: "(take n ?aw @ drop n (procs s))[n := x] = take n ?aw @ x # drop (Suc n) (procs s)"
    "(take n ?aw @ drop n (procs s)) ! n = procs s ! n" for x
    using n by (simp_all add: split list_update_append nth_append)
  have IH: "foreach [0..<n] (wakeup1 c) s =
     Ok () (s\<lparr>procs := take n ?aw @ drop n (procs s)\<rparr>)" using Suc by simp
  have "foreach [0..<Suc n] (wakeup1 c) s =
      wakeup1 c n (s\<lparr>procs := take n ?aw @ drop n (procs s)\<rparr>)"
    by (simp only: foreach_upt_Suc IH res.case)
  also have "\<dots> = Ok () (s\<lparr>procs := take (Suc n) ?aw @ drop (Suc n) (procs s)\<rparr>)"
    using n Suc.prems
    by (cases "curproc s = Some n") (auto simp: wakeup1_run upd take_Suc_conv_app_nth Cons_nth_drop_Suc)
  finally show ?case .
qed

lemma wakeup_run [kernel_run]:
  assumes "length (procs s) = NPROC" "\<forall>i<NPROC. L_proc i \<in> set (held s) \<longrightarrow> curproc s = Some i"
  shows "wakeup c s = Ok () (s\<lparr>procs := awake_procs c (curproc s) (procs s)\<rparr>)"
  unfolding wakeup_def using wakeup_from_run [of NPROC s c] assms by simp

lemma sleep_run:
  assumes "curproc s = Some p" "held s = [lk]" "lk \<noteq> L_proc p" "p < length (procs s)"
  shows "sleep c lk s = Sleep c
     (s\<lparr>held := [L_proc p],
        procs := (procs s)[p := (procs s ! p)\<lparr>p_chan := c, p_state := SLEEPING\<rparr>]\<rparr>)"
  using assms by (simp add: sleep_def handoff_acts sched_def bnd_run sq_run)

lemma sleep_resume_run:
  assumes "curproc s = Some p" "held s = [L_proc p]" "lk \<noteq> L_proc p"
  shows "sleep_resume lk s =
     Ok () (s\<lparr>held := [lk], procs := (procs s)[p := (procs s ! p)\<lparr>p_chan := Chan_none\<rparr>]\<rparr>)"
  using assms by (simp add: sleep_resume_def handoff_acts bnd_run sq_run)

lemma yield_run:
  assumes "curproc s = Some p" "held s = []" "p < length (procs s)"
  shows "yield s = Sleep (p_chan (procs s ! p))
     (s\<lparr>held := [L_proc p], procs := (procs s)[p := (procs s ! p)\<lparr>p_state := RUNNABLE\<rparr>]\<rparr>)"
  using assms by (simp add: yield_def handoff_acts sched_def bnd_run sq_run)

text \<open>\<open>sched\<close> never returns to its caller, and switches only with the process lock alone.\<close>

lemma sched_not_Ok: "sched s \<noteq> Ok a t"
  by (auto simp: sched_def bnd_run sq_run split: option.splits)

lemma sched_Sleep_iff:
  "sched s = Sleep c t \<longleftrightarrow>
     (\<exists>p. curproc s = Some p \<and> held s = [L_proc p] \<and> p_state (procs s ! p) \<noteq> RUNNING \<and>
        c = p_chan (procs s ! p) \<and> t = s)"
  by (auto simp: sched_def bnd_run sq_run length_Suc_conv split: option.splits if_splits)

section \<open>Properties\<close>

text \<open>
  Property C4: \<open>wakeup c\<close> terminates without a panic whenever the processor holds the lock of no
  other process, and its effect is exact: every process other than the caller that sleeps on
  \<open>c\<close> becomes runnable, and nothing else in the kernel's state changes.
\<close>

theorem wakeup_exact:
  assumes "length (procs s) = NPROC"
    and "\<forall>i<NPROC. L_proc i \<in> set (held s) \<longrightarrow> curproc s = Some i"
  shows "\<exists>ps. wakeup c s = Ok () (s\<lparr>procs := ps\<rparr>) \<and> length ps = NPROC \<and>
     (\<forall>i<NPROC. ps ! i =
        (if curproc s \<noteq> Some i \<and> p_state (procs s ! i) = SLEEPING \<and> p_chan (procs s ! i) = c
         then (procs s ! i)\<lparr>p_state := RUNNABLE\<rparr> else procs s ! i))"
  using wakeup_run [OF assms] assms(1)
  by (intro exI [of _ "awake_procs c (curproc s) (procs s)"]) (simp add: awake_def)

text \<open>A process table for the witnesses: process 1 runs, process 2 sleeps on the disk queue.\<close>

definition proc0 :: proc where
  "proc0 = \<lparr>p_state = UNUSED, p_chan = Chan_none, p_killed = False, p_xstate = 0, p_pid = 0,
     p_parent = None, p_kstack = 0, p_sz = 0, p_pagetable = 0, p_trapframe = 0,
     p_tf = \<lparr>tf_kernel_satp = 0, tf_kernel_sp = 0, tf_kernel_trap = 0, tf_epc = 0,
       tf_kernel_hartid = 0, tf_ra = 0, tf_sp = 0, tf_gp = 0, tf_tp = 0,
       tf_t = replicate 7 0, tf_s = replicate 12 0, tf_a = replicate 8 0\<rparr>,
     p_context = \<lparr>ctx_ra = 0, ctx_sp = 0, ctx_s = replicate 12 0\<rparr>,
     p_ofile = replicate NOFILE None, p_cwd = None, p_name = replicate 16 0\<rparr>"

definition demo_procs :: "proc list" where
  "demo_procs = (replicate NPROC proc0)
     [1 := proc0\<lparr>p_state := RUNNING, p_pid := 1\<rparr>,
      2 := proc0\<lparr>p_state := SLEEPING, p_chan := Chan_disk_free, p_pid := 2\<rparr>]"

definition demo_st :: proc_st where
  "demo_st = \<lparr>held = [], klog = [], mem = (\<lambda>_. 0), freelist = 0, kend = 0, procs = demo_procs,
     curproc = Some 1, initproc = Some 1, nextpid = 3, ticks = 0\<rparr>"

lemma demo_st_simps [simp]:
  "held demo_st = []" "curproc demo_st = Some 1" "length (procs demo_st) = NPROC"
  "p_state (procs demo_st ! 2) = SLEEPING" "p_chan (procs demo_st ! 2) = Chan_disk_free"
  "p_pid (procs demo_st ! 2) = 2" "p_state (procs demo_st ! Suc 0) = RUNNING"
  by (simp_all add: demo_st_def demo_procs_def NPROC_def proc0_def)

theorem wakeup_exact_witness:
  "\<exists>ps. wakeup Chan_disk_free demo_st = Ok () (demo_st\<lparr>procs := ps\<rparr>) \<and>
     p_state (ps ! 2) = RUNNABLE \<and> ps ! 1 = procs demo_st ! 1"
  using wakeup_exact [of demo_st Chan_disk_free] by (auto simp: NPROC_def)

lemma kkill_from_run:
  assumes "\<forall>i\<in>set is. L_proc i \<notin> set (held s)"
  shows "kkill_from pid is s =
     (case find (\<lambda>i. p_pid (procs s ! i) = pid) is of
        None \<Rightarrow> Ok (- 1) s
      | Some i \<Rightarrow> Ok 0 (s\<lparr>procs := (procs s)[i := (procs s ! i)
          \<lparr>p_killed := True,
           p_state := if p_state (procs s ! i) = SLEEPING then RUNNABLE
                      else p_state (procs s ! i)\<rparr>]\<rparr>))"
  using assms
proof (induction "is")
  case Nil
  then show ?case by simp
next
  case (Cons i "is")
  then show ?case
    by (cases "i < length (procs s)") (auto simp: bnd_run sq_run list_update_beyond)
qed

text \<open>
  Property C5: \<open>kkill pid\<close>, called with no process lock held, returns 0 exactly when some process
  of the table has that pid; then the first such process, and only that one, is marked killed
  and, if it was asleep, made runnable whatever it waits for.  Otherwise nothing changes and
  the result is \<open>-1\<close>.
\<close>

theorem kkill_correct:
  assumes "\<forall>i<NPROC. L_proc i \<notin> set (held s)" and "length (procs s) = NPROC"
  shows "(\<forall>i<NPROC. p_pid (procs s ! i) \<noteq> pid) \<and> kkill pid s = Ok (- 1) s \<or>
     (\<exists>i<NPROC. p_pid (procs s ! i) = pid \<and> (\<forall>j<i. p_pid (procs s ! j) \<noteq> pid) \<and>
        kkill pid s = Ok 0 (s\<lparr>procs := (procs s)[i := (procs s ! i)
          \<lparr>p_killed := True,
           p_state := if p_state (procs s ! i) = SLEEPING then RUNNABLE
                      else p_state (procs s ! i)\<rparr>]\<rparr>))"
proof (cases "find (\<lambda>i. p_pid (procs s ! i) = pid) [0..<NPROC]")
  case None
  then have "kkill pid s = Ok (- 1) s" "\<forall>i<NPROC. p_pid (procs s ! i) \<noteq> pid"
    using assms by (simp_all add: kkill_def kkill_from_run, simp add: find_None_iff)
  then show ?thesis by blast
next
  case (Some i)
  then have "i < NPROC" "p_pid (procs s ! i) = pid" "\<forall>j<i. p_pid (procs s ! j) \<noteq> pid"
    by (auto simp: find_Some_iff)
  moreover from Some have "kkill pid s = Ok 0 (s\<lparr>procs := (procs s)[i := (procs s ! i)
      \<lparr>p_killed := True,
       p_state := if p_state (procs s ! i) = SLEEPING then RUNNABLE
                  else p_state (procs s ! i)\<rparr>]\<rparr>)"
    using assms by (simp add: kkill_def kkill_from_run)
  ultimately show ?thesis by blast
qed

theorem kkill_correct_witness:
  "\<exists>i q. kkill 2 demo_st = Ok 0 (demo_st\<lparr>procs := (procs demo_st)[i := q]\<rparr>) \<and> p_killed q"
proof -
  have "\<not> (\<forall>i<NPROC. p_pid (procs demo_st ! i) \<noteq> 2)"
    by (auto simp: NPROC_def intro!: exI [of _ 2])
  then obtain i where "kkill 2 demo_st = Ok 0 (demo_st\<lparr>procs := (procs demo_st)[i :=
      (procs demo_st ! i)\<lparr>p_killed := True,
        p_state := if p_state (procs demo_st ! i) = SLEEPING then RUNNABLE
                   else p_state (procs demo_st ! i)\<rparr>]\<rparr>)"
    using kkill_correct [of demo_st 2] by auto
  then show ?thesis by (intro exI conjI) auto
qed

end
