(* ===== verification/VM.thy ===== *)
theory VM
  imports Proctab
begin

text \<open>
  \<^verbatim>\<open>kernel/vm.c\<close>: Sv39 page tables, kept in physical memory, and the transfer of bytes
  between the kernel and a user address space.  A page table is the address of its root page;
  a null page-table entry pointer is the address 0, and dereferencing it is a kernel fault.
  Bytes that the kernel copies out of or into its own buffers are byte lists: \<open>copyout\<close> takes
  the source bytes, \<open>copyin\<close> and \<open>copyinstr\<close> return the bytes stored at the destination
  beside the result.
\<close>

section \<open>Page-table entries\<close>

definition PTE_V :: u64 where "PTE_V = 1"
definition PTE_R :: u64 where "PTE_R = 2"
definition PTE_W :: u64 where "PTE_W = 4"
definition PTE_X :: u64 where "PTE_X = 8"
definition PTE_U :: u64 where "PTE_U = 16"
definition PA2PTE :: "addr \<Rightarrow> u64" where "PA2PTE pa = push_bit 10 (drop_bit 12 pa)"
definition PTE2PA :: "u64 \<Rightarrow> addr" where "PTE2PA pte = push_bit 12 (drop_bit 10 pte)"
definition PTE_FLAGS :: "u64 \<Rightarrow> u64" where "PTE_FLAGS pte = pte AND 0x3FF"
definition PX :: "nat \<Rightarrow> addr \<Rightarrow> u64" where "PX level va = drop_bit (12 + 9 * level) va AND 0x1FF"

record vm_st = proc_st +
  kernel_pagetable :: addr
  satp :: u64
  etext :: addr
  trampoline :: addr

definition rd64 :: "addr \<Rightarrow> ('z kmem_st_scheme, u64) kernel" where
  "rd64 a = sq (unless_panic (a \<noteq> 0) ''kerneltrap'') (get (\<lambda>s. load64 (mem s) a))"

definition wr64 :: "addr \<Rightarrow> u64 \<Rightarrow> ('z kmem_st_scheme, unit) kernel" where
  "wr64 a v = sq (unless_panic (a \<noteq> 0) ''kerneltrap'') (upd (\<lambda>s. s\<lparr>mem := store64 (mem s) a v\<rparr>))"

definition zero_page :: "addr \<Rightarrow> ('z kmem_st_scheme, unit) kernel" where
  "zero_page pa = upd (\<lambda>s. s\<lparr>mem := memset (mem s) pa 0 4096\<rparr>)"

section \<open>Walking and mapping\<close>

text \<open>The loop of \<^verbatim>\<open>walk\<close>, from the level it has reached.\<close>

primrec walk_from :: "nat \<Rightarrow> addr \<Rightarrow> addr \<Rightarrow> bool \<Rightarrow> ('z kmem_st_scheme, addr) kernel" where
  "walk_from 0 pagetable va alloc = ret (pagetable + 8 * PX 0 va)"
| "walk_from (Suc level) pagetable va alloc =
     (let p = pagetable + 8 * PX (Suc level) va in
      bnd (rd64 p) (\<lambda>pte.
      if pte AND PTE_V \<noteq> 0 then walk_from level (PTE2PA pte) va alloc
      else if \<not> alloc then ret 0
      else bnd kalloc (\<lambda>new.
           if new = 0 then ret 0
           else sq (zero_page new) (
                sq (wr64 p (PA2PTE new OR PTE_V)) (
                walk_from level new va alloc)))))"

definition walk :: "addr \<Rightarrow> addr \<Rightarrow> bool \<Rightarrow> ('z kmem_st_scheme, addr) kernel" where
  "walk pagetable va alloc =
     sq (unless_panic (\<not> va \<ge> MAXVA) ''walk'') (walk_from 2 pagetable va alloc)"

definition walkaddr :: "addr \<Rightarrow> addr \<Rightarrow> ('z kmem_st_scheme, addr) kernel" where
  "walkaddr pagetable va =
     (if va \<ge> MAXVA then ret 0
      else bnd (walk pagetable va False) (\<lambda>p.
           if p = 0 then ret 0
           else bnd (rd64 p) (\<lambda>pte.
                if pte AND PTE_V = 0 then ret 0
                else if pte AND PTE_U = 0 then ret 0
                else ret (PTE2PA pte))))"

text \<open>The loop of \<^verbatim>\<open>mappages\<close>; \<open>n\<close> counts the pages from \<open>a\<close> to \<open>last\<close>.\<close>

primrec mappages_from ::
  "nat \<Rightarrow> addr \<Rightarrow> addr \<Rightarrow> addr \<Rightarrow> u64 \<Rightarrow> ('z kmem_st_scheme, int) kernel" where
  "mappages_from 0 pagetable a pa perm = ret 0"
| "mappages_from (Suc n) pagetable a pa perm =
     bnd (walk pagetable a True) (\<lambda>p.
     if p = 0 then ret (- 1)
     else bnd (rd64 p) (\<lambda>pte.
          sq (unless_panic (pte AND PTE_V = 0) ''mappages: remap'') (
          sq (wr64 p (PA2PTE pa OR perm OR PTE_V)) (
          mappages_from n pagetable (a + PGSIZE) (pa + PGSIZE) perm))))"

definition mappages ::
  "addr \<Rightarrow> addr \<Rightarrow> u64 \<Rightarrow> addr \<Rightarrow> u64 \<Rightarrow> ('z kmem_st_scheme, int) kernel" where
  "mappages pagetable va sz pa perm =
     sq (unless_panic (va mod PGSIZE = 0) ''mappages: va not aligned'') (
     sq (unless_panic (sz mod PGSIZE = 0) ''mappages: size not aligned'') (
     sq (unless_panic (sz \<noteq> 0) ''mappages: size'') (
     mappages_from (unat sz div 4096) pagetable va pa perm)))"

section \<open>The kernel's page table\<close>

definition kvmmap :: "addr \<Rightarrow> addr \<Rightarrow> addr \<Rightarrow> u64 \<Rightarrow> u64 \<Rightarrow> ('z kmem_st_scheme, unit) kernel" where
  "kvmmap kpgtbl va pa sz perm =
     bnd (mappages kpgtbl va sz pa perm) (\<lambda>r. unless_panic (r = 0) ''kvmmap'')"

definition proc_mapstacks :: "addr \<Rightarrow> ('z kmem_st_scheme, unit) kernel" where
  "proc_mapstacks kpgtbl =
     foreach [0..<NPROC] (\<lambda>i.
       bnd kalloc (\<lambda>pa.
       sq (unless_panic (pa \<noteq> 0) ''kalloc'')
          (kvmmap kpgtbl (KSTACK i) pa PGSIZE (PTE_R OR PTE_W))))"

definition UART0 :: addr where "UART0 = 0x10000000"
definition VIRTIO0 :: addr where "VIRTIO0 = 0x10001000"
definition PLIC :: addr where "PLIC = 0x0c000000"

definition kvmmake :: "('z vm_st_scheme, addr) kernel" where
  "kvmmake =
     bnd kalloc (\<lambda>kpgtbl.
     sq (zero_page kpgtbl) (
     sq (kvmmap kpgtbl UART0 UART0 PGSIZE (PTE_R OR PTE_W)) (
     sq (kvmmap kpgtbl VIRTIO0 VIRTIO0 PGSIZE (PTE_R OR PTE_W)) (
     sq (kvmmap kpgtbl PLIC PLIC 0x4000000 (PTE_R OR PTE_W)) (
     bnd (get etext) (\<lambda>et.
     bnd (get trampoline) (\<lambda>tr.
     sq (kvmmap kpgtbl KERNBASE KERNBASE (et - KERNBASE) (PTE_R OR PTE_X)) (
     sq (kvmmap kpgtbl et et (PHYSTOP - et) (PTE_R OR PTE_W)) (
     sq (kvmmap kpgtbl TRAMPOLINE tr PGSIZE (PTE_R OR PTE_X)) (
     sq (proc_mapstacks kpgtbl) (
     ret kpgtbl)))))))))))"

definition kvminit :: "('z vm_st_scheme, unit) kernel" where
  "kvminit = bnd kvmmake (\<lambda>k. upd (\<lambda>s. s\<lparr>kernel_pagetable := k\<rparr>))"

definition MAKE_SATP :: "addr \<Rightarrow> u64" where
  "MAKE_SATP pagetable = push_bit 60 8 OR drop_bit 12 pagetable"

definition kvminithart :: "('z vm_st_scheme, unit) kernel" where
  "kvminithart = upd (\<lambda>s. s\<lparr>satp := MAKE_SATP (kernel_pagetable s)\<rparr>)"

section \<open>User address spaces\<close>

definition uvmcreate :: "('z kmem_st_scheme, addr) kernel" where
  "uvmcreate =
     bnd kalloc (\<lambda>pagetable.
     if pagetable = 0 then ret 0
     else sq (zero_page pagetable) (ret pagetable))"

text \<open>
  The addresses that a loop \<^verbatim>\<open>for(a = lo; a < hi; a += PGSIZE)\<close> visits.  The body of each
  such loop walks the page table at \<open>a\<close>, which panics for \<open>a \<ge> MAXVA\<close>, so \<open>a\<close> never wraps.
\<close>

definition pages :: "addr \<Rightarrow> addr \<Rightarrow> addr list" where
  "pages lo hi = map (\<lambda>i. lo + of_nat i * PGSIZE) [0..<(unat hi - unat lo + 4095) div 4096]"

definition uvmunmap1 :: "addr \<Rightarrow> bool \<Rightarrow> addr \<Rightarrow> ('z kmem_st_scheme, unit) kernel" where
  "uvmunmap1 pagetable do_free a =
     bnd (walk pagetable a False) (\<lambda>p.
     if p = 0 then ret ()
     else bnd (rd64 p) (\<lambda>pte.
          if pte AND PTE_V = 0 then ret ()
          else sq (whenk do_free (kfree (PTE2PA pte)))
                  (wr64 p 0)))"

definition uvmunmap :: "addr \<Rightarrow> addr \<Rightarrow> u64 \<Rightarrow> bool \<Rightarrow> ('z kmem_st_scheme, unit) kernel" where
  "uvmunmap pagetable va npages do_free =
     sq (unless_panic (va mod PGSIZE = 0) ''uvmunmap: not aligned'')
        (foreach (pages va (va + npages * PGSIZE)) (uvmunmap1 pagetable do_free))"

text \<open>\<open>npages\<close> passes through an \<^verbatim>\<open>int\<close>: it is cut to 32 bits and sign-extended.\<close>

definition uvmdealloc :: "addr \<Rightarrow> u64 \<Rightarrow> u64 \<Rightarrow> ('z kmem_st_scheme, u64) kernel" where
  "uvmdealloc pagetable oldsz newsz =
     (if newsz \<ge> oldsz then ret oldsz
      else sq (whenk (PGROUNDUP newsz < PGROUNDUP oldsz)
                (let npages = scast (ucast ((PGROUNDUP oldsz - PGROUNDUP newsz) div PGSIZE) :: 32 word)
                 in uvmunmap pagetable (PGROUNDUP newsz) npages True))
              (ret newsz))"

primrec uvmalloc_from ::
  "addr list \<Rightarrow> addr \<Rightarrow> u64 \<Rightarrow> u64 \<Rightarrow> u64 \<Rightarrow> ('z kmem_st_scheme, u64) kernel" where
  "uvmalloc_from [] pagetable oldsz newsz xperm = ret newsz"
| "uvmalloc_from (a # as) pagetable oldsz newsz xperm =
     bnd kalloc (\<lambda>m.
     if m = 0 then sq (uvmdealloc pagetable a oldsz) (ret 0)
     else sq (zero_page m) (
          bnd (mappages pagetable a PGSIZE m (PTE_R OR PTE_U OR xperm)) (\<lambda>r.
          if r \<noteq> 0 then sq (kfree m) (sq (uvmdealloc pagetable a oldsz) (ret 0))
          else uvmalloc_from as pagetable oldsz newsz xperm)))"

definition uvmalloc :: "addr \<Rightarrow> u64 \<Rightarrow> u64 \<Rightarrow> u64 \<Rightarrow> ('z kmem_st_scheme, u64) kernel" where
  "uvmalloc pagetable oldsz newsz xperm =
     (if newsz < oldsz then ret oldsz
      else let oldsz' = PGROUNDUP oldsz
           in uvmalloc_from (pages oldsz' newsz) pagetable oldsz' newsz xperm)"

text \<open>
  \<^verbatim>\<open>freewalk\<close> recurses once per level of the table.  \<open>n\<close> is the number of levels left: a
  table has three, and none of its level-0 entries points to a further table.
\<close>

primrec freewalk :: "nat \<Rightarrow> addr \<Rightarrow> ('z kmem_st_scheme, unit) kernel" where
  "freewalk 0 pagetable = panic ''freewalk: depth''"
| "freewalk (Suc n) pagetable =
     sq (foreach [0..<512] (\<lambda>i.
           let p = pagetable + 8 * of_nat i in
           bnd (rd64 p) (\<lambda>pte.
           if pte AND PTE_V \<noteq> 0 \<and> pte AND (PTE_R OR PTE_W OR PTE_X) = 0
           then sq (freewalk n (PTE2PA pte)) (wr64 p 0)
           else unless_panic (pte AND PTE_V = 0) ''freewalk: leaf'')))
        (kfree pagetable)"

definition uvmfree :: "addr \<Rightarrow> u64 \<Rightarrow> ('z kmem_st_scheme, unit) kernel" where
  "uvmfree pagetable sz =
     sq (whenk (sz > 0) (uvmunmap pagetable 0 (PGROUNDUP sz div PGSIZE) True))
        (freewalk 3 pagetable)"

primrec uvmcopy_from :: "addr list \<Rightarrow> addr \<Rightarrow> addr \<Rightarrow> ('z kmem_st_scheme, int) kernel" where
  "uvmcopy_from [] old new = ret 0"
| "uvmcopy_from (i # is) old new =
     bnd (walk old i False) (\<lambda>p.
     if p = 0 then uvmcopy_from is old new
     else bnd (rd64 p) (\<lambda>pte.
     if pte AND PTE_V = 0 then uvmcopy_from is old new
     else bnd kalloc (\<lambda>m.
     if m = 0 then sq (uvmunmap new 0 (i div PGSIZE) True) (ret (- 1))
     else sq (upd (\<lambda>s. s\<lparr>mem := memmove (mem s) m (PTE2PA pte) 4096\<rparr>)) (
          bnd (mappages new i PGSIZE m (PTE_FLAGS pte)) (\<lambda>r.
          if r \<noteq> 0 then sq (kfree m) (sq (uvmunmap new 0 (i div PGSIZE) True) (ret (- 1)))
          else uvmcopy_from is old new)))))"

definition uvmcopy :: "addr \<Rightarrow> addr \<Rightarrow> u64 \<Rightarrow> ('z kmem_st_scheme, int) kernel" where
  "uvmcopy old new sz = uvmcopy_from (pages 0 sz) old new"

definition uvmclear :: "addr \<Rightarrow> addr \<Rightarrow> ('z kmem_st_scheme, unit) kernel" where
  "uvmclear pagetable va =
     bnd (walk pagetable va False) (\<lambda>p.
     sq (unless_panic (p \<noteq> 0) ''uvmclear'') (
     bnd (rd64 p) (\<lambda>pte. wr64 p (pte AND NOT PTE_U))))"

section \<open>Faults and copies\<close>

text \<open>
  In the copies \<open>n\<close>, the number of bytes left on the page, is never 0; the tests \<open>n = 0\<close> only
  let the recursion see it.
\<close>

definition ismapped :: "addr \<Rightarrow> addr \<Rightarrow> ('z kmem_st_scheme, bool) kernel" where
  "ismapped pagetable va =
     bnd (walk pagetable va False) (\<lambda>p.
     if p = 0 then ret False
     else bnd (rd64 p) (\<lambda>pte. ret (pte AND PTE_V \<noteq> 0)))"

definition vmfault :: "addr \<Rightarrow> addr \<Rightarrow> ('z proc_st_scheme, addr) kernel" where
  "vmfault pagetable va =
     bnd myproc (\<lambda>p.
     bnd (pget p p_sz) (\<lambda>sz.
     if va \<ge> sz then ret 0
     else let va = PGROUNDDOWN va in
          bnd (ismapped pagetable va) (\<lambda>mapped.
          if mapped then ret 0
          else bnd kalloc (\<lambda>m.
          if m = 0 then ret 0
          else sq (zero_page m) (
               bnd (pget p p_pagetable) (\<lambda>pt.
               bnd (mappages pt va PGSIZE m (PTE_W OR PTE_U OR PTE_R)) (\<lambda>r.
               if r \<noteq> 0 then sq (kfree m) (ret 0)
               else ret m)))))))"

text \<open>The page the copies go through: mapped already, or mapped now by \<open>vmfault\<close>.\<close>

definition user_page :: "addr \<Rightarrow> addr \<Rightarrow> ('z proc_st_scheme, addr) kernel" where
  "user_page pagetable va0 =
     bnd (walkaddr pagetable va0) (\<lambda>pa0.
     if pa0 = 0 then vmfault pagetable va0 else ret pa0)"

function copyout :: "addr \<Rightarrow> addr \<Rightarrow> byte list \<Rightarrow> ('z proc_st_scheme, int) kernel" where
  "copyout pagetable dstva src =
     (if src = [] then ret 0
      else let va0 = PGROUNDDOWN dstva in
           if va0 \<ge> MAXVA then ret (- 1)
           else bnd (user_page pagetable va0) (\<lambda>pa0.
                if pa0 = 0 then ret (- 1)
                else bnd (walk pagetable va0 False) (\<lambda>p.
                     bnd (rd64 p) (\<lambda>pte.
                     if pte AND PTE_W = 0 then ret (- 1)
                     else let n = min (unat (PGSIZE - (dstva - va0))) (length src) in
                          sq (upd (\<lambda>s. s\<lparr>mem := mem_write (mem s) (pa0 + (dstva - va0)) (take n src)\<rparr>))
                             (if n = 0 then ret 0 else copyout pagetable (va0 + PGSIZE) (drop n src))))))"
  by pat_completeness auto
termination
  by (relation "measure (\<lambda>(_, _, src). length src)") auto

function copyin :: "addr \<Rightarrow> addr \<Rightarrow> nat \<Rightarrow> ('z proc_st_scheme, int \<times> byte list) kernel" where
  "copyin pagetable srcva len =
     (if len = 0 then ret (0, [])
      else let va0 = PGROUNDDOWN srcva in
           bnd (user_page pagetable va0) (\<lambda>pa0.
           if pa0 = 0 then ret (- 1, [])
           else let n = min (unat (PGSIZE - (srcva - va0))) len in
                bnd (get (\<lambda>s. mem_read (mem s) (pa0 + (srcva - va0)) n)) (\<lambda>bs.
                bnd (if n = 0 then ret (0, []) else copyin pagetable (va0 + PGSIZE) (len - n)) (\<lambda>(r, rest).
                ret (r, bs @ rest)))))"
  by pat_completeness auto
termination
  by (relation "measure (\<lambda>(_, _, len). len)") auto

text \<open>The inner loop of \<^verbatim>\<open>copyinstr\<close>: the bytes copied, and whether a null ended them.\<close>

primrec copyinstr_page :: "memory \<Rightarrow> addr \<Rightarrow> nat \<Rightarrow> byte list \<times> bool" where
  "copyinstr_page m p 0 = ([], False)"
| "copyinstr_page m p (Suc n) =
     (if m p = 0 then ([0], True)
      else let (bs, got_null) = copyinstr_page m (p + 1) n in (m p # bs, got_null))"

function copyinstr :: "addr \<Rightarrow> addr \<Rightarrow> nat \<Rightarrow> ('z kmem_st_scheme, int \<times> byte list) kernel" where
  "copyinstr pagetable srcva mx =
     (if mx = 0 then ret (- 1, [])
      else let va0 = PGROUNDDOWN srcva in
           bnd (walkaddr pagetable va0) (\<lambda>pa0.
           if pa0 = 0 then ret (- 1, [])
           else let n = min (unat (PGSIZE - (srcva - va0))) mx in
                bnd (get (\<lambda>s. copyinstr_page (mem s) (pa0 + (srcva - va0)) n)) (\<lambda>(bs, got_null).
                if got_null then ret (0, bs)
                else bnd (if n = 0 then ret (- 1, []) else copyinstr pagetable (va0 + PGSIZE) (mx - n)) (\<lambda>(r, rest).
                     ret (r, bs @ rest)))))"
  by pat_completeness auto
termination
  by (relation "measure (\<lambda>(_, _, mx). mx)") auto

declare copyout.simps [simp del] copyin.simps [simp del] copyinstr.simps [simp del]

end
