(* ===== verification/Sleeplock.thy ===== *)
theory Sleeplock
  imports VM
begin

text \<open>
  \<^verbatim>\<open>kernel/sleeplock.c\<close>: long-term locks.  A sleep lock is named by the buffer or inode
  that contains it; with the name go the spin lock inside it and its wait channel.  A thread
  that finds the lock taken stops with outcome \<open>Sleep\<close>; when it runs again it finishes
  \<open>sleep\<close> and goes on with the loop, \<open>acquiresleep_resume\<close>.
\<close>

section \<open>Definitions\<close>

record sleeplock =
  sk_locked :: u32
  sk_name :: string
  sk_pid :: int

datatype slid = SL_buf nat | SL_inode nat

fun sl_spin :: "slid \<Rightarrow> lockid" where
  "sl_spin (SL_buf i) = L_buf i"
| "sl_spin (SL_inode i) = L_inode i"

fun sl_chan :: "slid \<Rightarrow> chan" where
  "sl_chan (SL_buf i) = Chan_buflock i"
| "sl_chan (SL_inode i) = Chan_inodelock i"

record sl_st = vm_st +
  slocks :: "slid \<Rightarrow> sleeplock"

definition skset :: "slid \<Rightarrow> (sleeplock \<Rightarrow> sleeplock) \<Rightarrow> ('z sl_st_scheme, unit) kernel" where
  "skset l f = upd (\<lambda>s. s\<lparr>slocks := (slocks s)(l := f (slocks s l))\<rparr>)"

definition initsleeplock :: "slid \<Rightarrow> string \<Rightarrow> ('z sl_st_scheme, unit) kernel" where
  "initsleeplock l nm =
     sq (skset l (\<lambda>k. k\<lparr>sk_name := nm\<rparr>)) (
     sq (skset l (\<lambda>k. k\<lparr>sk_locked := 0\<rparr>))
        (skset l (\<lambda>k. k\<lparr>sk_pid := 0\<rparr>)))"

definition acquiresleep_loop :: "slid \<Rightarrow> ('z sl_st_scheme, unit) kernel" where
  "acquiresleep_loop l =
     bnd (get (\<lambda>s. sk_locked (slocks s l))) (\<lambda>b.
     if b \<noteq> 0 then sleep (sl_chan l) (sl_spin l)
     else sq (skset l (\<lambda>k. k\<lparr>sk_locked := 1\<rparr>)) (
          bnd myproc (\<lambda>p.
          bnd (pget p p_pid) (\<lambda>pid.
          sq (skset l (\<lambda>k. k\<lparr>sk_pid := pid\<rparr>))
             (lock_release (sl_spin l))))))"

definition acquiresleep :: "slid \<Rightarrow> ('z sl_st_scheme, unit) kernel" where
  "acquiresleep l = sq (lock_acquire (sl_spin l)) (acquiresleep_loop l)"

definition acquiresleep_resume :: "slid \<Rightarrow> ('z sl_st_scheme, unit) kernel" where
  "acquiresleep_resume l = sq (sleep_resume (sl_spin l)) (acquiresleep_loop l)"

definition releasesleep :: "slid \<Rightarrow> ('z sl_st_scheme, unit) kernel" where
  "releasesleep l =
     sq (lock_acquire (sl_spin l)) (
     sq (skset l (\<lambda>k. k\<lparr>sk_locked := 0\<rparr>)) (
     sq (skset l (\<lambda>k. k\<lparr>sk_pid := 0\<rparr>)) (
     sq (wakeup (sl_chan l))
        (lock_release (sl_spin l)))))"

definition holdingsleep :: "slid \<Rightarrow> ('z sl_st_scheme, bool) kernel" where
  "holdingsleep l =
     sq (lock_acquire (sl_spin l)) (
     bnd myproc (\<lambda>p.
     bnd (pget p p_pid) (\<lambda>pid.
     bnd (get (\<lambda>s. sk_locked (slocks s l) \<noteq> 0 \<and> sk_pid (slocks s l) = pid)) (\<lambda>r.
     sq (lock_release (sl_spin l))
        (ret r)))))"

section \<open>Behaviour\<close>

text \<open>
  A thread in a system call: a process runs on the processor and no process lock is held.
  Above the scheduler the kernel's functions are entered so.
\<close>

definition in_proc :: "'z proc_st_scheme \<Rightarrow> bool" where
  "in_proc s \<longleftrightarrow> (\<exists>p. curproc s = Some p \<and> p < NPROC) \<and> length (procs s) = NPROC \<and>
     (\<forall>i. L_proc i \<notin> set (held s))"

definition mypid :: "'z proc_st_scheme \<Rightarrow> int" where
  "mypid s = p_pid (procs s ! the (curproc s))"

definition held_by_me :: "'z sl_st_scheme \<Rightarrow> slid \<Rightarrow> bool" where
  "held_by_me s l \<longleftrightarrow> sk_locked (slocks s l) \<noteq> 0 \<and> sk_pid (slocks s l) = mypid s"

lemma skset_run [kernel_run, simp]:
  "skset l f s = Ok () (s\<lparr>slocks := (slocks s)(l := f (slocks s l))\<rparr>)"
  by (simp add: skset_def)

lemma sl_spin_not_proc [simp]: "sl_spin l \<noteq> L_proc p" "L_proc p \<noteq> sl_spin l"
  by (cases l; simp)+

lemma sl_spin_inj [simp]: "sl_spin l = sl_spin k \<longleftrightarrow> l = k"
  by (cases l; cases k) auto

lemma mypid_wakeup [simp]: "mypid (s\<lparr>procs := awake_procs c me (procs s)\<rparr>) = mypid s"
  if "in_proc s"
  using that by (auto simp: mypid_def in_proc_def awake_def)

lemma in_proc_wakeup [simp]:
  "in_proc (s\<lparr>procs := awake_procs c me (procs s)\<rparr>) = in_proc s"
  by (simp add: in_proc_def)

lemma acquiresleep_free:
  assumes "in_proc s" "sl_spin l \<notin> set (held s)" "sk_locked (slocks s l) = 0"
  shows "acquiresleep l s =
     Ok () (s\<lparr>slocks := (slocks s)(l := (slocks s l)\<lparr>sk_locked := 1, sk_pid := mypid s\<rparr>)\<rparr>)"
  using assms
  by (auto simp: acquiresleep_def acquiresleep_loop_def bnd_run sq_run in_proc_def mypid_def)

lemma acquiresleep_taken:
  assumes "in_proc s" "held s = []" "sk_locked (slocks s l) \<noteq> 0"
  shows "\<exists>t. acquiresleep l s = Sleep (sl_chan l) t \<and> slocks t = slocks s"
proof -
  from assms(1) obtain p where p: "curproc s = Some p" "p < length (procs s)"
    by (auto simp: in_proc_def)
  then show ?thesis
    using sleep_run [of "s\<lparr>held := [sl_spin l]\<rparr>" p "sl_spin l"] assms
    by (simp add: acquiresleep_def acquiresleep_loop_def bnd_run sq_run)
qed

lemma holdingsleep_run:
  assumes "in_proc s" "sl_spin l \<notin> set (held s)"
  shows "holdingsleep l s = Ok (held_by_me s l) s"
  using assms by (auto simp: holdingsleep_def bnd_run sq_run in_proc_def held_by_me_def mypid_def)

lemma releasesleep_run:
  assumes "in_proc s" "sl_spin l \<notin> set (held s)"
  shows "releasesleep l s =
     Ok () (s\<lparr>slocks := (slocks s)(l := (slocks s l)\<lparr>sk_locked := 0, sk_pid := 0\<rparr>),
             procs := awake_procs (sl_chan l) (curproc s) (procs s)\<rparr>)"
  using assms by (simp add: releasesleep_def bnd_run sq_run in_proc_def wakeup_run)

end
