(* ===== verification/Bio.thy ===== *)
theory Bio
  imports Sleeplock
begin

text \<open>
  \<^verbatim>\<open>kernel/bio.c\<close>: the buffer cache.  Buffers are indices into the array \<open>bufs\<close>, whose
  last element is the list head \<^verbatim>\<open>bcache.head\<close>; the list links are fields of the buffers,
  as in the source.  The disk is the map \<open>disk\<close> from block numbers to contents, with the
  history of its writes in \<open>disk_trace\<close>; \<open>disk_rw\<close> is what \<^verbatim>\<open>virtio_disk_rw\<close> has done
  when it returns (theory \<open>Virtio\<close> models the driver).
\<close>

section \<open>Structures\<close>

definition BSIZE :: nat where "BSIZE = 1024"
definition MAXOPBLOCKS :: nat where "MAXOPBLOCKS = 10"
definition NBUF :: nat where "NBUF = MAXOPBLOCKS * 3"
definition ROOTDEV :: nat where "ROOTDEV = 1"

type_synonym block = "byte list"

record buf =
  b_valid :: bool
  b_disk :: bool
  b_dev :: nat
  b_blockno :: nat
  b_refcnt :: u32
  b_prev :: nat
  b_next :: nat
  b_data :: block

record bio_st = sl_st +
  bufs :: "buf list"
  disk :: "nat \<Rightarrow> block"
  disk_trace :: "(nat \<times> block) list"

abbreviation head :: nat where "head \<equiv> NBUF"

definition bset :: "nat \<Rightarrow> (buf \<Rightarrow> buf) \<Rightarrow> ('z bio_st_scheme, unit) kernel" where
  "bset b f = upd (\<lambda>s. s\<lparr>bufs := (bufs s)[b := f (bufs s ! b)]\<rparr>)"

definition bfield :: "nat \<Rightarrow> (buf \<Rightarrow> 'a) \<Rightarrow> ('z bio_st_scheme, 'a) kernel" where
  "bfield b f = get (\<lambda>s. f (bufs s ! b))"

definition disk_rw :: "nat \<Rightarrow> bool \<Rightarrow> ('z bio_st_scheme, unit) kernel" where
  "disk_rw b wr =
     bnd (bfield b b_blockno) (\<lambda>n.
     bnd (bfield b b_data) (\<lambda>d.
     if wr
     then sq (upd (\<lambda>s. s\<lparr>disk := (disk s)(n := d)\<rparr>))
             (upd (\<lambda>s. s\<lparr>disk_trace := disk_trace s @ [(n, d)]\<rparr>))
     else bnd (get (\<lambda>s. disk s n)) (\<lambda>e. bset b (\<lambda>k. k\<lparr>b_data := e\<rparr>))))"

section \<open>Functions\<close>

definition binit1 :: "nat \<Rightarrow> ('z bio_st_scheme, unit) kernel" where
  "binit1 b =
     bnd (bfield head b_next) (\<lambda>n.
     sq (bset b (\<lambda>k. k\<lparr>b_next := n\<rparr>)) (
     sq (bset b (\<lambda>k. k\<lparr>b_prev := head\<rparr>)) (
     sq (initsleeplock (SL_buf b) ''buffer'') (
     bnd (bfield head b_next) (\<lambda>n.
     sq (bset n (\<lambda>k. k\<lparr>b_prev := b\<rparr>))
        (bset head (\<lambda>k. k\<lparr>b_next := b\<rparr>)))))))"

definition binit :: "('z bio_st_scheme, unit) kernel" where
  "binit =
     sq (bset head (\<lambda>k. k\<lparr>b_prev := head\<rparr>)) (
     sq (bset head (\<lambda>k. k\<lparr>b_next := head\<rparr>))
        (foreach [0..<NBUF] binit1))"

text \<open>
  The two scans of \<^verbatim>\<open>bget\<close>.  The list has \<open>NBUF\<close> buffers, so \<open>NBUF + 1\<close> steps take a
  scan all the way round to the head.
\<close>

primrec bget_cached :: "nat \<Rightarrow> nat \<Rightarrow> nat \<Rightarrow> nat \<Rightarrow> ('z bio_st_scheme, nat option) kernel" where
  "bget_cached 0 b dev blockno = panic ''bget: fuel''"
| "bget_cached (Suc n) b dev blockno =
     (if b = head then ret None
      else bnd (bfield b (\<lambda>k. b_dev k = dev \<and> b_blockno k = blockno)) (\<lambda>hit.
           if hit then ret (Some b)
           else bnd (bfield b b_next) (\<lambda>b'. bget_cached n b' dev blockno)))"

primrec bget_unused :: "nat \<Rightarrow> nat \<Rightarrow> ('z bio_st_scheme, nat option) kernel" where
  "bget_unused 0 b = panic ''bget: fuel''"
| "bget_unused (Suc n) b =
     (if b = head then ret None
      else bnd (bfield b b_refcnt) (\<lambda>r.
           if r = 0 then ret (Some b)
           else bnd (bfield b b_prev) (\<lambda>b'. bget_unused n b')))"

definition bget :: "nat \<Rightarrow> nat \<Rightarrow> ('z bio_st_scheme, nat) kernel" where
  "bget dev blockno =
     sq (lock_acquire L_bcache) (
     bnd (bfield head b_next) (\<lambda>b0.
     bnd (bget_cached (Suc NBUF) b0 dev blockno) (\<lambda>hit.
     case hit of
       Some b \<Rightarrow>
         sq (bset b (\<lambda>k. k\<lparr>b_refcnt := b_refcnt k + 1\<rparr>)) (
         sq (lock_release L_bcache) (
         sq (acquiresleep (SL_buf b)) (
         ret b)))
     | None \<Rightarrow>
         bnd (bfield head b_prev) (\<lambda>b1.
         bnd (bget_unused (Suc NBUF) b1) (\<lambda>free.
         case free of
           Some b \<Rightarrow>
             sq (bset b (\<lambda>k. k\<lparr>b_dev := dev\<rparr>)) (
             sq (bset b (\<lambda>k. k\<lparr>b_blockno := blockno\<rparr>)) (
             sq (bset b (\<lambda>k. k\<lparr>b_valid := False\<rparr>)) (
             sq (bset b (\<lambda>k. k\<lparr>b_refcnt := 1\<rparr>)) (
             sq (lock_release L_bcache) (
             sq (acquiresleep (SL_buf b)) (
             ret b))))))
         | None \<Rightarrow> panic ''bget: no buffers'')))))"

definition bread :: "nat \<Rightarrow> nat \<Rightarrow> ('z bio_st_scheme, nat) kernel" where
  "bread dev blockno =
     bnd (bget dev blockno) (\<lambda>b.
     bnd (bfield b b_valid) (\<lambda>v.
     sq (whenk (\<not> v) (
          sq (disk_rw b False)
             (bset b (\<lambda>k. k\<lparr>b_valid := True\<rparr>))))
        (ret b)))"

definition bwrite :: "nat \<Rightarrow> ('z bio_st_scheme, unit) kernel" where
  "bwrite b =
     bnd (holdingsleep (SL_buf b)) (\<lambda>h.
     sq (unless_panic h ''bwrite'')
        (disk_rw b True))"

definition brelse :: "nat \<Rightarrow> ('z bio_st_scheme, unit) kernel" where
  "brelse b =
     bnd (holdingsleep (SL_buf b)) (\<lambda>h.
     sq (unless_panic h ''brelse'') (
     sq (releasesleep (SL_buf b)) (
     sq (lock_acquire L_bcache) (
     sq (bset b (\<lambda>k. k\<lparr>b_refcnt := b_refcnt k - 1\<rparr>)) (
     bnd (bfield b b_refcnt) (\<lambda>r.
     sq (whenk (r = 0) (
          bnd (bfield b b_next) (\<lambda>nx.
          bnd (bfield b b_prev) (\<lambda>pv.
          sq (bset nx (\<lambda>k. k\<lparr>b_prev := pv\<rparr>)) (
          bnd (bfield b b_prev) (\<lambda>pv.
          bnd (bfield b b_next) (\<lambda>nx.
          sq (bset pv (\<lambda>k. k\<lparr>b_next := nx\<rparr>)) (
          bnd (bfield head b_next) (\<lambda>hn.
          sq (bset b (\<lambda>k. k\<lparr>b_next := hn\<rparr>)) (
          sq (bset b (\<lambda>k. k\<lparr>b_prev := head\<rparr>)) (
          bnd (bfield head b_next) (\<lambda>hn.
          sq (bset hn (\<lambda>k. k\<lparr>b_prev := b\<rparr>))
             (bset head (\<lambda>k. k\<lparr>b_next := b\<rparr>))))))))))))))
        (lock_release L_bcache)))))))"

definition bpin :: "nat \<Rightarrow> ('z bio_st_scheme, unit) kernel" where
  "bpin b =
     sq (lock_acquire L_bcache) (
     sq (bset b (\<lambda>k. k\<lparr>b_refcnt := b_refcnt k + 1\<rparr>))
        (lock_release L_bcache))"

definition bunpin :: "nat \<Rightarrow> ('z bio_st_scheme, unit) kernel" where
  "bunpin b =
     sq (lock_acquire L_bcache) (
     sq (bset b (\<lambda>k. k\<lparr>b_refcnt := b_refcnt k - 1\<rparr>))
        (lock_release L_bcache))"

lemma bset_run [kernel_run, simp]:
  "bset b f s = Ok () (s\<lparr>bufs := (bufs s)[b := f (bufs s ! b)]\<rparr>)"
  by (simp add: bset_def)

lemma bfield_run [kernel_run, simp]: "bfield b f s = Ok (f (bufs s ! b)) s"
  by (simp add: bfield_def)

section \<open>The list of buffers\<close>

text \<open>\<open>chain f a xs z\<close>: following \<open>f\<close> from \<open>a\<close> visits \<open>xs\<close> and then reaches \<open>z\<close>.\<close>

primrec chain :: "(nat \<Rightarrow> nat) \<Rightarrow> nat \<Rightarrow> nat list \<Rightarrow> nat \<Rightarrow> bool" where
  "chain f a [] z \<longleftrightarrow> f a = z"
| "chain f a (x # xs) z \<longleftrightarrow> f a = x \<and> chain f x xs z"

lemma chain_append [simp]: "chain f a (xs @ y # ys) z \<longleftrightarrow> chain f a xs y \<and> chain f y ys z"
  by (induction xs arbitrary: a) auto

lemma chain_cong: "(\<And>x. x \<in> set (a # xs) \<Longrightarrow> f x = g x) \<Longrightarrow> chain f a xs z = chain g a xs z"
  by (induction xs arbitrary: a) auto

lemma chain_upd_other: "b \<noteq> a \<Longrightarrow> b \<notin> set xs \<Longrightarrow> chain (f(b := c)) a xs z = chain f a xs z"
  by (rule chain_cong) auto

lemma chain_last: "chain f a xs z \<Longrightarrow> f (last (a # xs)) = z"
  by (induction xs arbitrary: a) auto

lemma chain_upd_last:
  "distinct (a # xs) \<Longrightarrow> chain f a xs z \<Longrightarrow> chain (f(last (a # xs) := w)) a xs w"
proof (induction xs arbitrary: a)
  case Nil
  then show ?case by simp
next
  case (Cons x xs)
  then have "a \<noteq> last (x # xs)" by (metis distinct.simps(2) last_in_set list.distinct(1))
  with Cons show ?case by auto
qed

lemma chain_first: "chain f a xs z \<Longrightarrow> f a = hd (xs @ [z])"
  by (cases xs) auto

text \<open>Taking a buffer out of a doubly linked list, and putting one in at the front.\<close>

lemma chain_remove:
  assumes "distinct (h # ys @ b # zs)" "chain f h (ys @ b # zs) h" "g b = last (h # ys)"
  shows "chain (f(g b := f b)) h (ys @ zs) h"
proof -
  from assms(2) have c: "chain f h ys b" "chain f b zs h" by simp_all
  have "chain (f(last (h # ys) := f b)) h ys (f b)" using assms(1) c(1) by (intro chain_upd_last) auto
  then have 1: "chain (f(g b := f b)) h ys (hd (zs @ [h]))"
    using chain_first [OF c(2)] assms(3) by simp
  show ?thesis
  proof (cases zs)
    case Nil
    with 1 show ?thesis by simp
  next
    case (Cons z zs')
    have "last (h # ys) \<notin> set zs"
      using assms(1) by (metis Un_iff disjoint_iff distinct.simps(2) distinct_append last_ConsL
          last_ConsR last_in_set list.set_intros(2) set_append)
    then have "chain (f(g b := f b)) z zs' h"
      using c(2) assms(3) Cons by (subst chain_upd_other) auto
    with 1 Cons show ?thesis by simp
  qed
qed

lemma chain_insert_front:
  assumes "chain f h xs h" "b \<noteq> h" "b \<notin> set xs" "h \<notin> set xs"
  shows "chain (f(b := f h, h := b)) h (b # xs) h"
  using assms by (cases xs) (auto simp: chain_upd_other)

lemma chain_insert_front_rev:
  assumes "chain f h xs h" "chain g h (rev xs) h" "b \<noteq> h" "b \<notin> set xs" "distinct (h # xs)"
  shows "chain (g(b := h, f h := b)) h (rev (b # xs)) h"
proof (cases xs)
  case Nil
  with assms show ?thesis by simp
next
  case (Cons x xs')
  with assms have "f h = x" "chain g h (rev xs') x" "x \<notin> set xs'" "x \<noteq> h" "b \<noteq> x" "b \<notin> set xs'"
    by auto
  then show ?thesis using Cons assms(3) by (simp add: chain_upd_other)
qed

abbreviation nx :: "buf list \<Rightarrow> nat \<Rightarrow> nat" where "nx bs \<equiv> \<lambda>i. b_next (bs ! i)"
abbreviation pv :: "buf list \<Rightarrow> nat \<Rightarrow> nat" where "pv bs \<equiv> \<lambda>i. b_prev (bs ! i)"

definition lru :: "buf list \<Rightarrow> nat list \<Rightarrow> bool" where
  "lru bs xs \<longleftrightarrow> length bs = Suc NBUF \<and> distinct xs \<and> set xs = {..<NBUF} \<and>
     chain (nx bs) head xs head \<and> chain (pv bs) head (rev xs) head"

lemma nx_upd: "i < length bs \<Longrightarrow> b_next k = w \<Longrightarrow> nx (bs[i := k]) = (nx bs)(i := w)"
  by (auto simp: fun_eq_iff nth_list_update)

lemma pv_upd: "i < length bs \<Longrightarrow> b_prev k = w \<Longrightarrow> pv (bs[i := k]) = (pv bs)(i := w)"
  by (auto simp: fun_eq_iff nth_list_update)

lemma nx_upd_same: "b_next k = b_next (bs ! i) \<Longrightarrow> nx (bs[i := k]) = nx bs"
  by (cases "i < length bs") (auto simp: fun_eq_iff nth_list_update list_update_beyond)

lemma pv_upd_same: "b_prev k = b_prev (bs ! i) \<Longrightarrow> pv (bs[i := k]) = pv bs"
  by (cases "i < length bs") (auto simp: fun_eq_iff nth_list_update list_update_beyond)

lemma lru_upd:
  "b_next k = b_next (bs ! i) \<Longrightarrow> b_prev k = b_prev (bs ! i) \<Longrightarrow> lru (bs[i := k]) xs = lru bs xs"
  by (simp add: lru_def nx_upd_same pv_upd_same)

lemma lru_length: "lru bs xs \<Longrightarrow> length xs = NBUF"
  unfolding lru_def by (metis card_lessThan distinct_card)

lemma bget_cached_run:
  assumes "chain (nx (bufs s)) a xs head" "head \<notin> set xs" "length xs < n"
  shows "bget_cached n (hd (xs @ [head])) dev blockno s =
     Ok (find (\<lambda>b. b_dev (bufs s ! b) = dev \<and> b_blockno (bufs s ! b) = blockno) xs) s"
  using assms
proof (induction n arbitrary: a xs)
  case 0
  then show ?case by simp
next
  case (Suc n)
  show ?case
  proof (cases xs)
    case Nil
    then show ?thesis by simp
  next
    case (Cons x ys)
    with Suc.prems have "b_next (bufs s ! x) = hd (ys @ [head])" "chain (nx (bufs s)) x ys head"
      using chain_first by auto
    with Cons Suc.prems Suc.IH [of x ys] show ?thesis by (auto simp: bnd_run)
  qed
qed

lemma bget_unused_run:
  assumes "chain (pv (bufs s)) a xs head" "head \<notin> set xs" "length xs < n"
  shows "bget_unused n (hd (xs @ [head])) s = Ok (find (\<lambda>b. b_refcnt (bufs s ! b) = 0) xs) s"
  using assms
proof (induction n arbitrary: a xs)
  case 0
  then show ?case by simp
next
  case (Suc n)
  show ?case
  proof (cases xs)
    case Nil
    then show ?thesis by simp
  next
    case (Cons x ys)
    with Suc.prems have "b_prev (bufs s ! x) = hd (ys @ [head])" "chain (pv (bufs s)) x ys head"
      using chain_first by auto
    with Cons Suc.prems Suc.IH [of x ys] show ?thesis by (auto simp: bnd_run)
  qed
qed

text \<open>What a buffer is apart from its links.\<close>

definition core :: "buf \<Rightarrow> bool \<times> bool \<times> nat \<times> nat \<times> u32 \<times> block" where
  "core k = (b_valid k, b_disk k, b_dev k, b_blockno k, b_refcnt k, b_data k)"

lemma core_upd [simp]: "core (k\<lparr>b_prev := p\<rparr>) = core k" "core (k\<lparr>b_next := p\<rparr>) = core k"
  by (simp_all add: core_def)

lemma core_list_upd: "core k = core (bs ! i) \<Longrightarrow> core (bs[i := k] ! j) = core (bs ! j)"
  by (cases "i < length bs") (auto simp: nth_list_update list_update_beyond)

lemma coreD: "core k = core k' \<Longrightarrow> b_valid k = b_valid k'" "core k = core k' \<Longrightarrow> b_dev k = b_dev k'"
  "core k = core k' \<Longrightarrow> b_blockno k = b_blockno k'" "core k = core k' \<Longrightarrow> b_refcnt k = b_refcnt k'"
  "core k = core k' \<Longrightarrow> b_data k = b_data k'" "core k = core k' \<Longrightarrow> b_disk k = b_disk k'"
  by (simp_all add: core_def)

text \<open>The assignments at the end of \<^verbatim>\<open>brelse\<close>, and what they do to the list.\<close>

definition relink :: "buf list \<Rightarrow> nat \<Rightarrow> buf list" where
  "relink bs b =
     (let bs1 = bs[nx bs b := (bs ! nx bs b)\<lparr>b_prev := pv bs b\<rparr>];
          bs2 = bs1[pv bs1 b := (bs1 ! pv bs1 b)\<lparr>b_next := nx bs1 b\<rparr>];
          bs3 = bs2[b := (bs2 ! b)\<lparr>b_next := nx bs2 head\<rparr>];
          bs4 = bs3[b := (bs3 ! b)\<lparr>b_prev := head\<rparr>];
          bs5 = bs4[nx bs4 head := (bs4 ! nx bs4 head)\<lparr>b_prev := b\<rparr>]
      in bs5[head := (bs5 ! head)\<lparr>b_next := b\<rparr>])"

lemma relink_core: "core (relink bs b ! j) = core (bs ! j)"
  unfolding relink_def Let_def by (simp add: core_list_upd)

lemma relink_length [simp]: "length (relink bs b) = length bs"
  by (simp add: relink_def Let_def)

lemma lru_neighbours:
  assumes "lru bs (ys @ b # zs)"
  shows "pv bs b = last (head # ys)" "nx bs b = hd (zs @ [head])" "nx bs b \<noteq> b" "pv bs b \<noteq> b"
    "nx bs b \<le> head" "pv bs b \<le> head" "b < head"
proof -
  have d: "distinct (ys @ b # zs)" "set (ys @ b # zs) = {..<NBUF}"
    and c: "chain (nx bs) b zs head" "chain (pv bs) b (rev ys) head"
    using assms by (auto simp: lru_def)
  have sub: "set ys \<subseteq> {..<NBUF}" "set zs \<subseteq> {..<NBUF}" "b \<in> {..<NBUF}" using d(2) by auto
  have nin: "b \<notin> set ys" "b \<notin> set zs" using d(1) by auto
  have m: "last (head # ys) \<in> insert head (set ys)" using last_in_set [of "head # ys"] by simp
  have m2: "hd (zs @ [head]) \<in> insert head (set zs)" by (cases zs) simp_all
  have "hd (rev ys @ [head]) = last (head # ys)" by (simp add: hd_append hd_rev)
  with chain_first [OF c(2)] show p: "pv bs b = last (head # ys)" by simp
  show n: "nx bs b = hd (zs @ [head])" using chain_first [OF c(1)] .
  show b: "b < head" using sub(3) by simp
  show "nx bs b \<noteq> b" "nx bs b \<le> head" unfolding n using m2 nin sub b by fastforce+
  show "pv bs b \<noteq> b" "pv bs b \<le> head" unfolding p using m nin sub b by fastforce+
qed

lemma relink_links:
  assumes l: "length bs = Suc NBUF" and "nx bs b \<noteq> b" "pv bs b \<noteq> b"
    "nx bs b \<le> head" "pv bs b \<le> head" "b < head" "((nx bs)(pv bs b := nx bs b)) head \<le> head"
  shows "nx (relink bs b) =
      (nx bs)(pv bs b := nx bs b, b := ((nx bs)(pv bs b := nx bs b)) head, head := b)"
    and "pv (relink bs b) =
      (pv bs)(nx bs b := pv bs b, b := head, ((nx bs)(pv bs b := nx bs b)) head := b)"
proof -
  define bs1 where "bs1 = bs[nx bs b := (bs ! nx bs b)\<lparr>b_prev := pv bs b\<rparr>]"
  define bs2 where "bs2 = bs1[pv bs1 b := (bs1 ! pv bs1 b)\<lparr>b_next := nx bs1 b\<rparr>]"
  define bs3 where "bs3 = bs2[b := (bs2 ! b)\<lparr>b_next := nx bs2 head\<rparr>]"
  define bs4 where "bs4 = bs3[b := (bs3 ! b)\<lparr>b_prev := head\<rparr>]"
  define bs5 where "bs5 = bs4[nx bs4 head := (bs4 ! nx bs4 head)\<lparr>b_prev := b\<rparr>]"
  let ?f1 = "(nx bs)(pv bs b := nx bs b)"
  have r: "relink bs b = bs5[head := (bs5 ! head)\<lparr>b_next := b\<rparr>]"
    by (simp add: relink_def Let_def bs1_def bs2_def bs3_def bs4_def bs5_def)
  have ln: "length bs1 = Suc NBUF" "length bs2 = Suc NBUF" "length bs3 = Suc NBUF"
    "length bs4 = Suc NBUF" "length bs5 = Suc NBUF"
    using l by (simp_all add: bs1_def bs2_def bs3_def bs4_def bs5_def)
  have 1: "nx bs1 = nx bs" "pv bs1 = (pv bs)(nx bs b := pv bs b)"
    unfolding bs1_def using assms by (simp_all add: nx_upd_same pv_upd)
  have g1b: "pv bs1 b = pv bs b" using fun_cong [OF 1(2), of b] assms(2) by simp
  have 2: "nx bs2 = ?f1" "pv bs2 = pv bs1"
    unfolding bs2_def g1b using assms ln by (simp_all add: nx_upd pv_upd_same fun_cong [OF 1(1)] 1(1))
  have 3: "nx bs3 = (nx bs2)(b := nx bs2 head)" "pv bs3 = pv bs2"
    unfolding bs3_def using assms ln by (simp_all add: nx_upd pv_upd_same)
  have 4: "nx bs4 = nx bs3" "pv bs4 = (pv bs3)(b := head)"
    unfolding bs4_def using assms ln by (simp_all add: nx_upd_same pv_upd)
  have h2: "nx bs2 head = ?f1 head" using fun_cong [OF 2(1), of head] .
  have h4: "nx bs4 head = ?f1 head"
    using fun_cong [OF 4(1), of head] fun_cong [OF 3(1), of head] fun_cong [OF 2(1), of head] assms(6) by simp
  have 5: "nx bs5 = nx bs4" "pv bs5 = (pv bs4)(?f1 head := b)"
    unfolding bs5_def h4 using assms(7) ln by (simp_all add: nx_upd_same pv_upd)
  show "nx (relink bs b) = ?f1(b := ?f1 head, head := b)"
    unfolding r using ln(5)
    by (subst nx_upd [where w = b]) (simp_all only: 5(1) 4(1) 3(1) h2 2(1), simp_all)
  show "pv (relink bs b) = (pv bs)(nx bs b := pv bs b, b := head, ?f1 head := b)"
    unfolding r by (subst pv_upd_same) (simp, simp only: 5(2) 4(2) 3(2) 2(2) 1(2))
qed

lemma lru_relink:
  assumes "lru bs (ys @ b # zs)"
  shows "lru (relink bs b) (b # ys @ zs)"
proof -
  note nb = lru_neighbours [OF assms]
  let ?f = "nx bs" and ?g = "pv bs"
  have l: "length bs = Suc NBUF" and d: "distinct (ys @ b # zs)" "set (ys @ b # zs) = {..<NBUF}"
    and c: "chain ?f head (ys @ b # zs) head" "chain ?g head (rev (ys @ b # zs)) head"
    using assms by (auto simp: lru_def)
  have dh: "distinct (head # ys @ b # zs)" "distinct (head # rev zs @ b # rev ys)"
    using d by auto
  have gb: "?f b = last (head # rev zs)" using nb(2) by (cases zs) auto
  define f1 where "f1 = ?f(?g b := ?f b)"
  define g1 where "g1 = ?g(?f b := ?g b)"
  have c1: "chain f1 head (ys @ zs) head"
    unfolding f1_def using chain_remove [where f = ?f and g = ?g, OF dh(1) c(1) nb(1)] .
  have c2: "chain g1 head (rev (ys @ zs)) head"
    unfolding g1_def using chain_remove [where f = ?g and g = ?f, OF dh(2) _ gb] c(2) by simp
  have b: "b \<noteq> head" "b \<notin> set (ys @ zs)" "head \<notin> set (ys @ zs)" "distinct (head # ys @ zs)"
    using d by auto
  have "hd ((ys @ zs) @ [head]) \<in> insert head (set (ys @ zs))" by (cases "ys @ zs") simp_all
  moreover have "set (ys @ zs) \<subseteq> {..<NBUF}" using d(2) by auto
  ultimately have f1h: "f1 head \<le> head" unfolding chain_first [OF c1] by fastforce
  note rl = relink_links [OF l nb(3-7) f1h [unfolded f1_def]]
  have "chain (nx (relink bs b)) head (b # ys @ zs) head"
    unfolding rl(1) by (rule chain_insert_front [OF c1 b(1,2,3), unfolded f1_def])
  moreover have "chain (pv (relink bs b)) head (rev (b # ys @ zs)) head"
    unfolding rl(2) by (rule chain_insert_front_rev [OF c1 c2 b(1,2,4), unfolded f1_def g1_def])
  moreover have "set (b # ys @ zs) = {..<NBUF}" "distinct (b # ys @ zs)" using d by auto
  moreover have "length (relink bs b) = Suc NBUF" using l by simp
  ultimately show ?thesis unfolding lru_def by blast
qed

section \<open>Frames\<close>

text \<open>
  A part of the state that no assignment of the functions of this layer touches is left alone by
  them.
\<close>

locale bio_frame =
  fixes p :: "'z bio_st_scheme \<Rightarrow> 'b"
  assumes p_held: "p (s\<lparr>held := h\<rparr>) = p s" and p_klog: "p (s\<lparr>klog := kl\<rparr>) = p s"
    and p_procs: "p (s\<lparr>procs := ps\<rparr>) = p s" and p_slocks: "p (s\<lparr>slocks := sl\<rparr>) = p s"
    and p_bufs: "p (s\<lparr>bufs := bs\<rparr>) = p s" and p_disk: "p (s\<lparr>disk := d\<rparr>) = p s"
    and p_trace: "p (s\<lparr>disk_trace := tr\<rparr>) = p s"
begin

lemmas p_simps = p_held p_klog p_procs p_slocks p_bufs p_disk p_trace

lemma keeps_prims [keeps_intros]:
  "keeps p (lock_acquire l)" "keeps p (lock_release l)" "keeps p (printk m)" "keeps p (pset i f)"
  "keeps p (pget i g)" "keeps p (skset k h)" "keeps p (bset b j)" "keeps p (bfield b e)" "keeps p myproc"
  unfolding lock_acquire_def lock_release_def printk_def pset_def pget_def skset_def bset_def bfield_def myproc_def
  by (auto intro!: keeps_intros simp: p_simps)

lemma keeps_sched [keeps_intros]:
  "keeps p sched" "keeps p (wakeup c)" "keeps p (sleep c l)" "keeps p (sleep_resume l)"
proof -
  have "keeps p (\<lambda>s. Sleep c s)" for c by (simp add: keeps_def)
  then show "keeps p sched" unfolding sched_def by (auto intro!: keeps_intros keeps_prims)
  then show "keeps p (wakeup c)" "keeps p (sleep c l)" "keeps p (sleep_resume l)"
    unfolding sleep_def sleep_resume_def wakeup_def wakeup1_def handoff_acts
    by (auto intro!: keeps_intros keeps_prims)
qed

lemma keeps_sleeplock [keeps_intros]:
  "keeps p (acquiresleep l)" "keeps p (releasesleep l)" "keeps p (holdingsleep l)"
  unfolding acquiresleep_def acquiresleep_loop_def releasesleep_def holdingsleep_def
  by (auto intro!: keeps_intros keeps_prims keeps_sched)

lemma keeps_scans [keeps_intros]:
  "keeps p (bget_cached n b dev m)" "keeps p (bget_unused n b)"
  by (induction n arbitrary: b) (auto intro!: keeps_intros keeps_prims)

lemma keeps_bio [keeps_intros]:
  "keeps p (disk_rw b w)" "keeps p (bget dev n)" "keeps p (bread dev n)" "keeps p (bwrite b)"
  "keeps p (brelse b)" "keeps p (bpin b)" "keeps p (bunpin b)"
  unfolding bread_def bget_def bwrite_def brelse_def bpin_def bunpin_def disk_rw_def
  by (auto intro!: keeps_intros keeps_prims keeps_sched keeps_sleeplock keeps_scans simp: p_simps)

end

end
