(* ===== verification/Bcache.thy ===== *)
theory Bcache
  imports Bio
begin

text \<open>
  What the buffer cache promises.  The abstract view of a state gives each block of the disk its
  current content (the cached copy if there is a valid one), the number of references to its
  buffer, the process that holds the buffer's lock, and counts the buffers free for use.  Each
  function of \<^verbatim>\<open>bio.c\<close> acts on this view in one step; the clients (the log, the file
  system) are verified against the view alone, through the locale \<open>buffer_cache\<close>.
\<close>

section \<open>The view\<close>

definition fnd :: "buf list \<Rightarrow> nat \<Rightarrow> nat option" where
  "fnd bs n = find (\<lambda>i. b_dev (bs ! i) = ROOTDEV \<and> b_blockno (bs ! i) = n) [0..<NBUF]"

record bview =
  vcont :: "nat \<Rightarrow> block"
  vrefs :: "nat \<Rightarrow> nat"
  vlock :: "nat \<Rightarrow> int option"
  vfree :: nat
  vdisk :: "nat \<Rightarrow> block"
  vtrace :: "(nat \<times> block) list"

definition cont :: "buf list \<Rightarrow> (nat \<Rightarrow> block) \<Rightarrow> nat \<Rightarrow> block" where
  "cont bs d n = (case fnd bs n of None \<Rightarrow> d n
     | Some i \<Rightarrow> if b_valid (bs ! i) then b_data (bs ! i) else d n)"

definition refs :: "buf list \<Rightarrow> nat \<Rightarrow> nat" where
  "refs bs n = (case fnd bs n of None \<Rightarrow> 0 | Some i \<Rightarrow> unat (b_refcnt (bs ! i)))"

definition lckd :: "buf list \<Rightarrow> (slid \<Rightarrow> sleeplock) \<Rightarrow> nat \<Rightarrow> int option" where
  "lckd bs sl n = (case fnd bs n of None \<Rightarrow> None
     | Some i \<Rightarrow> if sk_locked (sl (SL_buf i)) = 0 then None else Some (sk_pid (sl (SL_buf i))))"

definition nfree :: "buf list \<Rightarrow> nat" where
  "nfree bs = card {i. i < NBUF \<and> b_refcnt (bs ! i) = 0}"

definition bview :: "'z bio_st_scheme \<Rightarrow> bview" where
  "bview s = \<lparr>vcont = cont (bufs s) (disk s), vrefs = refs (bufs s), vlock = lckd (bufs s) (slocks s),
     vfree = nfree (bufs s), vdisk = disk s, vtrace = disk_trace s\<rparr>"

text \<open>The invariant of the cache.\<close>

definition uniq :: "buf list \<Rightarrow> bool" where
  "uniq bs \<longleftrightarrow> (\<forall>i<NBUF. \<forall>j<NBUF. b_dev (bs ! i) = ROOTDEV \<longrightarrow> b_dev (bs ! j) = ROOTDEV \<longrightarrow>
     b_blockno (bs ! i) = b_blockno (bs ! j) \<longrightarrow> i = j)"

definition buf_ok :: "(nat \<Rightarrow> block) \<Rightarrow> sleeplock \<Rightarrow> buf \<Rightarrow> bool" where
  "buf_ok d l k \<longleftrightarrow> length (b_data k) = BSIZE \<and> (b_refcnt k \<noteq> 0 \<longrightarrow> b_dev k = ROOTDEV \<and> b_valid k) \<and>
     (b_refcnt k = 0 \<longrightarrow> sk_locked l = 0) \<and>
     (b_refcnt k = 0 \<longrightarrow> b_dev k = ROOTDEV \<longrightarrow> b_valid k \<longrightarrow> b_data k = d (b_blockno k))"

definition cache_ok :: "buf list \<Rightarrow> (slid \<Rightarrow> sleeplock) \<Rightarrow> (nat \<Rightarrow> block) \<Rightarrow> bool" where
  "cache_ok bs sl d \<longleftrightarrow> (\<exists>xs. lru bs xs) \<and> uniq bs \<and> (\<forall>n. length (d n) = BSIZE) \<and>
     (\<forall>i<NBUF. buf_ok d (sl (SL_buf i)) (bs ! i))"

definition bc_inv :: "'z bio_st_scheme \<Rightarrow> bool" where
  "bc_inv s \<longleftrightarrow> cache_ok (bufs s) (slocks s) (disk s) \<and> in_proc s \<and>
     L_bcache \<notin> set (held s) \<and> (\<forall>i. L_buf i \<notin> set (held s))"

definition handle :: "'z bio_st_scheme \<Rightarrow> nat \<Rightarrow> nat option" where
  "handle s n = fnd (bufs s) n"

text \<open>The rest of the state: only process states may change, by wakeups, and messages be printed.\<close>

definition same_procs :: "proc list \<Rightarrow> proc list \<Rightarrow> bool" where
  "same_procs ps qs \<longleftrightarrow> length qs = length ps \<and> (\<forall>i<length ps. \<exists>st. qs ! i = (ps ! i)\<lparr>p_state := st\<rparr>)"

definition bframe :: "'z bio_st_scheme \<Rightarrow> 'z bio_st_scheme \<Rightarrow> bool" where
  "bframe s t \<longleftrightarrow> (\<exists>kl ps sl bs d tr. same_procs (procs s) ps \<and>
     t = s\<lparr>klog := kl, procs := ps, slocks := sl, bufs := bs, disk := d, disk_trace := tr\<rparr>)"

lemma same_procs_refl [simp]: "same_procs ps ps"
  unfolding same_procs_def by (metis proc.surjective proc.update_convs(1))

lemma same_procs_trans: "same_procs ps qs \<Longrightarrow> same_procs qs rs \<Longrightarrow> same_procs ps rs"
  by (fastforce simp: same_procs_def)

lemma same_procs_awake [simp]: "same_procs ps (awake_procs c me ps)"
  unfolding same_procs_def
proof (intro conjI allI impI)
  fix i assume i: "i < length ps"
  show "\<exists>st. awake_procs c me ps ! i = (ps ! i)\<lparr>p_state := st\<rparr>"
  proof (cases "me \<noteq> Some i \<and> p_state (ps ! i) = SLEEPING \<and> p_chan (ps ! i) = c")
    case True
    with i show ?thesis by (intro exI [of _ RUNNABLE]) (simp add: awake_def)
  next
    case False
    with i show ?thesis by (intro exI [of _ "p_state (ps ! i)"]) (auto simp: awake_def)
  qed
qed simp

lemma bframeI: "same_procs (procs s) ps \<Longrightarrow>
    t = s\<lparr>procs := ps, slocks := sl, bufs := bs, disk := d, disk_trace := tr\<rparr> \<Longrightarrow> bframe s t"
  unfolding bframe_def
  by (rule exI [of _ "klog s"], rule exI [of _ ps], rule exI [of _ sl], rule exI [of _ bs],
      rule exI [of _ d], rule exI [of _ tr]) simp

lemma bframe_klog [simp]: "bframe s (s\<lparr>klog := k\<rparr>)"
  unfolding bframe_def
  by (rule exI [of _ k], rule exI [of _ "procs s"], rule exI [of _ "slocks s"], rule exI [of _ "bufs s"],
      rule exI [of _ "disk s"], rule exI [of _ "disk_trace s"]) simp

lemma bview_klog [simp]: "bview (s\<lparr>klog := k\<rparr>) = bview s" "bc_inv (s\<lparr>klog := k\<rparr>) = bc_inv s"
  "handle (s\<lparr>klog := k\<rparr>) = handle s" "mypid (s\<lparr>klog := k\<rparr>) = mypid s"
  by (simp_all add: bview_def bc_inv_def in_proc_def mypid_def handle_def fun_eq_iff)

lemma bframe_refl [simp]: "bframe s s"
  by (rule bframeI [where ps = "procs s" and sl = "slocks s" and bs = "bufs s" and d = "disk s"
        and tr = "disk_trace s"]) simp_all

lemma bframe_trans: "bframe s t \<Longrightarrow> bframe t u \<Longrightarrow> bframe s u"
  unfolding bframe_def by (elim exE conjE) (simp, blast intro: same_procs_trans)

lemma same_procs_pid: "same_procs ps qs \<Longrightarrow> i < length ps \<Longrightarrow> p_pid (qs ! i) = p_pid (ps ! i)"
  by (auto simp: same_procs_def)

lemma bframe_mypid: "bframe s t \<Longrightarrow> in_proc s \<Longrightarrow> mypid t = mypid s"
  by (auto simp: bframe_def mypid_def in_proc_def same_procs_pid)

lemma bframe_held: "bframe s t \<Longrightarrow> held t = held s"
  by (auto simp: bframe_def)

lemma bframe_curproc: "bframe s t \<Longrightarrow> curproc t = curproc s"
  by (auto simp: bframe_def)

lemma bframe_in_proc: "bframe s t \<Longrightarrow> in_proc t = in_proc s"
  by (auto simp: bframe_def in_proc_def same_procs_def)

section \<open>Finding buffers\<close>

lemma find_SomeD: "find P xs = Some x \<Longrightarrow> P x \<and> x \<in> set xs"
  by (induction xs) (auto split: if_splits)

lemma fnd_Some: "fnd bs n = Some i \<Longrightarrow> i < NBUF \<and> b_dev (bs ! i) = ROOTDEV \<and> b_blockno (bs ! i) = n"
  by (auto simp: fnd_def find_Some_iff)

lemma fnd_None: "fnd bs n = None \<longleftrightarrow> (\<forall>i<NBUF. \<not> (b_dev (bs ! i) = ROOTDEV \<and> b_blockno (bs ! i) = n))"
  by (auto simp: fnd_def find_None_iff)

lemma uniqD: "uniq bs \<Longrightarrow> i < NBUF \<Longrightarrow> j < NBUF \<Longrightarrow> b_dev (bs ! i) = ROOTDEV \<Longrightarrow>
    b_dev (bs ! j) = ROOTDEV \<Longrightarrow> b_blockno (bs ! i) = b_blockno (bs ! j) \<Longrightarrow> i = j"
  by (simp add: uniq_def)

lemma fnd_iff:
  assumes "uniq bs"
  shows "fnd bs n = Some i \<longleftrightarrow> i < NBUF \<and> b_dev (bs ! i) = ROOTDEV \<and> b_blockno (bs ! i) = n"
proof
  assume r: "i < NBUF \<and> b_dev (bs ! i) = ROOTDEV \<and> b_blockno (bs ! i) = n"
  then obtain j where j: "fnd bs n = Some j" using fnd_None [of bs n] by (cases "fnd bs n") auto
  with fnd_Some [OF j] r assms have "j = i" by (auto simp: uniq_def)
  with j show "fnd bs n = Some i" by simp
qed (rule fnd_Some)

lemma fnd_eqI:
  assumes "uniq bs" "uniq bs'"
    "\<And>i. i < NBUF \<Longrightarrow> (b_dev (bs ! i) = ROOTDEV \<and> b_blockno (bs ! i) = n) =
                      (b_dev (bs' ! i) = ROOTDEV \<and> b_blockno (bs' ! i) = n)"
  shows "fnd bs n = fnd bs' n"
proof (cases "fnd bs' n")
  case None
  with assms(3) have "fnd bs n = None" by (auto simp: fnd_None)
  with None show ?thesis by simp
next
  case (Some i)
  with fnd_Some [OF Some] assms have "fnd bs n = Some i" by (simp add: fnd_iff)
  with Some show ?thesis by simp
qed

lemma find_unique:
  assumes "uniq bs" "set xs = {..<NBUF}"
  shows "find (\<lambda>i. b_dev (bs ! i) = ROOTDEV \<and> b_blockno (bs ! i) = n) xs = fnd bs n"
proof (cases "fnd bs n")
  case None
  with assms(2) have "find (\<lambda>i. b_dev (bs ! i) = ROOTDEV \<and> b_blockno (bs ! i) = n) xs = None"
    by (auto simp: find_None_iff fnd_None)
  with None show ?thesis by simp
next
  case (Some i)
  then have "find (\<lambda>i. b_dev (bs ! i) = ROOTDEV \<and> b_blockno (bs ! i) = n) xs \<noteq> None"
    using assms fnd_Some [OF Some] by (auto simp: find_None_iff)
  then obtain j where j: "find (\<lambda>i. b_dev (bs ! i) = ROOTDEV \<and> b_blockno (bs ! i) = n) xs = Some j" by auto
  then have "j < NBUF \<and> b_dev (bs ! j) = ROOTDEV \<and> b_blockno (bs ! j) = n"
    using assms(2) find_SomeD [OF j] by simp
  with assms(1) have "fnd bs n = Some j" by (simp add: fnd_iff)
  with j show ?thesis by simp
qed

text \<open>The view depends on the buffers apart from their links.\<close>

lemma core_fnd: "(\<And>i. core (bs' ! i) = core (bs ! i)) \<Longrightarrow> fnd bs' n = fnd bs n"
  unfolding fnd_def by (simp add: coreD [where k = "bs' ! i" and k' = "bs ! i" for i])

section \<open>Changing one buffer\<close>

lemma nfree_upd:
  assumes "length bs = Suc NBUF" "b < NBUF"
  shows "nfree (bs[b := k]) + (if b_refcnt (bs ! b) = 0 then 1 else 0) =
     nfree bs + (if b_refcnt k = 0 then 1 else 0)"
proof -
  let ?A = "{i. i < NBUF \<and> i \<noteq> b \<and> b_refcnt (bs ! i) = 0}"
  have "{i. i < NBUF \<and> b_refcnt (bs ! i) = 0} = (if b_refcnt (bs ! b) = 0 then insert b ?A else ?A)"
    "{i. i < NBUF \<and> b_refcnt (bs[b := k] ! i) = 0} = (if b_refcnt k = 0 then insert b ?A else ?A)"
    using assms by (auto simp: nth_list_update)
  moreover have "finite ?A" "b \<notin> ?A" by auto
  ultimately show ?thesis by (simp add: nfree_def)
qed

lemma fnd_upd_key:
  assumes "uniq bs" "length bs = Suc NBUF" "b < NBUF"
    "b_dev k = b_dev (bs ! b)" "b_blockno k = b_blockno (bs ! b)"
  shows "uniq (bs[b := k])" "fnd (bs[b := k]) = fnd bs"
proof -
  have *: "b_dev (bs[b := k] ! i) = b_dev (bs ! i) \<and> b_blockno (bs[b := k] ! i) = b_blockno (bs ! i)" for i
    using assms by (cases "i = b") auto
  then show "uniq (bs[b := k])" using assms(1) by (simp add: uniq_def)
  with assms(1) * show "fnd (bs[b := k]) = fnd bs" by (intro ext fnd_eqI) auto
qed

lemma view_upd_key:
  assumes "uniq bs" "length bs = Suc NBUF" "fnd bs n = Some b"
    "b_dev k = b_dev (bs ! b)" "b_blockno k = b_blockno (bs ! b)"
  shows "refs (bs[b := k]) = (refs bs)(n := unat (b_refcnt k))"
    "cont (bs[b := k]) d = (cont bs d)(n := if b_valid k then b_data k else d n)"
    "lckd (bs[b := k]) sl = lckd bs sl"
proof -
  note b = fnd_Some [OF assms(3)]
  have f: "fnd (bs[b := k]) = fnd bs" using fnd_upd_key [OF assms(1,2) _ assms(4,5)] b by simp
  have o: "i \<noteq> b" if "fnd bs m = Some i" "m \<noteq> n" for m i
    using fnd_Some [OF that(1)] b that(2) by auto
  show "refs (bs[b := k]) = (refs bs)(n := unat (b_refcnt k))"
    "cont (bs[b := k]) d = (cont bs d)(n := if b_valid k then b_data k else d n)"
    "lckd (bs[b := k]) sl = lckd bs sl"
    using assms(2,3) b o
    by (auto simp: fun_eq_iff refs_def cont_def lckd_def f nth_list_update split: option.splits)
qed

lemma lckd_upd:
  assumes "fnd bs n = Some b"
  shows "lckd bs (sl(SL_buf b := l)) = (lckd bs sl)(n := if sk_locked l = 0 then None else Some (sk_pid l))"
proof -
  have o: "i \<noteq> b" if "fnd bs m = Some i" "m \<noteq> n" for m i
    using fnd_Some [OF that(1)] fnd_Some [OF assms] that(2) by auto
  then show ?thesis using assms by (auto simp: fun_eq_iff lckd_def split: option.splits)
qed

lemma fnd_recycle:
  assumes "uniq bs" "length bs = Suc NBUF" "fnd bs n = None" "b < NBUF"
    "b_dev k = ROOTDEV" "b_blockno k = n"
  shows "uniq (bs[b := k])"
    "fnd (bs[b := k]) m = (if m = n then Some b else if fnd bs m = Some b then None else fnd bs m)"
proof -
  have none: "\<not> (b_dev (bs ! i) = ROOTDEV \<and> b_blockno (bs ! i) = n)" if "i < NBUF" for i
    using assms(3) that by (auto simp: fnd_None)
  show u: "uniq (bs[b := k])"
    unfolding uniq_def
  proof (intro allI impI)
    fix i j assume ij: "i < NBUF" "j < NBUF" and d: "b_dev (bs[b := k] ! i) = ROOTDEV"
      "b_dev (bs[b := k] ! j) = ROOTDEV" "b_blockno (bs[b := k] ! i) = b_blockno (bs[b := k] ! j)"
    have "bs[b := k] ! b = k" using assms(2,4) by simp
    with ij d none [of i] none [of j] assms(5,6) uniqD [OF assms(1) ij] show "i = j"
      by (cases "i = b"; cases "j = b") simp_all
  qed
  show "fnd (bs[b := k]) m = (if m = n then Some b else if fnd bs m = Some b then None else fnd bs m)"
  proof (cases "m = n")
    case True
    then show ?thesis using assms by (simp add: fnd_iff [OF u])
  next
    case False
    show ?thesis
    proof (cases "fnd bs m")
      case None
      with False assms have "fnd (bs[b := k]) m = None" by (auto simp: fnd_None nth_list_update)
      with False None show ?thesis by simp
    next
      case (Some i)
      note i = fnd_Some [OF Some]
      show ?thesis
      proof (cases "i = b")
        case True
        have "\<not> (b_dev (bs[b := k] ! j) = ROOTDEV \<and> b_blockno (bs[b := k] ! j) = m)" if "j < NBUF" for j
          using uniqD [OF assms(1) that, of b] assms(2,4,6) False True i by (cases "j = b") auto
        then have "fnd (bs[b := k]) m = None" by (simp add: fnd_None)
        with True Some False show ?thesis by simp
      next
        case neq: False
        with i assms have "fnd (bs[b := k]) m = Some i" by (simp add: fnd_iff [OF u])
        with neq Some False show ?thesis by simp
      qed
    qed
  qed
qed

lemma view_recycle:
  assumes "uniq bs" "length bs = Suc NBUF" "fnd bs n = None" "b < NBUF"
    "b_dev k = ROOTDEV" "b_blockno k = n" "buf_ok d (sl (SL_buf b)) (bs ! b)" "b_refcnt (bs ! b) = 0"
  shows "refs (bs[b := k]) = (refs bs)(n := unat (b_refcnt k))"
    "cont (bs[b := k]) d = (cont bs d)(n := if b_valid k then b_data k else d n)"
    "lckd (bs[b := k]) sl = lckd bs sl"
proof -
  note f = fnd_recycle [OF assms(1-6)]
  have other: "i \<noteq> b \<Longrightarrow> bs[b := k] ! i = bs ! i" for i by simp
  have self: "bs[b := k] ! b = k" using assms(2,4) by simp
  have ok: "b_valid (bs ! b) \<Longrightarrow> b_dev (bs ! b) = ROOTDEV \<Longrightarrow> b_data (bs ! b) = d (b_blockno (bs ! b))"
    "sk_locked (sl (SL_buf b)) = 0"
    using assms(7,8) by (auto simp: buf_ok_def)
  show "refs (bs[b := k]) = (refs bs)(n := unat (b_refcnt k))"
    using assms(8) self by (auto simp: fun_eq_iff refs_def f(2) split: option.splits)
  show "lckd (bs[b := k]) sl = lckd bs sl"
    using assms(3) ok(2) by (auto simp: fun_eq_iff lckd_def f(2) split: option.splits)
  show "cont (bs[b := k]) d = (cont bs d)(n := if b_valid k then b_data k else d n)"
  proof
    fix m
    show "cont (bs[b := k]) d m = ((cont bs d)(n := if b_valid k then b_data k else d n)) m"
    proof (cases "fnd bs m = Some b \<and> m \<noteq> n")
      case True
      with fnd_Some [of bs m b] ok(1) show ?thesis by (simp add: cont_def f(2))
    next
      case False
      with self show ?thesis by (auto simp: cont_def f(2) split: option.splits)
    qed
  qed
qed

section \<open>The functions on the view\<close>

lemma bc_invD:
  assumes "bc_inv s"
  shows "uniq (bufs s)" "length (bufs s) = Suc NBUF" "in_proc s" "L_bcache \<notin> set (held s)"
    "L_buf i \<notin> set (held s)" "i < NBUF \<Longrightarrow> buf_ok (disk s) (slocks s (SL_buf i)) (bufs s ! i)"
    "\<exists>xs. lru (bufs s) xs" "length (disk s n) = BSIZE"
  using assms by (auto simp: bc_inv_def cache_ok_def lru_def)

lemma lru_hd_last:
  assumes "lru bs xs"
  shows "nx bs head = hd (xs @ [head])" "pv bs head = hd (rev xs @ [head])" "head \<notin> set xs"
    "length xs < Suc NBUF" "chain (nx bs) head xs head" "chain (pv bs) head (rev xs) head"
    "set xs = {..<NBUF}"
  using assms chain_first lru_length by (auto simp: lru_def)

lemma bget_hit:
  assumes "bc_inv s" "fnd (bufs s) n = Some b" "sk_locked (slocks s (SL_buf b)) = 0"
  shows "bget ROOTDEV n s = Ok b (s\<lparr>bufs := (bufs s)[b := (bufs s ! b)\<lparr>b_refcnt := b_refcnt (bufs s ! b) + 1\<rparr>],
     slocks := (slocks s)(SL_buf b := (slocks s (SL_buf b))\<lparr>sk_locked := 1, sk_pid := mypid s\<rparr>)\<rparr>)"
proof -
  note inv = bc_invD [OF assms(1)]
  from inv(7) obtain xs where xs: "lru (bufs s) xs" by blast
  note l = lru_hd_last [OF xs]
  let ?s = "s\<lparr>held := L_bcache # held s\<rparr>"
  have c: "bget_cached (Suc NBUF) (nx (bufs s) head) ROOTDEV n ?s = Ok (Some b) ?s"
    using bget_cached_run [of ?s head xs "Suc NBUF" ROOTDEV n] l find_unique [OF inv(1) l(7), of n] assms(2)
    by (simp del: bget_cached.simps)
  have a: "in_proc (s\<lparr>bufs := bs\<rparr>)" "mypid (s\<lparr>bufs := bs\<rparr>) = mypid s" for bs
    using inv(3) by (simp_all add: in_proc_def mypid_def)
  show ?thesis
    using inv(4) inv(5) [of b] c assms(3) a
    by (simp add: bget_def bnd_run sq_run acquiresleep_free del: bget_cached.simps)
qed

text \<open>A block that is not cached: the scan from the least recently used end decides.\<close>

lemma bget_not_cached:
  assumes "bc_inv s" "lru (bufs s) xs" "fnd (bufs s) n = None"
  shows "bget ROOTDEV n s = (case find (\<lambda>b. b_refcnt (bufs s ! b) = 0) (rev xs) of
       None \<Rightarrow> Panic ''bget: no buffers''
     | Some b \<Rightarrow> Ok b (s\<lparr>bufs := (bufs s)[b := (bufs s ! b)
           \<lparr>b_dev := ROOTDEV, b_blockno := n, b_valid := False, b_refcnt := 1\<rparr>],
         slocks := (slocks s)(SL_buf b := (slocks s (SL_buf b))\<lparr>sk_locked := 1, sk_pid := mypid s\<rparr>)\<rparr>))"
proof -
  note inv = bc_invD [OF assms(1)]
  note l = lru_hd_last [OF assms(2)]
  let ?s = "s\<lparr>held := L_bcache # held s\<rparr>"
  have c: "bget_cached (Suc NBUF) (nx (bufs s) head) ROOTDEV n ?s = Ok None ?s"
    using bget_cached_run [of ?s head xs "Suc NBUF" ROOTDEV n] l find_unique [OF inv(1) l(7), of n] assms(3)
    by (simp del: bget_cached.simps)
  let ?fr = "find (\<lambda>b. b_refcnt (bufs s ! b) = 0) (rev xs)"
  have u: "bget_unused (Suc NBUF) (pv (bufs s) head) ?s = Ok ?fr ?s"
    using bget_unused_run [of ?s head "rev xs" "Suc NBUF"] l by (simp del: bget_unused.simps)
  show ?thesis
  proof (cases ?fr)
    case None
    then show ?thesis using inv(4) c u
      by (simp add: bget_def bnd_run sq_run del: bget_cached.simps bget_unused.simps)
  next
    case (Some b)
    from find_SomeD [OF Some] have b: "b < NBUF" and r0: "b_refcnt (bufs s ! b) = 0" using l(7) by auto
    have lk: "sk_locked (slocks s (SL_buf b)) = 0" using inv(6) [OF b] r0 by (simp add: buf_ok_def)
    have a: "in_proc (s\<lparr>bufs := bs\<rparr>)" "mypid (s\<lparr>bufs := bs\<rparr>) = mypid s" for bs
      using inv(3) by (simp_all add: in_proc_def mypid_def)
    show ?thesis
      using inv(2,4) inv(5) [of b] c u Some lk a b
      by (simp add: bget_def bnd_run sq_run acquiresleep_free del: bget_cached.simps bget_unused.simps)
  qed
qed

lemma nfree_0: "nfree bs = 0 \<longleftrightarrow> (\<forall>i<NBUF. b_refcnt (bs ! i) \<noteq> 0)"
  by (auto simp: nfree_def)

lemma bget_miss:
  assumes "bc_inv s" "fnd (bufs s) n = None" "0 < nfree (bufs s)"
  shows "\<exists>b<NBUF. b_refcnt (bufs s ! b) = 0 \<and> bget ROOTDEV n s = Ok b
     (s\<lparr>bufs := (bufs s)[b := (bufs s ! b)\<lparr>b_dev := ROOTDEV, b_blockno := n, b_valid := False, b_refcnt := 1\<rparr>],
     slocks := (slocks s)(SL_buf b := (slocks s (SL_buf b))\<lparr>sk_locked := 1, sk_pid := mypid s\<rparr>)\<rparr>)"
proof -
  from bc_invD(7) [OF assms(1)] obtain xs where xs: "lru (bufs s) xs" by blast
  note l = lru_hd_last [OF xs]
  let ?fr = "find (\<lambda>b. b_refcnt (bufs s ! b) = 0) (rev xs)"
  have "\<exists>i<NBUF. b_refcnt (bufs s ! i) = 0" using assms(3) nfree_0 [of "bufs s"] by auto
  then have "?fr \<noteq> None" using l(7) by (auto simp: find_None_iff)
  then obtain b where fr: "?fr = Some b" by blast
  with find_SomeD [OF fr] l(7) bget_not_cached [OF assms(1) xs assms(2)] show ?thesis
    by (intro exI [of _ b]) simp
qed

lemma bget_full:
  assumes "bc_inv s" "fnd (bufs s) n = None" "nfree (bufs s) = 0"
  shows "bget ROOTDEV n s = Panic ''bget: no buffers''"
proof -
  from bc_invD(7) [OF assms(1)] obtain xs where xs: "lru (bufs s) xs" by blast
  have "find (\<lambda>b. b_refcnt (bufs s ! b) = 0) (rev xs) = None"
    using assms(3) lru_hd_last(7) [OF xs] by (auto simp: find_None_iff nfree_0)
  with bget_not_cached [OF assms(1) xs assms(2)] show ?thesis by simp
qed

lemma bread_run:
  assumes "bc_inv s" "lckd (bufs s) (slocks s) n = None" "0 < nfree (bufs s) \<or> 0 < refs (bufs s) n"
  shows "\<exists>b k. b < NBUF \<and> b_dev k = ROOTDEV \<and> b_blockno k = n \<and> b_valid k \<and>
     b_data k = cont (bufs s) (disk s) n \<and> b_next k = nx (bufs s) b \<and> b_prev k = pv (bufs s) b \<and>
     (if fnd (bufs s) n = None then b_refcnt (bufs s ! b) = 0 \<and> b_refcnt k = 1
      else fnd (bufs s) n = Some b \<and> b_refcnt k = b_refcnt (bufs s ! b) + 1) \<and>
     bread ROOTDEV n s = Ok b (s\<lparr>bufs := (bufs s)[b := k],
       slocks := (slocks s)(SL_buf b := (slocks s (SL_buf b))\<lparr>sk_locked := 1, sk_pid := mypid s\<rparr>)\<rparr>)"
proof (cases "fnd (bufs s) n")
  case None
  then have "0 < nfree (bufs s)" using assms(3) by (simp add: refs_def)
  from bget_miss [OF assms(1) None this] obtain b where b: "b < NBUF" "b_refcnt (bufs s ! b) = 0"
    "bget ROOTDEV n s = Ok b (s\<lparr>bufs := (bufs s)[b := (bufs s ! b)\<lparr>b_dev := ROOTDEV,
        b_blockno := n, b_valid := False, b_refcnt := 1\<rparr>],
      slocks := (slocks s)(SL_buf b := (slocks s (SL_buf b))\<lparr>sk_locked := 1, sk_pid := mypid s\<rparr>)\<rparr>)"
    by blast
  let ?k = "(bufs s ! b)\<lparr>b_dev := ROOTDEV, b_blockno := n, b_valid := False, b_refcnt := 1,
      b_data := disk s n, b_valid := True\<rparr>"
  have "bread ROOTDEV n s = Ok b (s\<lparr>bufs := (bufs s)[b := ?k],
       slocks := (slocks s)(SL_buf b := (slocks s (SL_buf b))\<lparr>sk_locked := 1, sk_pid := mypid s\<rparr>)\<rparr>)"
    using b bc_invD(2) [OF assms(1)] by (simp add: bread_def bnd_run sq_run disk_rw_def)
  with b None show ?thesis by (intro exI [of _ b] exI [of _ ?k]) (simp add: cont_def)
next
  case (Some b)
  note b = fnd_Some [OF Some]
  have "sk_locked (slocks s (SL_buf b)) = 0" using assms(2) Some by (simp add: lckd_def split: if_splits)
  note g = bget_hit [OF assms(1) Some this]
  let ?k = "(bufs s ! b)\<lparr>b_refcnt := b_refcnt (bufs s ! b) + 1, b_valid := True,
      b_data := cont (bufs s) (disk s) n\<rparr>"
  have "bread ROOTDEV n s = Ok b (s\<lparr>bufs := (bufs s)[b := ?k],
       slocks := (slocks s)(SL_buf b := (slocks s (SL_buf b))\<lparr>sk_locked := 1, sk_pid := mypid s\<rparr>)\<rparr>)"
    using b Some g bc_invD(2) [OF assms(1)]
    by (cases "bufs s ! b") (auto simp: bread_def bnd_run sq_run disk_rw_def cont_def)
  with b Some show ?thesis by (intro exI [of _ b] exI [of _ ?k]) simp
qed

lemma cache_ok_upd:
  assumes "cache_ok bs sl d" "b < NBUF" "uniq (bs[b := k])" "buf_ok d l k"
    "b_next k = nx bs b" "b_prev k = pv bs b"
  shows "cache_ok (bs[b := k]) (sl(SL_buf b := l)) d"
proof -
  have "\<exists>xs. lru (bs[b := k]) xs" using assms(1,5,6) by (simp add: cache_ok_def lru_upd)
  moreover have "buf_ok d ((sl(SL_buf b := l)) (SL_buf i)) (bs[b := k] ! i)" if "i < NBUF" for i
    using assms(1,2,4) that by (cases "i = b") (auto simp: cache_ok_def lru_def)
  ultimately show ?thesis using assms(1,3) by (simp add: cache_ok_def)
qed

text \<open>A buffer that \<open>bread\<close> has (re)used for block \<open>n\<close>.\<close>

definition fetched :: "buf list \<Rightarrow> (nat \<Rightarrow> block) \<Rightarrow> nat \<Rightarrow> nat \<Rightarrow> buf \<Rightarrow> bool" where
  "fetched bs d n b k \<longleftrightarrow> b < NBUF \<and> b_dev k = ROOTDEV \<and> b_blockno k = n \<and> b_valid k \<and>
     b_data k = cont bs d n \<and> b_next k = nx bs b \<and> b_prev k = pv bs b \<and>
     (if fnd bs n = None then b_refcnt (bs ! b) = 0 \<and> b_refcnt k = 1
      else fnd bs n = Some b \<and> b_refcnt k = b_refcnt (bs ! b) + 1)"

lemma fetched_view:
  assumes "fetched bs d n b k" "cache_ok bs sl d"
  shows "uniq (bs[b := k])" "fnd (bs[b := k]) n = Some b"
    "refs (bs[b := k]) = (refs bs)(n := unat (b_refcnt k))"
    "cont (bs[b := k]) d = cont bs d" "lckd (bs[b := k]) sl = lckd bs sl"
    "0 < refs bs m \<Longrightarrow> fnd (bs[b := k]) m = fnd bs m"
proof -
  have u: "uniq bs" "length bs = Suc NBUF" "buf_ok d (sl (SL_buf b)) (bs ! b)"
    and b: "b < NBUF" "b_dev k = ROOTDEV" "b_blockno k = n" "b_valid k" "b_data k = cont bs d n"
    using assms unfolding cache_ok_def lru_def fetched_def by blast+
  have same: "(cont bs d)(n := if b_valid k then b_data k else d n) = cont bs d"
    using b(4,5) by simp
  consider "fnd bs n = None" "b_refcnt (bs ! b) = 0" | "fnd bs n = Some b"
    using assms(1) unfolding fetched_def by (metis (full_types))
  then have "uniq (bs[b := k]) \<and> fnd (bs[b := k]) n = Some b \<and>
      refs (bs[b := k]) = (refs bs)(n := unat (b_refcnt k)) \<and>
      cont (bs[b := k]) d = cont bs d \<and> lckd (bs[b := k]) sl = lckd bs sl \<and>
      (0 < refs bs m \<longrightarrow> fnd (bs[b := k]) m = fnd bs m)"
  proof cases
    case 1
    note f = fnd_recycle [OF u(1,2) 1(1) b(1-3)]
    note w = view_recycle [where sl = sl, OF u(1,2) 1(1) b(1-3) u(3) 1(2)]
    have "fnd (bs[b := k]) m = fnd bs m" if "0 < refs bs m"
      using that 1 unfolding f(2) refs_def by (auto split: option.splits)
    then show ?thesis using f(1) f(2) [of n] w(1,3) w(2) [unfolded same] by simp
  next
    case 2
    have key: "b_dev k = b_dev (bs ! b)" "b_blockno k = b_blockno (bs ! b)"
      using b fnd_Some [OF 2] by auto
    note w = view_upd_key [OF u(1,2) 2 key]
    show ?thesis
      using fnd_upd_key [OF u(1,2) b(1) key] w(1,3) w(2) [of d, unfolded same] 2 by simp
  qed
  then show "uniq (bs[b := k])" "fnd (bs[b := k]) n = Some b"
    "refs (bs[b := k]) = (refs bs)(n := unat (b_refcnt k))"
    "cont (bs[b := k]) d = cont bs d" "lckd (bs[b := k]) sl = lckd bs sl"
    "0 < refs bs m \<Longrightarrow> fnd (bs[b := k]) m = fnd bs m" by blast+
qed

lemma fetched_refcnt:
  assumes "fetched bs d n b k" "refs bs n < 2 ^ 32 - 1"
  shows "unat (b_refcnt k) = refs bs n + 1" "refs bs n = 0 \<longleftrightarrow> b_refcnt (bs ! b) = 0"
  using assms by (auto simp: fetched_def refs_def unat_word_ariths unat_eq_0 split: if_splits)

lemma cont_length: "cache_ok bs sl d \<Longrightarrow> length (cont bs d n) = BSIZE"
  using fnd_Some by (fastforce simp: cache_ok_def cont_def buf_ok_def split: option.splits)

lemma bread_spec:
  assumes inv: "bc_inv s" and lk: "vlock (bview s) n = None"
    and room: "0 < vfree (bview s) \<or> 0 < vrefs (bview s) n" and bd: "vrefs (bview s) n < 2 ^ 32 - 1"
  shows "\<exists>b t. bread ROOTDEV n s = Ok b t \<and> bframe s t \<and> bc_inv t \<and> handle t n = Some b \<and>
     b_data (bufs t ! b) = vcont (bview s) n \<and>
     bview t = (bview s)\<lparr>vrefs := (vrefs (bview s))(n := vrefs (bview s) n + 1),
       vlock := (vlock (bview s))(n := Some (mypid s)),
       vfree := vfree (bview s) - (if vrefs (bview s) n = 0 then 1 else 0)\<rparr> \<and>
     (\<forall>m. 0 < vrefs (bview s) m \<longrightarrow> handle t m = handle s m)"
proof -
  let ?bs = "bufs s" and ?sl = "slocks s"
  have ok: "cache_ok ?bs ?sl (disk s)" and len: "length ?bs = Suc NBUF"
    using inv bc_invD(2) by (auto simp: bc_inv_def)
  have "lckd ?bs ?sl n = None" "0 < nfree ?bs \<or> 0 < refs ?bs n" using lk room by (auto simp: bview_def)
  from bread_run [OF inv this] obtain b k where f: "fetched ?bs (disk s) n b k"
    and r: "bread ROOTDEV n s = Ok b (s\<lparr>bufs := ?bs[b := k],
       slocks := ?sl(SL_buf b := (?sl (SL_buf b))\<lparr>sk_locked := 1, sk_pid := mypid s\<rparr>)\<rparr>)"
    unfolding fetched_def by blast
  have b: "b < NBUF" "b_dev k = ROOTDEV" "b_valid k" "b_data k = cont ?bs (disk s) n" "b_next k = nx ?bs b" "b_prev k = pv ?bs b"
    using f by (auto simp: fetched_def)
  let ?l = "(?sl (SL_buf b))\<lparr>sk_locked := 1, sk_pid := mypid s\<rparr>"
  let ?t = "s\<lparr>bufs := ?bs[b := k], slocks := ?sl(SL_buf b := ?l)\<rparr>"
  have rb: "unat (b_refcnt k) = refs ?bs n + 1" "refs ?bs n = 0 \<longleftrightarrow> b_refcnt (?bs ! b) = 0"
    using fetched_refcnt [OF f] bd by (auto simp: bview_def)
  then have nz: "b_refcnt k \<noteq> 0" by auto
  note v = fetched_view [OF f ok]
  have fr: "nfree (?bs[b := k]) = nfree ?bs - (if refs ?bs n = 0 then 1 else 0)"
    using nfree_upd [OF len b(1), of k] rb nz by auto
  have "cache_ok (?bs[b := k]) (?sl(SL_buf b := ?l)) (disk s)"
    using cont_length [OF ok, of n] nz b by (intro cache_ok_upd [OF ok b(1) v(1)]) (auto simp: buf_ok_def)
  then have "bc_inv ?t" using inv by (auto simp: bc_inv_def in_proc_def)
  moreover have "bframe s ?t"
    by (rule bframeI [where ps = "procs s" and sl = "slocks ?t" and bs = "bufs ?t" and d = "disk s"
          and tr = "disk_trace s"]) simp_all
  moreover have "bview ?t = (bview s)\<lparr>vrefs := (vrefs (bview s))(n := vrefs (bview s) n + 1),
       vlock := (vlock (bview s))(n := Some (mypid s)),
       vfree := vfree (bview s) - (if vrefs (bview s) n = 0 then 1 else 0)\<rparr>"
    using v fr rb by (simp add: bview_def lckd_upd [OF v(2)])
  ultimately show ?thesis using r v b len
    by (intro exI [of _ b] exI [of _ ?t]) (simp add: handle_def bview_def)
qed

text \<open>A change of the current content, as the holder of the lock makes it.\<close>

lemma bset_data_spec:
  assumes inv: "bc_inv s" and h: "handle s n = Some b" and r: "0 < vrefs (bview s) n"
    and len: "length (f (b_data (bufs s ! b))) = BSIZE"
  shows "\<exists>t. bset b (\<lambda>k. k\<lparr>b_data := f (b_data k)\<rparr>) s = Ok () t \<and> bframe s t \<and> bc_inv t \<and>
     handle t = handle s \<and> b_data (bufs t ! b) = f (b_data (bufs s ! b)) \<and>
     bview t = (bview s)\<lparr>vcont := (vcont (bview s))(n := f (b_data (bufs s ! b)))\<rparr>"
proof -
  let ?bs = "bufs s" and ?sl = "slocks s" and ?k = "(bufs s ! b)\<lparr>b_data := f (b_data (bufs s ! b))\<rparr>"
  let ?t = "s\<lparr>bufs := ?bs[b := ?k]\<rparr>"
  have ok: "cache_ok ?bs ?sl (disk s)" and l: "length ?bs = Suc NBUF" and u: "uniq ?bs"
    using inv bc_invD(1,2) by (auto simp: bc_inv_def)
  have b: "fnd ?bs n = Some b" "b < NBUF" using h fnd_Some by (auto simp: handle_def)
  have nz: "b_refcnt (?bs ! b) \<noteq> 0" using r b by (auto simp: bview_def refs_def)
  then have v: "b_valid (?bs ! b)" using ok b(2) unfolding cache_ok_def buf_ok_def by blast
  note w = fnd_upd_key [OF u l b(2), of ?k] view_upd_key [OF u l b(1), of ?k]
  have "cache_ok (?bs[b := ?k]) (?sl(SL_buf b := ?sl (SL_buf b))) (disk s)"
    using ok b(2) len nz w(1) by (intro cache_ok_upd) (auto simp: buf_ok_def cache_ok_def)
  then have "bc_inv ?t" using inv by (auto simp: bc_inv_def in_proc_def)
  moreover have "bframe s ?t"
    by (rule bframeI [where ps = "procs s" and sl = "slocks s" and bs = "bufs ?t" and d = "disk s"
          and tr = "disk_trace s"]) simp_all
  moreover have "nfree (?bs[b := ?k]) = nfree ?bs" using nfree_upd [OF l b(2), of ?k] by simp
  moreover have "(refs ?bs)(n := unat (b_refcnt (?bs ! b))) = refs ?bs" using b by (auto simp: refs_def)
  ultimately show ?thesis using w v l b(2)
    by (intro exI [of _ ?t]) (simp add: bview_def handle_def fun_eq_iff)
qed

lemma bwrite_spec:
  assumes inv: "bc_inv s" and h: "handle s n = Some b" and r: "0 < vrefs (bview s) n"
    and lk: "vlock (bview s) n = Some (mypid s)"
  shows "\<exists>t. bwrite b s = Ok () t \<and> bframe s t \<and> bc_inv t \<and> handle t = handle s \<and>
     (\<lambda>i. b_data (bufs t ! i)) = (\<lambda>i. b_data (bufs s ! i)) \<and>
     bview t = (bview s)\<lparr>vdisk := (vdisk (bview s))(n := vcont (bview s) n),
       vtrace := vtrace (bview s) @ [(n, vcont (bview s) n)]\<rparr>"
proof -
  note i = bc_invD [OF inv]
  let ?bs = "bufs s" and ?d = "b_data (bufs s ! b)"
  have b: "fnd ?bs n = Some b" "b < NBUF" "b_blockno (?bs ! b) = n"
    using h fnd_Some by (auto simp: handle_def)
  have "b_refcnt (?bs ! b) \<noteq> 0" using r b by (auto simp: bview_def refs_def)
  then have v: "b_valid (?bs ! b)" using i(6) [OF b(2)] unfolding buf_ok_def by blast
  have c: "vcont (bview s) n = ?d" using b v by (simp add: bview_def cont_def)
  let ?t = "s\<lparr>disk := (disk s)(n := ?d), disk_trace := disk_trace s @ [(n, ?d)]\<rparr>"
  have "held_by_me s (SL_buf b)"
    using lk b by (auto simp: bview_def lckd_def held_by_me_def split: if_splits)
  then have "bwrite b s = Ok () ?t"
    using i(3) i(5) [of b] b(3) by (simp add: bwrite_def bnd_run sq_run holdingsleep_run disk_rw_def)
  moreover have "buf_ok ((disk s)(n := ?d)) (slocks s (SL_buf j)) (?bs ! j)" if "j < NBUF" for j
  proof (cases "j = b")
    case True
    have "b_refcnt (?bs ! b) \<noteq> 0" using r b by (auto simp: bview_def refs_def)
    with True i(6) [OF that] show ?thesis by (simp add: buf_ok_def)
  next
    case False
    then have "b_dev (?bs ! j) = ROOTDEV \<Longrightarrow> b_blockno (?bs ! j) \<noteq> n"
      using uniqD [OF i(1) that b(2)] fnd_Some [OF b(1)] by auto
    with i(6) [OF that] show ?thesis by (auto simp: buf_ok_def)
  qed
  then have "bc_inv ?t" using inv i(6) [OF b(2)]
    by (auto simp: bc_inv_def cache_ok_def in_proc_def buf_ok_def)
  moreover have "bframe s ?t"
    by (rule bframeI [where ps = "procs s" and sl = "slocks s" and bs = "bufs s" and d = "disk ?t"
          and tr = "disk_trace ?t"]) simp_all
  moreover have "cont ?bs ((disk s)(n := ?d)) = cont ?bs (disk s)"
    using b v by (auto simp: fun_eq_iff cont_def split: option.splits)
  ultimately show ?thesis using c by (intro exI [of _ ?t]) (simp add: bview_def handle_def fun_eq_iff)
qed

lemma core_view:
  assumes "\<And>i. core (bs' ! i) = core (bs ! i)"
  shows "fnd bs' = fnd bs" "cont bs' d = cont bs d" "refs bs' = refs bs" "lckd bs' sl = lckd bs sl"
    "nfree bs' = nfree bs" "uniq bs' = uniq bs" "buf_ok d l (bs' ! i) = buf_ok d l (bs ! i)"
proof -
  note c = coreD [OF assms]
  show f: "fnd bs' = fnd bs" using core_fnd [OF assms] by blast
  show "cont bs' d = cont bs d" "refs bs' = refs bs" "lckd bs' sl = lckd bs sl"
    by (simp_all add: fun_eq_iff cont_def refs_def lckd_def f c split: option.splits)
  show "nfree bs' = nfree bs" "uniq bs' = uniq bs" "buf_ok d l (bs' ! i) = buf_ok d l (bs ! i)"
    by (simp_all add: nfree_def uniq_def buf_ok_def c)
qed

lemma brelse_run:
  assumes "bc_inv s" "b < NBUF" "held_by_me s (SL_buf b)"
  shows "brelse b s = (let k = (bufs s ! b)\<lparr>b_refcnt := b_refcnt (bufs s ! b) - 1\<rparr>;
       bs = (bufs s)[b := k] in
     Ok () (s\<lparr>slocks := (slocks s)(SL_buf b := (slocks s (SL_buf b))\<lparr>sk_locked := 0, sk_pid := 0\<rparr>),
       procs := awake_procs (Chan_buflock b) (curproc s) (procs s),
       bufs := if b_refcnt k = 0 then relink bs b else bs\<rparr>))"
proof -
  note i = bc_invD [OF assms(1)]
  have [simp]: "b < length (bufs s)" using i(2) assms(2) by simp
  show ?thesis
    using i(3,4) i(5) [of b] assms(3)
    by (simp add: brelse_def bnd_run sq_run holdingsleep_run releasesleep_run Let_def relink_def
        del: nth_list_update)
qed

lemma lru_relink_ex:
  assumes "lru bs xs" "b < NBUF"
  shows "\<exists>ys. lru (relink bs b) ys"
proof -
  have "b \<in> set xs" using assms by (auto simp: lru_def)
  then obtain ys zs where "xs = ys @ b # zs" by (meson split_list)
  with lru_relink assms(1) show ?thesis by blast
qed

text \<open>Dropping a reference: \<open>brelse\<close> and \<open>bunpin\<close> share what follows from it.\<close>

lemma drop_ref:
  assumes ok: "cache_ok bs sl d" and f: "fnd bs n = Some b" and r: "0 < refs bs n"
    and clean: "refs bs n = 1 \<Longrightarrow> sk_locked l = 0 \<and> cont bs d n = d n"
    and k: "k = (bs ! b)\<lparr>b_refcnt := b_refcnt (bs ! b) - 1\<rparr>"
  shows "cache_ok (bs[b := k]) (sl(SL_buf b := l)) d" "fnd (bs[b := k]) = fnd bs"
    "refs (bs[b := k]) = (refs bs)(n := refs bs n - 1)"
    "cont (bs[b := k]) d = cont bs d"
    "lckd (bs[b := k]) (sl(SL_buf b := l)) = (lckd bs sl)(n := if sk_locked l = 0 then None else Some (sk_pid l))"
    "nfree (bs[b := k]) = nfree bs + (if refs bs n = 1 then 1 else 0)"
    "b_refcnt k = 0 \<longleftrightarrow> refs bs n = 1"
proof -
  have u: "uniq bs" "length bs = Suc NBUF" using ok unfolding cache_ok_def lru_def by blast+
  note b = fnd_Some [OF f]
  then have bn: "b < NBUF" by simp
  have rf: "refs bs n = unat (b_refcnt (bs ! b))" using f by (simp add: refs_def)
  have un: "unat (b_refcnt k) = refs bs n - 1"
  proof -
    have "unat (b_refcnt (bs ! b) - 1) = unat (b_refcnt (bs ! b)) - 1"
      using r unfolding rf by (intro unat_minus_one) auto
    then show ?thesis using k rf by simp
  qed
  show z: "b_refcnt k = 0 \<longleftrightarrow> refs bs n = 1" using un r by (auto simp flip: unat_eq_0)
  have key: "b_dev k = b_dev (bs ! b)" "b_blockno k = b_blockno (bs ! b)" by (simp_all add: k)
  note w = fnd_upd_key [OF u bn key] view_upd_key [OF u f key]
  show f': "fnd (bs[b := k]) = fnd bs" by (rule w(2))
  show "refs (bs[b := k]) = (refs bs)(n := refs bs n - 1)" using w(3) un by simp
  show "cont (bs[b := k]) d = cont bs d"
    unfolding w(4) using f by (auto simp: fun_eq_iff cont_def k)
  have "lckd bs (sl(SL_buf b := l)) = (lckd bs sl)(n := if sk_locked l = 0 then None else Some (sk_pid l))"
    by (rule lckd_upd [OF f])
  with w(5) show "lckd (bs[b := k]) (sl(SL_buf b := l)) =
      (lckd bs sl)(n := if sk_locked l = 0 then None else Some (sk_pid l))" by simp
  have nzb: "b_refcnt (bs ! b) \<noteq> 0" using r rf by auto
  with nfree_upd [OF u(2) bn, of k] z
  show "nfree (bs[b := k]) = nfree bs + (if refs bs n = 1 then 1 else 0)" by simp
  have okb: "buf_ok d (sl (SL_buf b)) (bs ! b)" using ok bn unfolding cache_ok_def by blast
  have "buf_ok d l k"
    using okb clean z b f nzb by (auto simp: buf_ok_def k cont_def)
  then show "cache_ok (bs[b := k]) (sl(SL_buf b := l)) d"
    by (intro cache_ok_upd [OF ok bn w(1)]) (simp_all add: k)
qed

lemma brelse_spec:
  assumes inv: "bc_inv s" and h: "handle s n = Some b" and r: "0 < vrefs (bview s) n"
    and lk: "vlock (bview s) n = Some (mypid s)"
    and clean: "vrefs (bview s) n = 1 \<Longrightarrow> vcont (bview s) n = vdisk (bview s) n"
  shows "\<exists>t. brelse b s = Ok () t \<and> bframe s t \<and> bc_inv t \<and> handle t = handle s \<and>
     (\<lambda>i. b_data (bufs t ! i)) = (\<lambda>i. b_data (bufs s ! i)) \<and>
     bview t = (bview s)\<lparr>vrefs := (vrefs (bview s))(n := vrefs (bview s) n - 1),
       vlock := (vlock (bview s))(n := None),
       vfree := vfree (bview s) + (if vrefs (bview s) n = 1 then 1 else 0)\<rparr>"
proof -
  let ?bs = "bufs s" and ?sl = "slocks s" and ?d = "disk s"
  let ?k = "(?bs ! b)\<lparr>b_refcnt := b_refcnt (?bs ! b) - 1\<rparr>"
  let ?l = "(?sl (SL_buf b))\<lparr>sk_locked := 0, sk_pid := 0\<rparr>"
  let ?ps = "awake_procs (Chan_buflock b) (curproc s) (procs s)"
  have f: "fnd ?bs n = Some b" using h by (simp add: handle_def)
  have bn: "b < NBUF" using fnd_Some [OF f] by simp
  have ok: "cache_ok ?bs ?sl ?d" using inv by (simp add: bc_inv_def)
  define bs where "bs = ?bs[b := ?k]"
  define bs' where "bs' = (if b_refcnt ?k = 0 then relink bs b else bs)"
  let ?t = "s\<lparr>slocks := ?sl(SL_buf b := ?l), procs := ?ps, bufs := bs'\<rparr>"
  have hb: "held_by_me s (SL_buf b)"
    using lk f by (auto simp: bview_def lckd_def held_by_me_def split: if_splits)
  have run: "brelse b s = Ok () ?t"
    using brelse_run [OF inv bn hb] by (simp only: Let_def bs_def bs'_def)
  have "refs ?bs n = 1 \<Longrightarrow> sk_locked ?l = 0 \<and> cont ?bs ?d n = ?d n" using clean by (simp add: bview_def)
  note dr = drop_ref [OF ok f _ this refl, folded bs_def]
  have r': "0 < refs ?bs n" using r by (simp add: bview_def)
  note dr = dr [OF r']
  have core: "core (bs' ! i) = core (bs ! i)" for i by (simp add: bs'_def relink_core)
  note cv = core_view [OF core]
  have "\<exists>xs. lru bs' xs" using dr(1) lru_relink_ex [OF _ bn] unfolding cache_ok_def bs'_def by auto
  then have "cache_ok bs' (?sl(SL_buf b := ?l)) ?d" using dr(1) cv(6,7) by (simp add: cache_ok_def)
  then have "bc_inv ?t" using inv by (auto simp: bc_inv_def in_proc_def)
  moreover have "bframe s ?t"
    by (rule bframeI [where ps = ?ps and sl = "slocks ?t" and bs = bs' and d = ?d and tr = "disk_trace s"])
      simp_all
  moreover have "bview ?t = (bview s)\<lparr>vrefs := (vrefs (bview s))(n := vrefs (bview s) n - 1),
       vlock := (vlock (bview s))(n := None),
       vfree := vfree (bview s) + (if vrefs (bview s) n = 1 then 1 else 0)\<rparr>"
    by (simp add: bview_def cv dr)
  moreover have "b_data (bs' ! i) = b_data (?bs ! i)" for i
  proof -
    have "b_data (bs ! i) = b_data (?bs ! i)"
      unfolding bs_def using bc_invD(2) [OF inv] bn by (cases "i = b") auto
    with coreD(5) [OF core] show ?thesis by simp
  qed
  ultimately show ?thesis using run by (intro exI [of _ ?t]) (simp add: handle_def fun_eq_iff cv dr(2))
qed

lemma bunpin_spec:
  assumes inv: "bc_inv s" and h: "handle s n = Some b" and r: "1 < vrefs (bview s) n"
  shows "\<exists>t. bunpin b s = Ok () t \<and> bframe s t \<and> bc_inv t \<and> handle t = handle s \<and>
     (\<lambda>i. b_data (bufs t ! i)) = (\<lambda>i. b_data (bufs s ! i)) \<and>
     bview t = (bview s)\<lparr>vrefs := (vrefs (bview s))(n := vrefs (bview s) n - 1)\<rparr>"
proof -
  let ?bs = "bufs s" and ?sl = "slocks s" and ?d = "disk s"
  let ?k = "(?bs ! b)\<lparr>b_refcnt := b_refcnt (?bs ! b) - 1\<rparr>"
  let ?t = "s\<lparr>bufs := ?bs[b := ?k]\<rparr>"
  have f: "fnd ?bs n = Some b" using h by (simp add: handle_def)
  have bn: "b < NBUF" using fnd_Some [OF f] by simp
  have ok: "cache_ok ?bs ?sl ?d" using inv by (simp add: bc_inv_def)
  have r': "0 < refs ?bs n" "refs ?bs n \<noteq> 1" using r by (auto simp: bview_def)
  note dr = drop_ref [where l = "?sl (SL_buf b)", OF ok f r'(1) _ refl]
  have dr: "cache_ok (?bs[b := ?k]) ?sl ?d" "fnd (?bs[b := ?k]) = fnd ?bs"
    "refs (?bs[b := ?k]) = (refs ?bs)(n := refs ?bs n - 1)" "cont (?bs[b := ?k]) ?d = cont ?bs ?d"
    "nfree (?bs[b := ?k]) = nfree ?bs"
    using dr r'(2) by simp_all
  have "lckd (?bs[b := ?k]) ?sl = lckd ?bs ?sl" by (simp add: lckd_def fun_eq_iff dr(2))
  moreover have "bunpin b s = Ok () ?t" using bc_invD(4) [OF inv] by (simp add: bunpin_def sq_run)
  moreover have "bc_inv ?t" using inv dr(1) by (auto simp: bc_inv_def in_proc_def)
  moreover have "bframe s ?t"
    by (rule bframeI [where ps = "procs s" and sl = ?sl and bs = "bufs ?t" and d = ?d and tr = "disk_trace s"])
      simp_all
  moreover have "b_data (?bs[b := ?k] ! i) = b_data (?bs ! i)" for i
    using bc_invD(2) [OF inv] bn by (cases "i = b") auto
  ultimately show ?thesis by (intro exI [of _ ?t]) (simp add: handle_def fun_eq_iff bview_def dr)
qed

lemma bpin_spec:
  assumes inv: "bc_inv s" and h: "handle s n = Some b" and r: "0 < vrefs (bview s) n"
    and bd: "vrefs (bview s) n < 2 ^ 32 - 1"
  shows "\<exists>t. bpin b s = Ok () t \<and> bframe s t \<and> bc_inv t \<and> handle t = handle s \<and>
     (\<lambda>i. b_data (bufs t ! i)) = (\<lambda>i. b_data (bufs s ! i)) \<and>
     bview t = (bview s)\<lparr>vrefs := (vrefs (bview s))(n := vrefs (bview s) n + 1)\<rparr>"
proof -
  let ?bs = "bufs s" and ?sl = "slocks s" and ?d = "disk s"
  let ?k = "(?bs ! b)\<lparr>b_refcnt := b_refcnt (?bs ! b) + 1\<rparr>"
  let ?t = "s\<lparr>bufs := ?bs[b := ?k]\<rparr>"
  have f: "fnd ?bs n = Some b" using h by (simp add: handle_def)
  have bn: "b < NBUF" using fnd_Some [OF f] by simp
  have ok: "cache_ok ?bs ?sl ?d" "uniq ?bs" "length ?bs = Suc NBUF"
    using inv bc_invD(1,2) by (auto simp: bc_inv_def)
  have rf: "refs ?bs n = unat (b_refcnt (?bs ! b))" using f by (simp add: refs_def)
  have un: "unat (b_refcnt ?k) = refs ?bs n + 1"
    using bd rf by (simp add: bview_def unat_word_ariths)
  have nz: "b_refcnt ?k \<noteq> 0" "b_refcnt (?bs ! b) \<noteq> 0" using un r rf by (auto simp: bview_def)
  note w = fnd_upd_key [OF ok(2,3) bn, of ?k] view_upd_key [OF ok(2,3) f, of ?k]
  have okb: "buf_ok ?d (?sl (SL_buf b)) (?bs ! b)" using ok bn unfolding cache_ok_def by blast
  have "cache_ok (?bs[b := ?k]) (?sl(SL_buf b := ?sl (SL_buf b))) ?d"
    using okb nz w(1) by (intro cache_ok_upd [OF ok(1) bn]) (auto simp: buf_ok_def)
  then have "bc_inv ?t" using inv by (auto simp: bc_inv_def in_proc_def)
  moreover have "bpin b s = Ok () ?t" using bc_invD(4) [OF inv] by (simp add: bpin_def sq_run)
  moreover have "bframe s ?t"
    by (rule bframeI [where ps = "procs s" and sl = ?sl and bs = "bufs ?t" and d = ?d and tr = "disk_trace s"])
      simp_all
  moreover have "b_data (?bs[b := ?k] ! i) = b_data (?bs ! i)" for i
    using ok(3) bn by (cases "i = b") auto
  moreover have "nfree (?bs[b := ?k]) = nfree ?bs" using nfree_upd [OF ok(3) bn, of ?k] nz by simp
  moreover have "(cont ?bs ?d)(n := if b_valid (?bs ! b) then b_data (?bs ! b) else ?d n) = cont ?bs ?d"
    using f by (auto simp: fun_eq_iff cont_def)
  moreover have "handle ?t = handle s" using w(2) by (simp add: handle_def fun_eq_iff)
  ultimately show ?thesis using w un by (intro exI [of _ ?t]) (simp add: bview_def cong: if_cong)
qed

section \<open>The interface\<close>

text \<open>
  The contract of the cache.  \<open>hd s n = Some b\<close>: buffer \<open>b\<close> stands for block \<open>n\<close>, which stays so
  while the block is referenced.
\<close>

locale buffer_cache =
  fixes rd :: "nat \<Rightarrow> ('s, nat) kernel"
    and modify :: "nat \<Rightarrow> (block \<Rightarrow> block) \<Rightarrow> ('s, unit) kernel"
    and wrt rel pin unpin :: "nat \<Rightarrow> ('s, unit) kernel"
    and dat :: "'s \<Rightarrow> nat \<Rightarrow> block"
    and hd :: "'s \<Rightarrow> nat \<Rightarrow> nat option"
    and inv :: "'s \<Rightarrow> bool"
    and view :: "'s \<Rightarrow> bview"
    and me :: "'s \<Rightarrow> int"
    and fr :: "'s \<Rightarrow> 's \<Rightarrow> bool"
  assumes read: "inv s \<Longrightarrow> vlock (view s) n = None \<Longrightarrow> 0 < vfree (view s) \<or> 0 < vrefs (view s) n \<Longrightarrow>
      vrefs (view s) n < 2 ^ 32 - 1 \<Longrightarrow>
      \<exists>b t. rd n s = Ok b t \<and> fr s t \<and> inv t \<and> hd t n = Some b \<and> dat t b = vcont (view s) n \<and>
        view t = (view s)\<lparr>vrefs := (vrefs (view s))(n := vrefs (view s) n + 1),
          vlock := (vlock (view s))(n := Some (me s)),
          vfree := vfree (view s) - (if vrefs (view s) n = 0 then 1 else 0)\<rparr> \<and>
        (\<forall>m. 0 < vrefs (view s) m \<longrightarrow> hd t m = hd s m)"
    and modify: "inv s \<Longrightarrow> hd s n = Some b \<Longrightarrow> 0 < vrefs (view s) n \<Longrightarrow> length (f (dat s b)) = BSIZE \<Longrightarrow>
      \<exists>t. modify b f s = Ok () t \<and> fr s t \<and> inv t \<and> hd t = hd s \<and> dat t b = f (dat s b) \<and>
        view t = (view s)\<lparr>vcont := (vcont (view s))(n := f (dat s b))\<rparr>"
    and wrt: "inv s \<Longrightarrow> hd s n = Some b \<Longrightarrow> 0 < vrefs (view s) n \<Longrightarrow> vlock (view s) n = Some (me s) \<Longrightarrow>
      \<exists>t. wrt b s = Ok () t \<and> fr s t \<and> inv t \<and> hd t = hd s \<and> dat t = dat s \<and>
        view t = (view s)\<lparr>vdisk := (vdisk (view s))(n := vcont (view s) n),
          vtrace := vtrace (view s) @ [(n, vcont (view s) n)]\<rparr>"
    and rel: "inv s \<Longrightarrow> hd s n = Some b \<Longrightarrow> 0 < vrefs (view s) n \<Longrightarrow> vlock (view s) n = Some (me s) \<Longrightarrow>
      (vrefs (view s) n = 1 \<Longrightarrow> vcont (view s) n = vdisk (view s) n) \<Longrightarrow>
      \<exists>t. rel b s = Ok () t \<and> fr s t \<and> inv t \<and> hd t = hd s \<and> dat t = dat s \<and>
        view t = (view s)\<lparr>vrefs := (vrefs (view s))(n := vrefs (view s) n - 1),
          vlock := (vlock (view s))(n := None),
          vfree := vfree (view s) + (if vrefs (view s) n = 1 then 1 else 0)\<rparr>"
    and pin: "inv s \<Longrightarrow> hd s n = Some b \<Longrightarrow> 0 < vrefs (view s) n \<Longrightarrow> vrefs (view s) n < 2 ^ 32 - 1 \<Longrightarrow>
      \<exists>t. pin b s = Ok () t \<and> fr s t \<and> inv t \<and> hd t = hd s \<and> dat t = dat s \<and>
        view t = (view s)\<lparr>vrefs := (vrefs (view s))(n := vrefs (view s) n + 1)\<rparr>"
    and unpin: "inv s \<Longrightarrow> hd s n = Some b \<Longrightarrow> 1 < vrefs (view s) n \<Longrightarrow>
      \<exists>t. unpin b s = Ok () t \<and> fr s t \<and> inv t \<and> hd t = hd s \<and> dat t = dat s \<and>
        view t = (view s)\<lparr>vrefs := (vrefs (view s))(n := vrefs (view s) n - 1)\<rparr>"
    and dat_hd: "inv s \<Longrightarrow> hd s n = Some b \<Longrightarrow> 0 < vrefs (view s) n \<Longrightarrow> dat s b = vcont (view s) n"
    and cont_len: "inv s \<Longrightarrow> length (vcont (view s) n) = BSIZE"
    and fr_refl: "fr s s"
    and fr_trans: "fr s t \<Longrightarrow> fr t u \<Longrightarrow> fr s u"
    and fr_me: "fr s t \<Longrightarrow> inv s \<Longrightarrow> me t = me s"
begin

text \<open>Reading a block and releasing it changes nothing that a client can see.\<close>

lemma read_rel:
  assumes "inv s" "vlock (view s) n = None" "0 < vfree (view s) \<or> 0 < vrefs (view s) n"
    "vrefs (view s) n < 2 ^ 32 - 1" "vrefs (view s) n = 0 \<Longrightarrow> vcont (view s) n = vdisk (view s) n"
  shows "\<exists>b t u. rd n s = Ok b t \<and> dat t b = vcont (view s) n \<and> rel b t = Ok () u \<and> fr s u \<and> inv u \<and>
     view u = view s"
proof -
  from read [OF assms(1-4)] obtain b t where t: "rd n s = Ok b t" "fr s t" "inv t" "hd t n = Some b"
    "dat t b = vcont (view s) n"
    "view t = (view s)\<lparr>vrefs := (vrefs (view s))(n := vrefs (view s) n + 1),
       vlock := (vlock (view s))(n := Some (me s)),
       vfree := vfree (view s) - (if vrefs (view s) n = 0 then 1 else 0)\<rparr>" by blast
  have "me t = me s" using fr_me [OF t(2) assms(1)] .
  then obtain u where u: "rel b t = Ok () u" "fr t u" "inv u"
    "view u = (view t)\<lparr>vrefs := (vrefs (view t))(n := vrefs (view t) n - 1),
       vlock := (vlock (view t))(n := None),
       vfree := vfree (view t) + (if vrefs (view t) n = 1 then 1 else 0)\<rparr>"
    using rel [OF t(3,4)] t(6) assms(5) by auto
  have "view u = view s"
    unfolding u(4) t(6) using assms(2,3) by (cases "view s") (auto simp: fun_upd_idem)
  with t u fr_trans show ?thesis by blast
qed

text \<open>Reading two blocks, and replacing and writing out the content of a block that is held.\<close>

lemma read2:
  assumes "inv s" "a \<noteq> c" "vlock (view s) a = None" "vlock (view s) c = None"
    and "(if vrefs (view s) a = 0 then 1 else 0) + (if vrefs (view s) c = 0 then 1 else 0) \<le> vfree (view s)"
    and "vrefs (view s) a < 2 ^ 32 - 1" "vrefs (view s) c < 2 ^ 32 - 1"
  shows "\<exists>ha hc t u. rd a s = Ok ha t \<and> rd c t = Ok hc u \<and> fr s t \<and> fr s u \<and> inv u \<and>
     hd u a = Some ha \<and> hd u c = Some hc \<and>
     dat u ha = vcont (view s) a \<and> dat u hc = vcont (view s) c \<and>
     view u = (view s)\<lparr>vrefs := (vrefs (view s))(a := vrefs (view s) a + 1, c := vrefs (view s) c + 1),
       vlock := (vlock (view s))(a := Some (me s), c := Some (me s)),
       vfree := vfree (view s) - (if vrefs (view s) a = 0 then 1 else 0) - (if vrefs (view s) c = 0 then 1 else 0)\<rparr>"
proof -
  have fa: "0 < vfree (view s) \<or> 0 < vrefs (view s) a" using assms(5) by (auto split: if_splits)
  from read [OF assms(1,3) fa assms(6)] obtain ha t where t: "rd a s = Ok ha t" "fr s t" "inv t"
    "hd t a = Some ha"
    "view t = (view s)\<lparr>vrefs := (vrefs (view s))(a := vrefs (view s) a + 1),
       vlock := (vlock (view s))(a := Some (me s)),
       vfree := vfree (view s) - (if vrefs (view s) a = 0 then 1 else 0)\<rparr>" by blast
  have mt: "me t = me s" using fr_me [OF t(2) assms(1)] .
  have "vlock (view t) c = None" "0 < vfree (view t) \<or> 0 < vrefs (view t) c" "vrefs (view t) c < 2 ^ 32 - 1"
    using assms by (auto simp: t(5) split: if_splits)
  from read [OF t(3) this] obtain hc u where u: "rd c t = Ok hc u" "fr t u" "inv u" "hd u c = Some hc"
    "dat u hc = vcont (view t) c"
    "view u = (view t)\<lparr>vrefs := (vrefs (view t))(c := vrefs (view t) c + 1),
       vlock := (vlock (view t))(c := Some (me s)),
       vfree := vfree (view t) - (if vrefs (view t) c = 0 then 1 else 0)\<rparr>"
    "\<forall>m. 0 < vrefs (view t) m \<longrightarrow> hd u m = hd t m" by (auto simp: mt)
  have ua: "hd u a = Some ha" "0 < vrefs (view u) a" using u(6,7) t(4,5) assms(2) by auto
  have "dat u ha = vcont (view u) a" by (rule dat_hd [OF u(3) ua])
  then have d: "dat u ha = vcont (view s) a" "dat u hc = vcont (view s) c" using u(5,6) t(5) by simp_all
  have "view u = (view s)\<lparr>vrefs := (vrefs (view s))(a := vrefs (view s) a + 1, c := vrefs (view s) c + 1),
       vlock := (vlock (view s))(a := Some (me s), c := Some (me s)),
       vfree := vfree (view s) - (if vrefs (view s) a = 0 then 1 else 0) - (if vrefs (view s) c = 0 then 1 else 0)\<rparr>"
    using assms(2) by (simp add: u(6) t(5))
  with t(1,2) u(1,3,4) ua(1) d fr_trans [OF t(2) u(2)] show ?thesis by blast
qed

lemma store:
  assumes "inv s" "hd s n = Some b" "0 < vrefs (view s) n" "vlock (view s) n = Some (me s)"
    "length (f (dat s b)) = BSIZE"
  shows "\<exists>t u. modify b f s = Ok () t \<and> wrt b t = Ok () u \<and> fr s u \<and> inv u \<and> hd u = hd s \<and>
     view u = (view s)\<lparr>vcont := (vcont (view s))(n := f (dat s b)),
       vdisk := (vdisk (view s))(n := f (dat s b)), vtrace := vtrace (view s) @ [(n, f (dat s b))]\<rparr>"
proof -
  from modify [OF assms(1-3), of f] assms(5) obtain t where t: "modify b f s = Ok () t" "fr s t" "inv t"
    "hd t = hd s" "view t = (view s)\<lparr>vcont := (vcont (view s))(n := f (dat s b))\<rparr>" by auto
  have "hd t n = Some b" "0 < vrefs (view t) n" "vlock (view t) n = Some (me t)"
    using assms fr_me [OF t(2) assms(1)] by (simp_all add: t(4,5))
  from wrt [OF t(3) this] obtain u where u: "wrt b t = Ok () u" "fr t u" "inv u" "hd u = hd t"
    "view u = (view t)\<lparr>vdisk := (vdisk (view t))(n := vcont (view t) n),
       vtrace := vtrace (view t) @ [(n, vcont (view t) n)]\<rparr>" by blast
  have "view u = (view s)\<lparr>vcont := (vcont (view s))(n := f (dat s b)),
       vdisk := (vdisk (view s))(n := f (dat s b)), vtrace := vtrace (view s) @ [(n, f (dat s b))]\<rparr>"
    by (simp add: u(5) t(5))
  with t(1,4) u(1,3,4) fr_trans [OF t(2) u(2)] show ?thesis by auto
qed

text \<open>Releasing two blocks.\<close>

lemma rel2:
  assumes "inv s" "a \<noteq> c" "hd s a = Some ha" "hd s c = Some hc"
    "vlock (view s) a = Some (me s)" "vlock (view s) c = Some (me s)"
    "0 < vrefs (view s) a" "0 < vrefs (view s) c"
    "vrefs (view s) a = 1 \<Longrightarrow> vcont (view s) a = vdisk (view s) a"
    "vrefs (view s) c = 1 \<Longrightarrow> vcont (view s) c = vdisk (view s) c"
  shows "\<exists>t u. rel ha s = Ok () t \<and> rel hc t = Ok () u \<and> fr s u \<and> inv u \<and>
     view u = (view s)\<lparr>vrefs := (vrefs (view s))(a := vrefs (view s) a - 1, c := vrefs (view s) c - 1),
       vlock := (vlock (view s))(a := None, c := None),
       vfree := vfree (view s) + (if vrefs (view s) a = 1 then 1 else 0) + (if vrefs (view s) c = 1 then 1 else 0)\<rparr>"
proof -
  obtain t where t: "rel ha s = Ok () t" "fr s t" "inv t" "hd t = hd s"
    "view t = (view s)\<lparr>vrefs := (vrefs (view s))(a := vrefs (view s) a - 1),
       vlock := (vlock (view s))(a := None),
       vfree := vfree (view s) + (if vrefs (view s) a = 1 then 1 else 0)\<rparr>"
    using rel [OF assms(1,3,7,5)] assms(9) by metis
  have m: "me t = me s" using fr_me [OF t(2) assms(1)] .
  have c: "hd t c = Some hc" "0 < vrefs (view t) c" "vlock (view t) c = Some (me t)"
    "vrefs (view t) c = vrefs (view s) c" "vcont (view t) c = vcont (view s) c" "vdisk (view t) c = vdisk (view s) c"
    using assms(2,4,8,6) by (simp_all add: t(4,5) m)
  obtain u where u: "rel hc t = Ok () u" "fr t u" "inv u"
    "view u = (view t)\<lparr>vrefs := (vrefs (view t))(c := vrefs (view t) c - 1),
       vlock := (vlock (view t))(c := None),
       vfree := vfree (view t) + (if vrefs (view t) c = 1 then 1 else 0)\<rparr>"
    using rel [OF t(3) c(1-3)] c(4-6) assms(10) by metis
  have "view u = (view s)\<lparr>vrefs := (vrefs (view s))(a := vrefs (view s) a - 1, c := vrefs (view s) c - 1),
       vlock := (vlock (view s))(a := None, c := None),
       vfree := vfree (view s) + (if vrefs (view s) a = 1 then 1 else 0) + (if vrefs (view s) c = 1 then 1 else 0)\<rparr>"
    using assms(2) by (simp add: u(4) t(5))
  moreover have "fr s u" using fr_trans t(2) u(2) by blast
  ultimately show ?thesis using t(1) u(1,3) by blast
qed

end

interpretation bc: buffer_cache "bread ROOTDEV" "\<lambda>b f. bset b (\<lambda>k. k\<lparr>b_data := f (b_data k)\<rparr>)"
  bwrite brelse bpin bunpin "\<lambda>s b. b_data (bufs s ! b)" handle bc_inv bview mypid bframe
proof unfold_locales
  fix s :: "'a bio_st_scheme" and n b
  assume "bc_inv s" "handle s n = Some b" "0 < vrefs (bview s) n"
  then show "b_data (bufs s ! b) = vcont (bview s) n"
    using bc_invD(6) [of s b] fnd_Some [of "bufs s" n b]
    by (auto simp: handle_def bview_def cont_def refs_def buf_ok_def)
next
  fix s :: "'a bio_st_scheme" and n
  assume "bc_inv s"
  then show "length (vcont (bview s) n) = BSIZE" using cont_length by (auto simp: bview_def bc_inv_def)
next
  fix s t :: "'a bio_st_scheme"
  assume "bframe s t" "bc_inv s"
  then show "mypid t = mypid s" using bframe_mypid by (auto simp: bc_inv_def)
qed ((rule bread_spec bset_data_spec bwrite_spec brelse_spec bpin_spec bunpin_spec, assumption+)+,
    simp, rule bframe_trans)

section \<open>Initialisation\<close>

definition linked :: "buf list \<Rightarrow> nat list \<Rightarrow> bool" where
  "linked bs xs \<longleftrightarrow> length bs = Suc NBUF \<and> chain (nx bs) head xs head \<and> chain (pv bs) head (rev xs) head"

lemma binit1_run:
  assumes "linked (bufs s) xs" "b < NBUF" "b \<notin> set xs" "distinct (head # xs)" "set xs \<subseteq> {..<NBUF}"
  shows "\<exists>bs sl. binit1 b s = Ok () (s\<lparr>bufs := bs, slocks := sl\<rparr>) \<and> linked bs (b # xs) \<and>
     (\<forall>i. core (bs ! i) = core (bufs s ! i)) \<and> sk_locked (sl (SL_buf b)) = 0 \<and>
     (\<forall>l. l \<noteq> SL_buf b \<longrightarrow> sl l = slocks s l)"
proof -
  let ?bs = "bufs s"
  have l: "length ?bs = Suc NBUF" and c: "chain (nx ?bs) head xs head" "chain (pv ?bs) head (rev xs) head"
    using assms(1) by (simp_all add: linked_def)
  have "List.hd (xs @ [head]) \<in> insert head (set xs)" by (cases xs) simp_all
  then have n: "nx ?bs head \<le> head" unfolding chain_first [OF c(1)] using assms(5) by fastforce
  define bs1 where "bs1 = ?bs[b := (?bs ! b)\<lparr>b_next := nx ?bs head\<rparr>]"
  define bs2 where "bs2 = bs1[b := (bs1 ! b)\<lparr>b_prev := head\<rparr>]"
  define bs3 where "bs3 = bs2[nx bs2 head := (bs2 ! nx bs2 head)\<lparr>b_prev := b\<rparr>]"
  define bs4 where "bs4 = bs3[head := (bs3 ! head)\<lparr>b_next := b\<rparr>]"
  have ln: "length bs1 = Suc NBUF" "length bs2 = Suc NBUF" "length bs3 = Suc NBUF"
    using l by (simp_all add: bs1_def bs2_def bs3_def)
  have 1: "nx bs1 = (nx ?bs)(b := nx ?bs head)" "pv bs1 = pv ?bs"
    unfolding bs1_def using l assms(2) by (simp_all add: nx_upd pv_upd_same)
  have 2: "nx bs2 = nx bs1" "pv bs2 = (pv bs1)(b := head)"
    unfolding bs2_def using ln assms(2) by (simp_all add: nx_upd_same pv_upd)
  have h2: "nx bs2 head = nx ?bs head"
    using fun_cong [OF 2(1), of head] fun_cong [OF 1(1), of head] assms(2) by simp
  have 3: "nx bs3 = nx bs2" "pv bs3 = (pv bs2)(nx ?bs head := b)"
    unfolding bs3_def h2 using ln n by (simp_all add: nx_upd_same pv_upd)
  have 4: "nx bs4 = (nx ?bs)(b := nx ?bs head, head := b)"
    unfolding bs4_def using ln(3) by (subst nx_upd [where w = b]) (simp_all only: 3(1) 2(1) 1(1), simp_all)
  have 5: "pv bs4 = (pv ?bs)(b := head, nx ?bs head := b)"
    unfolding bs4_def by (subst pv_upd_same) (simp, simp only: 3(2) 2(2) 1(2))
  have "linked bs4 (b # xs)"
    unfolding linked_def 4 5
    using chain_insert_front [OF c(1), of b] chain_insert_front_rev [OF c, of b] assms ln(3)
    by (simp add: bs4_def)
  moreover have "core (bs4 ! i) = core (?bs ! i)" for i
    unfolding bs4_def bs3_def bs2_def bs1_def by (simp add: core_list_upd)
  moreover have "binit1 b s = Ok () (s\<lparr>bufs := bs4,
      slocks := (slocks s)(SL_buf b := \<lparr>sk_locked = 0, sk_name = ''buffer'', sk_pid = 0\<rparr>)\<rparr>)"
    unfolding bs4_def bs3_def bs2_def bs1_def
    by (cases "slocks s (SL_buf b)")
      (simp add: binit1_def initsleeplock_def bnd_run sq_run del: nth_list_update_eq)
  ultimately show ?thesis
    by (intro exI [of _ bs4] exI [of _ "(slocks s)(SL_buf b := \<lparr>sk_locked = 0, sk_name = ''buffer'', sk_pid = 0\<rparr>)"])
      auto
qed

lemma binit_loop:
  assumes "linked (bufs s) []" "n \<le> NBUF"
  shows "\<exists>bs sl. foreach [0..<n] binit1 s = Ok () (s\<lparr>bufs := bs, slocks := sl\<rparr>) \<and> linked bs (rev [0..<n]) \<and>
     (\<forall>i. core (bs ! i) = core (bufs s ! i)) \<and> (\<forall>b<n. sk_locked (sl (SL_buf b)) = 0)"
  using assms
proof (induction n)
  case 0
  then show ?case by (intro exI [of _ "bufs s"] exI [of _ "slocks s"]) simp
next
  case (Suc n)
  then obtain bs sl where IH: "foreach [0..<n] binit1 s = Ok () (s\<lparr>bufs := bs, slocks := sl\<rparr>)"
    "linked bs (rev [0..<n])" "\<forall>i. core (bs ! i) = core (bufs s ! i)" "\<forall>b<n. sk_locked (sl (SL_buf b)) = 0"
    by auto
  let ?s = "s\<lparr>bufs := bs, slocks := sl\<rparr>"
  have "linked (bufs ?s) (rev [0..<n])" "n < NBUF" "n \<notin> set (rev [0..<n])"
    "distinct (head # rev [0..<n])" "set (rev [0..<n]) \<subseteq> {..<NBUF}" using IH(2) Suc.prems by auto
  from binit1_run [OF this] obtain bs' sl' where b: "binit1 n ?s = Ok () (s\<lparr>bufs := bs', slocks := sl'\<rparr>)"
    "linked bs' (n # rev [0..<n])" "\<forall>i. core (bs' ! i) = core (bs ! i)"
    "sk_locked (sl' (SL_buf n)) = 0" "\<forall>l. l \<noteq> SL_buf n \<longrightarrow> sl' l = sl l" by auto
  have "foreach [0..<Suc n] binit1 s = Ok () (s\<lparr>bufs := bs', slocks := sl'\<rparr>)"
    by (simp only: foreach_upt_Suc IH(1) res.case b(1))
  moreover have "\<forall>x<Suc n. sk_locked (sl' (SL_buf x)) = 0" using IH(4) b(4,5) by (auto simp: less_Suc_eq)
  ultimately show ?case using b IH(3) by (intro exI [of _ bs'] exI [of _ sl']) simp
qed

text \<open>
  At boot the buffers are zero, so no buffer has a reference or stands for a block of the root
  device, and \<open>binit\<close> establishes the invariant with every buffer free.
\<close>

lemma binit_inv:
  assumes "length (bufs s) = Suc NBUF" "in_proc s" "L_bcache \<notin> set (held s)" "\<forall>i. L_buf i \<notin> set (held s)"
    "\<forall>i<NBUF. b_refcnt (bufs s ! i) = 0 \<and> b_dev (bufs s ! i) = 0 \<and> length (b_data (bufs s ! i)) = BSIZE"
    "\<forall>n. length (disk s n) = BSIZE"
  shows "\<exists>bs sl. binit s = Ok () (s\<lparr>bufs := bs, slocks := sl\<rparr>) \<and> bc_inv (s\<lparr>bufs := bs, slocks := sl\<rparr>) \<and>
     bview (s\<lparr>bufs := bs, slocks := sl\<rparr>) = \<lparr>vcont = disk s, vrefs = (\<lambda>_. 0), vlock = (\<lambda>_. None),
       vfree = NBUF, vdisk = disk s, vtrace = disk_trace s\<rparr>"
proof -
  define s1 where "s1 = s\<lparr>bufs := (bufs s)[head := (bufs s ! head)\<lparr>b_prev := head, b_next := head\<rparr>]\<rparr>"
  have l1: "linked (bufs s1) []" using assms(1) by (simp add: s1_def linked_def)
  have c1: "core (bufs s1 ! i) = core (bufs s ! i)" for i by (simp add: s1_def core_list_upd)
  from binit_loop [OF l1 order_refl] obtain bs sl where b:
    "foreach [0..<NBUF] binit1 s1 = Ok () (s1\<lparr>bufs := bs, slocks := sl\<rparr>)" "linked bs (rev [0..<NBUF])"
    "\<forall>i. core (bs ! i) = core (bufs s1 ! i)" "\<forall>b<NBUF. sk_locked (sl (SL_buf b)) = 0" by blast
  let ?t = "s\<lparr>bufs := bs, slocks := sl\<rparr>"
  have run: "binit s = Ok () ?t"
    using b(1) assms(1) by (simp add: binit_def sq_run s1_def)
  have core: "core (bs ! i) = core (bufs s ! i)" for i using b(3) c1 by simp
  note k = coreD [OF core]
  have ROOT: "ROOTDEV \<noteq> 0" by (simp add: ROOTDEV_def)
  have none: "fnd bs n = None" for n using assms(5) k ROOT by (auto simp: fnd_None)
  have "lru bs (rev [0..<NBUF])" using b(2) by (auto simp: lru_def linked_def)
  moreover have "uniq bs" using assms(5) k ROOT by (auto simp: uniq_def)
  moreover have "buf_ok (disk s) (sl (SL_buf i)) (bs ! i)" if "i < NBUF" for i
    using that assms(5) b(4) k ROOT by (simp add: buf_ok_def)
  ultimately have "bc_inv ?t" using assms by (auto simp: bc_inv_def cache_ok_def in_proc_def)
  moreover have "{i. i < NBUF \<and> b_refcnt (bs ! i) = 0} = {..<NBUF}" using assms(5) k by auto
  then have "bview ?t = \<lparr>vcont = disk s, vrefs = (\<lambda>_. 0), vlock = (\<lambda>_. None),
       vfree = NBUF, vdisk = disk s, vtrace = disk_trace s\<rparr>"
    by (simp add: bview_def fun_eq_iff cont_def refs_def lckd_def nfree_def none)
  ultimately show ?thesis using run by blast
qed

definition buf0 :: buf where
  "buf0 = \<lparr>b_valid = False, b_disk = False, b_dev = 0, b_blockno = 0, b_refcnt = 0, b_prev = 0,
     b_next = 0, b_data = replicate BSIZE 0\<rparr>"

definition bio_boot :: bio_st where
  "bio_boot = \<lparr>held = [], klog = [], mem = (\<lambda>_. 0), freelist = 0, kend = 0, procs = demo_procs,
     curproc = Some 1, initproc = Some 1, nextpid = 3, ticks = 0, kernel_pagetable = 0, satp = 0,
     etext = 0, trampoline = 0, slocks = (\<lambda>_. \<lparr>sk_locked = 0, sk_name = [], sk_pid = 0\<rparr>),
     bufs = replicate (Suc NBUF) buf0, disk = (\<lambda>n. replicate BSIZE (of_nat n)), disk_trace = []\<rparr>"

lemma bio_boot_inv:
  "\<exists>t. binit bio_boot = Ok () t \<and> bc_inv t \<and> bview t = \<lparr>vcont = disk bio_boot, vrefs = (\<lambda>_. 0),
     vlock = (\<lambda>_. None), vfree = NBUF, vdisk = disk bio_boot, vtrace = []\<rparr>"
proof -
  have "in_proc bio_boot" by (simp add: in_proc_def bio_boot_def demo_procs_def NPROC_def)
  then show ?thesis using binit_inv [of bio_boot]
    by (auto simp: bio_boot_def buf0_def simp del: replicate_Suc)
qed

section \<open>Properties\<close>

text \<open>
  Property C6: the cache is coherent.  With a buffer to spare or the block referenced already, and
  nobody else holding it, \<open>bread\<close> returns without a panic a buffer locked by the caller that
  holds the block's current content; it is the only buffer for the block.  Whatever buffer was
  recycled for it, the current content of every block of the disk is what it was, and buffers
  of referenced blocks stay theirs.
\<close>

theorem bread_coherent:
  assumes "bc_inv s" "vlock (bview s) n = None" "0 < vfree (bview s) \<or> 0 < vrefs (bview s) n"
    "vrefs (bview s) n < 2 ^ 32 - 1"
  shows "\<exists>b t. bread ROOTDEV n s = Ok b t \<and> bc_inv t \<and> b < NBUF \<and> held_by_me t (SL_buf b) \<and>
     b_data (bufs t ! b) = vcont (bview s) n \<and> vcont (bview t) = vcont (bview s) \<and>
     disk t = disk s \<and>
     (\<forall>i<NBUF. b_dev (bufs t ! i) = ROOTDEV \<and> b_blockno (bufs t ! i) = n \<longleftrightarrow> i = b) \<and>
     (\<forall>m. 0 < vrefs (bview s) m \<longrightarrow> handle t m = handle s m)"
proof -
  from bread_spec [OF assms] obtain b t where t: "bread ROOTDEV n s = Ok b t" "bframe s t" "bc_inv t"
    "handle t n = Some b" "b_data (bufs t ! b) = vcont (bview s) n"
    "bview t = (bview s)\<lparr>vrefs := (vrefs (bview s))(n := vrefs (bview s) n + 1),
       vlock := (vlock (bview s))(n := Some (mypid s)),
       vfree := vfree (bview s) - (if vrefs (bview s) n = 0 then 1 else 0)\<rparr>"
    "\<forall>m. 0 < vrefs (bview s) m \<longrightarrow> handle t m = handle s m" by blast
  have f: "fnd (bufs t) n = Some b" using t(4) by (simp add: handle_def)
  have u: "uniq (bufs t)" using bc_invD(1) [OF t(3)] .
  have "mypid t = mypid s" using bframe_mypid [OF t(2)] assms(1) by (simp add: bc_inv_def)
  moreover have "vlock (bview t) n = Some (mypid s)" using t(6) by simp
  ultimately have "held_by_me t (SL_buf b)"
    using f by (auto simp: bview_def lckd_def held_by_me_def split: if_splits)
  moreover have "b_dev (bufs t ! i) = ROOTDEV \<and> b_blockno (bufs t ! i) = n \<longleftrightarrow> i = b" if "i < NBUF" for i
    using fnd_iff [OF u, of n i] f that by auto
  moreover have "vdisk (bview t) = vdisk (bview s)" using t(6) by simp
  ultimately show ?thesis using t fnd_Some [OF f]
    by (intro exI [of _ b] exI [of _ t]) (simp add: bview_def [of t] bview_def [of s])
qed

theorem bread_coherent_witness:
  "\<exists>t b u. binit bio_boot = Ok () t \<and> bread ROOTDEV 7 t = Ok b u \<and>
     b_data (bufs u ! b) = replicate BSIZE 7"
proof -
  from bio_boot_inv obtain t where t: "binit bio_boot = Ok () t" "bc_inv t"
    "bview t = \<lparr>vcont = disk bio_boot, vrefs = (\<lambda>_. 0), vlock = (\<lambda>_. None), vfree = NBUF,
       vdisk = disk bio_boot, vtrace = []\<rparr>" by blast
  have "\<exists>b u. bread ROOTDEV 7 t = Ok b u \<and> b_data (bufs u ! b) = vcont (bview t) 7"
    using bread_coherent [OF t(2), of 7] t(3) by (auto simp: NBUF_def MAXOPBLOCKS_def)
  with t show ?thesis by (simp add: bio_boot_def)
qed

text \<open>
  Property C7: recycling is least-recently-used, as the pointer manipulation of the linked list
  implements it.  Let \<open>xs\<close> be the buffers in list order, most recent first.  A block that is not
  cached gets the last buffer of \<open>xs\<close> without references, and \<open>bget\<close> panics exactly when
  there is none.  Releasing the last reference to a buffer moves it to the front and keeps the
  rest in order; otherwise the order stays.
\<close>

theorem buffer_lru:
  assumes "bc_inv s" "lru (bufs s) xs" "handle s n = None" "b < NBUF" "held_by_me s (SL_buf b)"
  shows "(case find (\<lambda>i. b_refcnt (bufs s ! i) = 0) (rev xs) of
       None \<Rightarrow> bget ROOTDEV n s = Panic ''bget: no buffers''
     | Some i \<Rightarrow> \<exists>t. bget ROOTDEV n s = Ok i t \<and> lru (bufs t) xs) \<and>
     (\<exists>t. brelse b s = Ok () t \<and>
        lru (bufs t) (if b_refcnt (bufs s ! b) = 1 then b # remove1 b xs else xs))"
proof (rule conjI)
  have none: "fnd (bufs s) n = None" using assms(3) by (simp add: handle_def)
  show "case find (\<lambda>i. b_refcnt (bufs s ! i) = 0) (rev xs) of
       None \<Rightarrow> bget ROOTDEV n s = Panic ''bget: no buffers''
     | Some i \<Rightarrow> \<exists>t. bget ROOTDEV n s = Ok i t \<and> lru (bufs t) xs"
    using bget_not_cached [OF assms(1,2) none] assms(2) by (auto simp: lru_upd split: option.splits)
  have l: "b < length (bufs s)" using assms(4) bc_invD(2) [OF assms(1)] by simp
  have "b \<in> set xs" using assms(2,4) by (auto simp: lru_def)
  then obtain ys zs where xs: "xs = ys @ b # zs" "b \<notin> set ys" by (meson split_list_first)
  have "b_refcnt (bufs s ! b) - 1 = 0 \<longleftrightarrow> b_refcnt (bufs s ! b) = 1" by simp
  with brelse_run [OF assms(1,4,5)] assms(2) lru_relink [of "(bufs s)[b := _]" ys b zs]
  show "\<exists>t. brelse b s = Ok () t \<and>
        lru (bufs t) (if b_refcnt (bufs s ! b) = 1 then b # remove1 b xs else xs)"
    by (auto simp: Let_def xs lru_upd l remove1_append)
qed

lemma uncached_block: "\<exists>n. fnd bs n = None"
proof -
  have "{n. fnd bs n \<noteq> None} \<subseteq> (\<lambda>i. b_blockno (bs ! i)) ` {..<NBUF}"
  proof
    fix n assume "n \<in> {n. fnd bs n \<noteq> None}"
    then obtain i where i: "fnd bs n = Some i" by auto
    from fnd_Some [OF i] show "n \<in> (\<lambda>i. b_blockno (bs ! i)) ` {..<NBUF}"
      by (intro image_eqI [of _ _ i]) simp_all
  qed
  then have "finite {n. fnd bs n \<noteq> None}" by (rule finite_subset) simp
  from ex_new_if_finite [OF infinite_UNIV_nat this] show ?thesis by auto
qed

theorem buffer_lru_witness:
  "\<exists>(s :: bio_st) xs b t. bc_inv s \<and> lru (bufs s) xs \<and> b < NBUF \<and> brelse b s = Ok () t \<and>
     lru (bufs t) (b # remove1 b xs)"
proof -
  from bio_boot_inv obtain t :: bio_st where t: "bc_inv t"
    "bview t = \<lparr>vcont = disk bio_boot, vrefs = (\<lambda>_. 0), vlock = (\<lambda>_. None), vfree = NBUF,
       vdisk = disk bio_boot, vtrace = []\<rparr>" by blast
  from bread_spec [OF t(1), of 7] t(2) obtain b u where u: "bframe t u" "bc_inv u" "handle u 7 = Some b"
    "vlock (bview u) 7 = Some (mypid t)" "vrefs (bview u) 7 = 1"
    by (auto simp: NBUF_def MAXOPBLOCKS_def)
  have f: "fnd (bufs u) 7 = Some b" using u(3) by (simp add: handle_def)
  have "mypid u = mypid t" using bframe_mypid [OF u(1)] t(1) by (simp add: bc_inv_def)
  then have h: "held_by_me u (SL_buf b)"
    using u(4) f by (auto simp: bview_def lckd_def held_by_me_def split: if_splits)
  have "unat (b_refcnt (bufs u ! b)) = unat (1 :: u32)" using u(5) f by (simp add: bview_def refs_def)
  then have r: "b_refcnt (bufs u ! b) = 1" by (simp only: word_unat_eq_iff)
  obtain n where n: "handle u n = None" using uncached_block by (auto simp: handle_def)
  from bc_invD(7) [OF u(2)] obtain xs where xs: "lru (bufs u) xs" by blast
  have "b < NBUF" using fnd_Some [OF f] by simp
  with buffer_lru [OF u(2) xs n this h] r u(2) xs show ?thesis by auto
qed

end
