(* ===== verification/Virtio.thy ===== *)
theory Virtio
  imports Bcache
begin

text \<open>
  \<^verbatim>\<open>kernel/virtio_disk.c\<close>: the driver of the disk.  The descriptor table and the rings that the
  driver shares with the device are fields of the state; an address in a descriptor is the
  object it points to.  \<open>vio_rd\<close> is what the device answers when one of its registers is read, and
  \<open>vio_wr\<close> the registers written.  A request sleeps until the interrupt handler has seen its
  completion; its thread then goes on with \<open>virtio_wait_resume\<close>.
\<close>

section \<open>Structures\<close>

definition NUM :: nat where "NUM = 8"

definition VRING_DESC_F_NEXT :: u16 where "VRING_DESC_F_NEXT = 1"
definition VRING_DESC_F_WRITE :: u16 where "VRING_DESC_F_WRITE = 2"
definition VIRTIO_BLK_T_IN :: u32 where "VIRTIO_BLK_T_IN = 0"
definition VIRTIO_BLK_T_OUT :: u32 where "VIRTIO_BLK_T_OUT = 1"

datatype dref = D_null | D_op nat | D_data nat | D_status nat

record virtq_desc =
  vd_addr :: dref
  vd_len :: nat
  vd_flags :: u16
  vd_next :: nat

record virtio_blk_req =
  rq_type :: u32
  rq_reserved :: u32
  rq_sector :: u64

record virtio_st = bio_st +
  vq_desc :: "virtq_desc list"
  avail_idx :: u16
  avail_ring :: "nat list"
  used_idx :: u16
  used_ring :: "nat list"
  vd_free :: "bool list"
  vd_used_idx :: u16
  info_b :: "nat option list"
  info_status :: "byte list"
  vd_ops :: "virtio_blk_req list"
  vio_rd :: "nat \<Rightarrow> u32"
  vio_wr :: "(nat \<times> u32) list"

definition dset :: "nat \<Rightarrow> (virtq_desc \<Rightarrow> virtq_desc) \<Rightarrow> ('z virtio_st_scheme, unit) kernel" where
  "dset i f = upd (\<lambda>s. s\<lparr>vq_desc := (vq_desc s)[i := f (vq_desc s ! i)]\<rparr>)"

definition dfield :: "nat \<Rightarrow> (virtq_desc \<Rightarrow> 'a) \<Rightarrow> ('z virtio_st_scheme, 'a) kernel" where
  "dfield i f = get (\<lambda>s. f (vq_desc s ! i))"

definition regw :: "nat \<Rightarrow> u32 \<Rightarrow> ('z virtio_st_scheme, unit) kernel" where
  "regw r v = upd (\<lambda>s. s\<lparr>vio_wr := vio_wr s @ [(r, v)]\<rparr>)"

definition regr :: "nat \<Rightarrow> ('z virtio_st_scheme, u32) kernel" where
  "regr r = get (\<lambda>s. vio_rd s r)"

section \<open>Initialisation\<close>

definition driver_features :: "u32 \<Rightarrow> u32" where
  "driver_features f = fold (\<lambda>b f. f AND NOT (push_bit b 1)) [5, 7, 11, 12, 27, 29, 28] f"

definition virtio_queue_pages :: "addr \<Rightarrow> addr \<Rightarrow> addr \<Rightarrow> ('z virtio_st_scheme, unit) kernel" where
  "virtio_queue_pages desc avail used =
     sq (zero_page desc) (
     sq (zero_page avail) (
     sq (zero_page used) (
     sq (upd (\<lambda>s. s\<lparr>vq_desc := replicate NUM \<lparr>vd_addr = D_null, vd_len = 0, vd_flags = 0, vd_next = 0\<rparr>,
           avail_idx := 0, avail_ring := replicate NUM 0, used_idx := 0, used_ring := replicate NUM 0\<rparr>)) (
     sq (regw 0x038 (of_nat NUM)) (
     sq (regw 0x080 (ucast desc)) (
     sq (regw 0x084 (ucast (drop_bit 32 desc))) (
     sq (regw 0x090 (ucast avail)) (
     sq (regw 0x094 (ucast (drop_bit 32 avail))) (
     sq (regw 0x0a0 (ucast used))
        (regw 0x0a4 (ucast (drop_bit 32 used))))))))))))"

definition virtio_disk_init :: "('z virtio_st_scheme, unit) kernel" where
  "virtio_disk_init =
     bnd (regr 0x000) (\<lambda>magic.
     bnd (regr 0x004) (\<lambda>version.
     bnd (regr 0x008) (\<lambda>device.
     bnd (regr 0x00c) (\<lambda>vendor.
     sq (unless_panic (\<not> (magic \<noteq> 0x74726976 \<or> version \<noteq> 2 \<or> device \<noteq> 2 \<or> vendor \<noteq> 0x554d4551))
           ''could not find virtio disk'') (
     sq (regw 0x070 0) (
     sq (regw 0x070 1) (
     sq (regw 0x070 (1 OR 2)) (
     bnd (regr 0x010) (\<lambda>features.
     sq (regw 0x020 (driver_features features)) (
     sq (regw 0x070 (1 OR 2 OR 8)) (
     bnd (regr 0x070) (\<lambda>status.
     sq (unless_panic (status AND 8 \<noteq> 0) ''virtio disk FEATURES_OK unset'') (
     sq (regw 0x030 0) (
     bnd (regr 0x044) (\<lambda>ready.
     sq (unless_panic (ready = 0) ''virtio disk should not be ready'') (
     bnd (regr 0x034) (\<lambda>mx.
     sq (unless_panic (mx \<noteq> 0) ''virtio disk has no queue 0'') (
     sq (unless_panic (\<not> mx < of_nat NUM) ''virtio disk max queue too short'') (
     bnd kalloc (\<lambda>desc.
     bnd kalloc (\<lambda>avail.
     bnd kalloc (\<lambda>used.
     sq (unless_panic (desc \<noteq> 0 \<and> avail \<noteq> 0 \<and> used \<noteq> 0) ''virtio disk kalloc'') (
     sq (virtio_queue_pages desc avail used) (
     sq (regw 0x044 1) (
     sq (foreach [0..<NUM] (\<lambda>i. upd (\<lambda>s. s\<lparr>vd_free := (vd_free s)[i := True]\<rparr>)))
        (regw 0x070 (status OR 4)))))))))))))))))))))))))))"

section \<open>Descriptors\<close>

definition alloc_desc :: "('z virtio_st_scheme, nat option) kernel" where
  "alloc_desc =
     bnd (get (\<lambda>s. find (\<lambda>i. vd_free s ! i) [0..<NUM])) (\<lambda>r.
     case r of
       None \<Rightarrow> ret None
     | Some i \<Rightarrow> sq (upd (\<lambda>s. s\<lparr>vd_free := (vd_free s)[i := False]\<rparr>)) (ret (Some i)))"

definition free_desc :: "nat \<Rightarrow> ('z virtio_st_scheme, unit) kernel" where
  "free_desc i =
     sq (unless_panic (\<not> i \<ge> NUM) ''free_desc 1'') (
     bnd (get (\<lambda>s. vd_free s ! i)) (\<lambda>f.
     sq (unless_panic (\<not> f) ''free_desc 2'') (
     sq (dset i (\<lambda>d. d\<lparr>vd_addr := D_null\<rparr>)) (
     sq (dset i (\<lambda>d. d\<lparr>vd_len := 0\<rparr>)) (
     sq (dset i (\<lambda>d. d\<lparr>vd_flags := 0\<rparr>)) (
     sq (dset i (\<lambda>d. d\<lparr>vd_next := 0\<rparr>)) (
     sq (upd (\<lambda>s. s\<lparr>vd_free := (vd_free s)[i := True]\<rparr>))
        (wakeup Chan_disk_free))))))))"

text \<open>A descriptor is not free twice, so a chain ends after at most \<open>NUM\<close> descriptors.\<close>

primrec free_chain_from :: "nat \<Rightarrow> nat \<Rightarrow> ('z virtio_st_scheme, unit) kernel" where
  "free_chain_from 0 i = panic ''free_chain: fuel''"
| "free_chain_from (Suc n) i =
     bnd (dfield i vd_flags) (\<lambda>flag.
     bnd (dfield i vd_next) (\<lambda>nxt.
     sq (free_desc i)
        (if flag AND VRING_DESC_F_NEXT \<noteq> 0 then free_chain_from n nxt else ret ())))"

definition free_chain :: "nat \<Rightarrow> ('z virtio_st_scheme, unit) kernel" where
  "free_chain i = free_chain_from (Suc NUM) i"

definition alloc3_desc :: "('z virtio_st_scheme, (nat \<times> nat \<times> nat) option) kernel" where
  "alloc3_desc =
     bnd alloc_desc (\<lambda>r.
     case r of
       None \<Rightarrow> ret None
     | Some i \<Rightarrow>
         bnd alloc_desc (\<lambda>r.
         case r of
           None \<Rightarrow> sq (free_desc i) (ret None)
         | Some j \<Rightarrow>
             bnd alloc_desc (\<lambda>r.
             case r of
               None \<Rightarrow> sq (free_desc i) (sq (free_desc j) (ret None))
             | Some k \<Rightarrow> ret (Some (i, j, k)))))"

section \<open>Requests\<close>

text \<open>Formatting a request and handing it to the device.\<close>

definition virtio_submit :: "nat \<Rightarrow> bool \<Rightarrow> nat \<Rightarrow> nat \<Rightarrow> nat \<Rightarrow> ('z virtio_st_scheme, unit) kernel" where
  "virtio_submit b wr i j k =
     bnd (bfield b b_blockno) (\<lambda>blockno.
     let sector = ucast ((of_nat blockno :: u32) * of_nat (BSIZE div 512)) :: u64 in
     sq (upd (\<lambda>s. s\<lparr>vd_ops := (vd_ops s)[i := \<lparr>rq_type = (if wr then VIRTIO_BLK_T_OUT else VIRTIO_BLK_T_IN),
           rq_reserved = 0, rq_sector = sector\<rparr>]\<rparr>)) (
     sq (dset i (\<lambda>_. \<lparr>vd_addr = D_op i, vd_len = 16, vd_flags = VRING_DESC_F_NEXT, vd_next = j\<rparr>)) (
     sq (dset j (\<lambda>_. \<lparr>vd_addr = D_data b, vd_len = BSIZE,
           vd_flags = (if wr then 0 else VRING_DESC_F_WRITE) OR VRING_DESC_F_NEXT, vd_next = k\<rparr>)) (
     sq (upd (\<lambda>s. s\<lparr>info_status := (info_status s)[i := 0xff]\<rparr>)) (
     sq (dset k (\<lambda>_. \<lparr>vd_addr = D_status i, vd_len = 1, vd_flags = VRING_DESC_F_WRITE, vd_next = 0\<rparr>)) (
     sq (bset b (\<lambda>d. d\<lparr>b_disk := True\<rparr>)) (
     sq (upd (\<lambda>s. s\<lparr>info_b := (info_b s)[i := Some b]\<rparr>)) (
     sq (upd (\<lambda>s. s\<lparr>avail_ring := (avail_ring s)[unat (avail_idx s) mod NUM := i]\<rparr>)) (
     sq (upd (\<lambda>s. s\<lparr>avail_idx := avail_idx s + 1\<rparr>))
        (regw 0x050 0))))))))))"

definition virtio_wait :: "nat \<Rightarrow> nat \<Rightarrow> ('z virtio_st_scheme, unit) kernel" where
  "virtio_wait b i =
     bnd (bfield b b_disk) (\<lambda>busy.
     if busy then sleep (Chan_buf b) L_vdisk
     else sq (upd (\<lambda>s. s\<lparr>info_b := (info_b s)[i := None]\<rparr>)) (
          sq (free_chain i)
             (lock_release L_vdisk)))"

definition virtio_start :: "nat \<Rightarrow> bool \<Rightarrow> ('z virtio_st_scheme, unit) kernel" where
  "virtio_start b wr =
     bnd alloc3_desc (\<lambda>r.
     case r of
       None \<Rightarrow> sleep Chan_disk_free L_vdisk
     | Some (i, j, k) \<Rightarrow>
         sq (virtio_submit b wr i j k)
            (virtio_wait b i))"

definition virtio_disk_rw :: "nat \<Rightarrow> bool \<Rightarrow> ('z virtio_st_scheme, unit) kernel" where
  "virtio_disk_rw b wr = sq (lock_acquire L_vdisk) (virtio_start b wr)"

definition virtio_start_resume :: "nat \<Rightarrow> bool \<Rightarrow> ('z virtio_st_scheme, unit) kernel" where
  "virtio_start_resume b wr = sq (sleep_resume L_vdisk) (virtio_start b wr)"

definition virtio_wait_resume :: "nat \<Rightarrow> nat \<Rightarrow> ('z virtio_st_scheme, unit) kernel" where
  "virtio_wait_resume b i = sq (sleep_resume L_vdisk) (virtio_wait b i)"

text \<open>
  The loop of the interrupt handler takes the completions the device has put into the ring;
  they are at most \<open>2 ^ 16 - 1\<close>, the range of the index.
\<close>

primrec virtio_completions :: "nat \<Rightarrow> ('z virtio_st_scheme, unit) kernel" where
  "virtio_completions 0 = ret ()"
| "virtio_completions (Suc n) =
     bnd (get (\<lambda>s. vd_used_idx s \<noteq> used_idx s)) (\<lambda>more.
     whenk more (
       bnd (get (\<lambda>s. used_ring s ! (unat (vd_used_idx s) mod NUM))) (\<lambda>id.
       bnd (get (\<lambda>s. info_status s ! id)) (\<lambda>status.
       sq (unless_panic (status = 0) ''virtio_disk_intr status'') (
       bnd (get (\<lambda>s. info_b s ! id)) (\<lambda>b.
       case b of
         None \<Rightarrow> panic ''virtio_disk_intr: null buf''
       | Some b \<Rightarrow>
           sq (bset b (\<lambda>d. d\<lparr>b_disk := False\<rparr>)) (
           sq (wakeup (Chan_buf b)) (
           sq (upd (\<lambda>s. s\<lparr>vd_used_idx := vd_used_idx s + 1\<rparr>))
              (virtio_completions n)))))))))"

definition virtio_disk_intr :: "('z virtio_st_scheme, unit) kernel" where
  "virtio_disk_intr =
     sq (lock_acquire L_vdisk) (
     bnd (regr 0x060) (\<lambda>st.
     sq (regw 0x064 (st AND 3)) (
     bnd (get (\<lambda>s. unat (used_idx s - vd_used_idx s))) (\<lambda>n.
     sq (virtio_completions n)
        (lock_release L_vdisk)))))"

end
