(* ===== verification/Log.thy ===== *)
theory Log
  imports Virtio
begin

text \<open>
  \<^verbatim>\<open>kernel/log.c\<close>: the write-ahead log.  The in-memory log header is the count \<open>lh_n\<close> and
  the block numbers \<open>lh_block\<close>; on disk both sit at the start of the header block as 32-bit
  little-endian words.  A count beyond \<open>LOGBLOCKS\<close> in the header that is read would overrun the
  in-memory array; the model stops there.
\<close>

section \<open>Words in a block\<close>

definition get32 :: "nat \<Rightarrow> block \<Rightarrow> u32" where
  "get32 off d = le_word (take 4 (drop off d))"

definition put_bytes :: "nat \<Rightarrow> byte list \<Rightarrow> block \<Rightarrow> block" where
  "put_bytes off bs d = take off d @ bs @ drop (off + length bs) d"

definition put32 :: "nat \<Rightarrow> u32 \<Rightarrow> block \<Rightarrow> block" where
  "put32 off v d = put_bytes off (le_bytes 4 v) d"

lemma length_put_bytes [simp]: "off + length bs \<le> length d \<Longrightarrow> length (put_bytes off bs d) = length d"
  by (simp add: put_bytes_def)

lemma length_put32 [simp]: "off + 4 \<le> length d \<Longrightarrow> length (put32 off v d) = length d"
  by (simp add: put32_def)

lemma get_put_bytes: "off + length bs \<le> length d \<Longrightarrow> length bs = n \<Longrightarrow>
    take n (drop off (put_bytes off bs d)) = bs"
  by (simp add: put_bytes_def)

lemma nth_put_bytes: "off + length bs \<le> length d \<Longrightarrow> i < length d \<Longrightarrow>
    put_bytes off bs d ! i = (if off \<le> i \<and> i < off + length bs then bs ! (i - off) else d ! i)"
  by (auto simp: put_bytes_def nth_append min_def)

lemma get_put_bytes_other:
  assumes "off + length bs \<le> length d" "p + n \<le> off \<or> off + length bs \<le> p"
  shows "take n (drop p (put_bytes off bs d)) = take n (drop p d)"
  by (rule nth_equalityI) (use assms in \<open>auto simp: nth_put_bytes\<close>)

lemma get32_put32 [simp]: "off + 4 \<le> length d \<Longrightarrow> get32 off (put32 off v d) = v"
  by (simp add: get32_def put32_def get_put_bytes)

lemma get32_put32_other:
  "off + 4 \<le> length d \<Longrightarrow> p + 4 \<le> off \<or> off + 4 \<le> p \<Longrightarrow> get32 p (put32 off v d) = get32 p d"
  by (simp add: get32_def put32_def get_put_bytes_other)

section \<open>Structures\<close>

definition LOGBLOCKS :: nat where "LOGBLOCKS = MAXOPBLOCKS * 3"

record superblock =
  sb_magic :: u32
  sb_size :: nat
  sb_nblocks :: nat
  sb_ninodes :: nat
  sb_nlog :: nat
  sb_logstart :: nat
  sb_inodestart :: nat
  sb_bmapstart :: nat

record log_st = virtio_st +
  log_start :: nat
  log_outstanding :: int
  log_committing :: bool
  log_dev :: nat
  lh_n :: int
  lh_block :: "nat list"

text \<open>The header in the bytes of its block: \<open>n\<close>, then the block numbers.\<close>

definition hdr_n :: "block \<Rightarrow> int" where
  "hdr_n d = sint (get32 0 d)"

definition hdr_block :: "block \<Rightarrow> nat \<Rightarrow> nat" where
  "hdr_block d i = unat (get32 (4 + 4 * i) d)"

definition hdr_put :: "int \<Rightarrow> nat list \<Rightarrow> block \<Rightarrow> block" where
  "hdr_put n bl d =
     fold (\<lambda>i d. put32 (4 + 4 * i) (of_nat (bl ! i)) d) [0..<nat n] (put32 0 (word_of_int n) d)"

section \<open>Functions\<close>

definition install_block :: "bool \<Rightarrow> nat \<Rightarrow> ('z log_st_scheme, unit) kernel" where
  "install_block recovering tail =
     sq (whenk recovering (printk ''recovering tail %d dst %d'')) (
     bnd (get log_dev) (\<lambda>dev.
     bnd (get log_start) (\<lambda>start.
     bnd (bread dev (start + tail + 1)) (\<lambda>lbuf.
     bnd (get (\<lambda>s. lh_block s ! tail)) (\<lambda>dst.
     bnd (bread dev dst) (\<lambda>dbuf.
     bnd (bfield lbuf b_data) (\<lambda>d.
     sq (bset dbuf (\<lambda>k. k\<lparr>b_data := d\<rparr>)) (
     sq (bwrite dbuf) (
     sq (whenk (\<not> recovering) (bunpin dbuf)) (
     sq (brelse lbuf)
        (brelse dbuf)))))))))))"

definition install_trans :: "bool \<Rightarrow> ('z log_st_scheme, unit) kernel" where
  "install_trans recovering =
     bnd (get lh_n) (\<lambda>n. foreach [0..<nat n] (install_block recovering))"

definition read_head :: "('z log_st_scheme, unit) kernel" where
  "read_head =
     bnd (get log_dev) (\<lambda>dev.
     bnd (get log_start) (\<lambda>start.
     bnd (bread dev start) (\<lambda>b.
     bnd (bfield b b_data) (\<lambda>d.
     sq (upd (\<lambda>s. s\<lparr>lh_n := hdr_n d\<rparr>)) (
     sq (unless_panic (hdr_n d \<le> int LOGBLOCKS) ''read_head: overrun'') (
     sq (foreach [0..<nat (hdr_n d)] (\<lambda>i. upd (\<lambda>s. s\<lparr>lh_block := (lh_block s)[i := hdr_block d i]\<rparr>)))
        (brelse b)))))))"

definition write_head :: "('z log_st_scheme, unit) kernel" where
  "write_head =
     bnd (get log_dev) (\<lambda>dev.
     bnd (get log_start) (\<lambda>start.
     bnd (bread dev start) (\<lambda>b.
     bnd (get lh_n) (\<lambda>n.
     bnd (get lh_block) (\<lambda>bl.
     sq (bset b (\<lambda>k. k\<lparr>b_data := hdr_put n bl (b_data k)\<rparr>)) (
     sq (bwrite b)
        (brelse b)))))))"

definition recover_from_log :: "('z log_st_scheme, unit) kernel" where
  "recover_from_log =
     sq read_head (
     sq (install_trans True) (
     sq (upd (\<lambda>s. s\<lparr>lh_n := 0\<rparr>))
        write_head))"

text \<open>The header, 4 + 4 * 30 bytes, is smaller than a block.\<close>

definition initlog :: "nat \<Rightarrow> superblock \<Rightarrow> ('z log_st_scheme, unit) kernel" where
  "initlog dev sb =
     sq (unless_panic (\<not> 4 + 4 * LOGBLOCKS \<ge> BSIZE) ''initlog: too big logheader'') (
     sq (upd (\<lambda>s. s\<lparr>log_start := sb_logstart sb\<rparr>)) (
     sq (upd (\<lambda>s. s\<lparr>log_dev := dev\<rparr>))
        recover_from_log))"

definition begin_op_loop :: "('z log_st_scheme, unit) kernel" where
  "begin_op_loop =
     bnd (get log_committing) (\<lambda>committing.
     bnd (get lh_n) (\<lambda>n.
     bnd (get log_outstanding) (\<lambda>outstanding.
     if committing then sleep Chan_log L_log
     else if n + (outstanding + 1) * int MAXOPBLOCKS > int LOGBLOCKS then sleep Chan_log L_log
     else sq (upd (\<lambda>s. s\<lparr>log_outstanding := log_outstanding s + 1\<rparr>))
             (lock_release L_log))))"

definition begin_op :: "('z log_st_scheme, unit) kernel" where
  "begin_op = sq (lock_acquire L_log) begin_op_loop"

definition begin_op_resume :: "('z log_st_scheme, unit) kernel" where
  "begin_op_resume = sq (sleep_resume L_log) begin_op_loop"

definition write_log_block :: "nat \<Rightarrow> ('z log_st_scheme, unit) kernel" where
  "write_log_block tail =
     bnd (get log_dev) (\<lambda>dev.
     bnd (get log_start) (\<lambda>start.
     bnd (bread dev (start + tail + 1)) (\<lambda>to.
     bnd (get (\<lambda>s. lh_block s ! tail)) (\<lambda>home.
     bnd (bread dev home) (\<lambda>from.
     bnd (bfield from b_data) (\<lambda>d.
     sq (bset to (\<lambda>k. k\<lparr>b_data := d\<rparr>)) (
     sq (bwrite to) (
     sq (brelse from)
        (brelse to)))))))))"

definition write_log :: "('z log_st_scheme, unit) kernel" where
  "write_log = bnd (get lh_n) (\<lambda>n. foreach [0..<nat n] write_log_block)"

definition commit :: "('z log_st_scheme, unit) kernel" where
  "commit =
     bnd (get lh_n) (\<lambda>n.
     whenk (n > 0) (
       sq write_log (
       sq write_head (
       sq (install_trans False) (
       sq (upd (\<lambda>s. s\<lparr>lh_n := 0\<rparr>))
          write_head)))))"

text \<open>
  \<^verbatim>\<open>end_op\<close> in its parts: a critical section that decides whether to commit, the commit
  outside of it, and a second critical section.
\<close>

definition end_op_leave :: "('z log_st_scheme, bool) kernel" where
  "end_op_leave =
     sq (lock_acquire L_log) (
     sq (upd (\<lambda>s. s\<lparr>log_outstanding := log_outstanding s - 1\<rparr>)) (
     bnd (get log_committing) (\<lambda>committing.
     sq (unless_panic (\<not> committing) ''log.committing'') (
     bnd (get (\<lambda>s. log_outstanding s = 0)) (\<lambda>do_commit.
     sq (if do_commit then upd (\<lambda>s. s\<lparr>log_committing := True\<rparr>) else wakeup Chan_log) (
     sq (lock_release L_log)
        (ret do_commit)))))))"

definition end_op_done :: "('z log_st_scheme, unit) kernel" where
  "end_op_done =
     sq (lock_acquire L_log) (
     sq (upd (\<lambda>s. s\<lparr>log_committing := False\<rparr>)) (
     sq (wakeup Chan_log)
        (lock_release L_log)))"

definition end_op :: "('z log_st_scheme, unit) kernel" where
  "end_op =
     bnd end_op_leave (\<lambda>do_commit.
     whenk do_commit (
       sq commit
          end_op_done))"

text \<open>Where \<^verbatim>\<open>log_write\<close> puts a block: its old slot, or the first free one.\<close>

definition log_slot :: "nat list \<Rightarrow> int \<Rightarrow> nat \<Rightarrow> nat" where
  "log_slot bl n blockno =
     (case find (\<lambda>i. bl ! i = blockno) [0..<nat n] of Some i \<Rightarrow> i | None \<Rightarrow> nat n)"

definition log_write :: "nat \<Rightarrow> ('z log_st_scheme, unit) kernel" where
  "log_write b =
     sq (lock_acquire L_log) (
     bnd (get lh_n) (\<lambda>n.
     sq (unless_panic (\<not> n \<ge> int LOGBLOCKS) ''too big a transaction'') (
     bnd (get log_outstanding) (\<lambda>outstanding.
     sq (unless_panic (\<not> outstanding < 1) ''log_write outside of trans'') (
     bnd (bfield b b_blockno) (\<lambda>blockno.
     bnd (get (\<lambda>s. log_slot (lh_block s) n blockno)) (\<lambda>i.
     sq (upd (\<lambda>s. s\<lparr>lh_block := (lh_block s)[i := blockno]\<rparr>)) (
     sq (whenk (int i = n) (
          sq (bpin b)
             (upd (\<lambda>s. s\<lparr>lh_n := lh_n s + 1\<rparr>))))
        (lock_release L_log)))))))))"

section \<open>The header block\<close>

lemma length_hdr_fold:
  "4 + 4 * n \<le> length d \<Longrightarrow> length (fold (\<lambda>i d. put32 (4 + 4 * i) (f i) d) [0..<n] d) = length d"
  by (induction n) auto

lemma length_hdr_put [simp]: "nat n \<le> LOGBLOCKS \<Longrightarrow> length d = BSIZE \<Longrightarrow> length (hdr_put n bl d) = BSIZE"
  by (simp add: hdr_put_def length_hdr_fold LOGBLOCKS_def MAXOPBLOCKS_def BSIZE_def)

lemma hdr_fold_n:
  "4 + 4 * n \<le> length d \<Longrightarrow> get32 0 (fold (\<lambda>i d. put32 (4 + 4 * i) (f i) d) [0..<n] d) = get32 0 d"
  by (induction n) (simp_all add: get32_put32_other length_hdr_fold)

lemma hdr_fold_block:
  "4 + 4 * n \<le> length d \<Longrightarrow> i < n \<Longrightarrow>
     get32 (4 + 4 * i) (fold (\<lambda>i d. put32 (4 + 4 * i) (f i) d) [0..<n] d) = f i"
proof (induction n)
  case 0
  then show ?case by simp
next
  case (Suc n)
  then show ?case
    by (cases "i = n") (simp_all add: get32_put32_other length_hdr_fold less_Suc_eq)
qed

lemma hdr_n_put:
  assumes "0 \<le> n" "n \<le> int LOGBLOCKS" "length d = BSIZE"
  shows "hdr_n (hdr_put n bl d) = n"
proof -
  have "get32 0 (hdr_put n bl d) = word_of_int n"
    using assms unfolding hdr_put_def
    by (subst hdr_fold_n) (simp_all add: LOGBLOCKS_def MAXOPBLOCKS_def BSIZE_def)
  moreover have "sint (word_of_int n :: u32) = n"
    using assms by (simp add: int_word_sint LOGBLOCKS_def MAXOPBLOCKS_def)
  ultimately show ?thesis by (simp add: hdr_n_def)
qed

lemma hdr_block_put:
  assumes "0 \<le> n" "n \<le> int LOGBLOCKS" "length d = BSIZE" "int i < n" "bl ! i < 2 ^ 32"
  shows "hdr_block (hdr_put n bl d) i = bl ! i"
proof -
  have "get32 (4 + 4 * i) (hdr_put n bl d) = of_nat (bl ! i)"
    using assms unfolding hdr_put_def
    by (intro hdr_fold_block) (simp_all add: LOGBLOCKS_def MAXOPBLOCKS_def BSIZE_def nat_less_iff)
  then show ?thesis using assms(5) by (simp add: hdr_block_def unat_of_nat take_bit_eq_mod)
qed

section \<open>Writes\<close>

definition apply_writes :: "(nat \<times> block) list \<Rightarrow> (nat \<Rightarrow> block) \<Rightarrow> nat \<Rightarrow> block" where
  "apply_writes ws d = fold (\<lambda>(n, b) f. f(n := b)) ws d"

definition wrote :: "(nat \<times> block) list \<Rightarrow> bview \<Rightarrow> bview" where
  "wrote ws v = v\<lparr>vcont := apply_writes ws (vcont v), vdisk := apply_writes ws (vdisk v),
     vtrace := vtrace v @ ws\<rparr>"

lemma apply_writes_simps [simp]:
  "apply_writes [] d = d" "apply_writes ((n, b) # ws) d = apply_writes ws (d(n := b))"
  by (simp_all add: apply_writes_def)

lemma apply_writes_append [simp]: "apply_writes (ws @ ws') d = apply_writes ws' (apply_writes ws d)"
  by (simp add: apply_writes_def)

lemma apply_writes_other: "m \<notin> fst ` set ws \<Longrightarrow> apply_writes ws d m = d m"
  by (induction ws arbitrary: d) auto

lemma apply_writes_in:
  "distinct (map fst ws) \<Longrightarrow> (m, b) \<in> set ws \<Longrightarrow> apply_writes ws d m = b"
proof (induction ws arbitrary: d)
  case Nil
  then show ?case by simp
next
  case (Cons w ws)
  then show ?case
    by (cases w) (auto simp: apply_writes_other image_iff intro!: apply_writes_other)
qed

lemma wrote_simps [simp]:
  "wrote [] v = v" "wrote ws' (wrote ws v) = wrote (ws @ ws') v"
  "vrefs (wrote ws v) = vrefs v" "vlock (wrote ws v) = vlock v" "vfree (wrote ws v) = vfree v"
  "vcont (wrote ws v) = apply_writes ws (vcont v)" "vdisk (wrote ws v) = apply_writes ws (vdisk v)"
  "vtrace (wrote ws v) = vtrace v @ ws"
  by (simp_all add: wrote_def)

section \<open>Steps of a commit\<close>

text \<open>
  The state in which the log's loops run: only this thread is at work, so no buffer is locked,
  and a buffer is free.
\<close>

definition log_idle :: "'z log_st_scheme \<Rightarrow> bool" where
  "log_idle s \<longleftrightarrow> bc_inv s \<and> log_dev s = ROOTDEV \<and> (\<forall>n. vlock (bview s) n = None) \<and> 0 < vfree (bview s)"

lemma log_idleD:
  assumes "log_idle s"
  shows "bc_inv s" "log_dev s = ROOTDEV" "vlock (bview s) n = None" "0 < vfree (bview s)"
  using assms by (simp_all add: log_idle_def)

lemma bframe_log:
  assumes "bframe s t"
  shows "lh_n t = lh_n s" "lh_block t = lh_block s" "log_start t = log_start s" "log_dev t = log_dev s"
    "log_outstanding t = log_outstanding s" "log_committing t = log_committing s"
  using assms by (auto simp: bframe_def)

lemma bview_eqI:
  "vcont v = vcont w \<Longrightarrow> vrefs v = vrefs w \<Longrightarrow> vlock v = vlock w \<Longrightarrow> vfree v = vfree w \<Longrightarrow>
     vdisk v = vdisk w \<Longrightarrow> vtrace v = vtrace w \<Longrightarrow> v = (w :: bview)"
  by simp

text \<open>An unreferenced block is clean.\<close>

lemma clean_block: "bc_inv s \<Longrightarrow> vrefs (bview s) n = 0 \<Longrightarrow> vcont (bview s) n = vdisk (bview s) n"
  using bc_invD(6) [of s] fnd_Some [of "bufs s" n]
  by (auto simp: bview_def cont_def refs_def buf_ok_def unat_eq_0 split: option.splits)

lemma write_log_block_spec:
  assumes "log_idle s" "a = log_start s + tail + 1" "c = lh_block s ! tail" "a \<noteq> c"
    "vrefs (bview s) a = 0" "0 < vrefs (bview s) c" "vrefs (bview s) c < 2 ^ 31"
  shows "\<exists>t. write_log_block tail s = Ok () t \<and> bframe s t \<and> bc_inv t \<and>
     bview t = wrote [(a, vcont (bview s) c)] (bview s)"
proof -
  note i = log_idleD [OF assms(1)]
  have room: "(if vrefs (bview s) a = 0 then 1 else 0) + (if vrefs (bview s) c = 0 then 1 else 0) \<le> vfree (bview s)"
    "vrefs (bview s) a < 2 ^ 32 - 1" "vrefs (bview s) c < 2 ^ 32 - 1"
    using i(4) assms(5-7) by auto
  from bc.read2 [OF i(1) assms(4) i(3) i(3) room] obtain ha hc t u where
    u: "bread ROOTDEV a s = Ok ha t" "bread ROOTDEV c t = Ok hc u" "bframe s t" "bframe s u" "bc_inv u"
    "handle u a = Some ha" "handle u c = Some hc" "b_data (bufs u ! hc) = vcont (bview s) c"
    "bview u = (bview s)\<lparr>vrefs := (vrefs (bview s))(a := vrefs (bview s) a + 1, c := vrefs (bview s) c + 1),
       vlock := (vlock (bview s))(a := Some (mypid s), c := Some (mypid s)),
       vfree := vfree (bview s) - (if vrefs (bview s) a = 0 then 1 else 0) - (if vrefs (bview s) c = 0 then 1 else 0)\<rparr>"
    by blast
  have mu: "mypid u = mypid s" using bc.fr_me [OF u(4) i(1)] .
  have "0 < vrefs (bview u) a" "vlock (bview u) a = Some (mypid u)"
    using assms(4) mu by (simp_all add: u(9))
  from bc.store [OF u(5,6) this, of "\<lambda>_. b_data (bufs u ! hc)"] obtain v w where
    w: "bset ha (\<lambda>k. k\<lparr>b_data := b_data (bufs u ! hc)\<rparr>) u = Ok () v" "bwrite ha v = Ok () w"
    "bframe u w" "bc_inv w" "handle w = handle u"
    "bview w = (bview u)\<lparr>vcont := (vcont (bview u))(a := vcont (bview s) c),
       vdisk := (vdisk (bview u))(a := vcont (bview s) c), vtrace := vtrace (bview u) @ [(a, vcont (bview s) c)]\<rparr>"
    using u(8) bc.cont_len [OF i(1)] by auto
  have mw: "mypid w = mypid s" using bc.fr_me [OF w(3) u(5)] mu by simp
  have "handle w c = Some hc" "handle w a = Some ha" using u(6,7) w(5) by simp_all
  moreover have "vlock (bview w) c = Some (mypid w)" "vlock (bview w) a = Some (mypid w)"
    "0 < vrefs (bview w) c" "0 < vrefs (bview w) a"
    "vrefs (bview w) c \<noteq> 1" "vcont (bview w) a = vdisk (bview w) a"
    using assms(4,6) mw by (simp_all add: w(6) u(9))
  ultimately obtain x y where y: "brelse hc w = Ok () x" "brelse ha x = Ok () y" "bframe w y" "bc_inv y"
    "bview y = (bview w)\<lparr>vrefs := (vrefs (bview w))(c := vrefs (bview w) c - 1, a := vrefs (bview w) a - 1),
       vlock := (vlock (bview w))(c := None, a := None),
       vfree := vfree (bview w) + (if vrefs (bview w) c = 1 then 1 else 0) + (if vrefs (bview w) a = 1 then 1 else 0)\<rparr>"
    using bc.rel2 [OF w(4) assms(4) [symmetric]] by metis
  have "write_log_block tail s = Ok () y"
    using u(1,2) w(1,2) y(1,2) i(2) bframe_log [OF u(3)]
    by (simp add: write_log_block_def bnd_run sq_run assms(2,3))
  moreover have "bview y = wrote [(a, vcont (bview s) c)] (bview s)"
    by (rule bview_eqI) (use assms(4-6) i(3,4) in \<open>simp_all add: y(5) w(6) u(9) fun_eq_iff\<close>)
  moreover have "bframe s y" using bframe_trans u(4) w(3) y(3) by blast
  ultimately show ?thesis using y(4) by blast
qed

text \<open>The installation of one block, while committing and while recovering.\<close>

lemma install_block_spec:
  assumes "log_idle s" "a = log_start s + tail + 1" "c = lh_block s ! tail" "a \<noteq> c"
    "vrefs (bview s) a = 0" "vrefs (bview s) c = (if rec then 0 else 1)" "rec \<Longrightarrow> 1 < vfree (bview s)"
  shows "\<exists>t. install_block rec tail s = Ok () t \<and> bframe s t \<and> bc_inv t \<and>
     bview t = wrote [(c, vcont (bview s) a)] (bview s
       \<lparr>vrefs := (vrefs (bview s))(c := 0), vfree := vfree (bview s) + (if rec then 0 else 1)\<rparr>)"
proof -
  note i = log_idleD [OF assms(1)]
  define s' where "s' = (if rec then s\<lparr>klog := klog s @ [''recovering tail %d dst %d'']\<rparr> else s)"
  have s': "bframe s s'" "bc_inv s'" "bview s' = bview s" "mypid s' = mypid s" "log_dev s' = ROOTDEV"
    "log_start s' = log_start s" "lh_block s' = lh_block s"
    "whenk rec (printk ''recovering tail %d dst %d'') s = Ok () s'"
    using i by (simp_all add: s'_def printk_def)
  have room: "(if vrefs (bview s') a = 0 then 1 else 0) + (if vrefs (bview s') c = 0 then 1 else 0) \<le> vfree (bview s')"
    "vrefs (bview s') a < 2 ^ 32 - 1" "vrefs (bview s') c < 2 ^ 32 - 1"
    using i(4) assms(5-7) s'(3) by (auto split: if_splits)
  have free: "vlock (bview s') n = None" for n using i(3) s'(3) by simp
  from bc.read2 [OF s'(2) assms(4) free free room] obtain ha hc t u where
    u: "bread ROOTDEV a s' = Ok ha t" "bread ROOTDEV c t = Ok hc u" "bframe s' t" "bframe s' u" "bc_inv u"
    "handle u a = Some ha" "handle u c = Some hc" "b_data (bufs u ! ha) = vcont (bview s) a"
    "bview u = (bview s)\<lparr>vrefs := (vrefs (bview s))(a := vrefs (bview s) a + 1, c := vrefs (bview s) c + 1),
       vlock := (vlock (bview s))(a := Some (mypid s), c := Some (mypid s)),
       vfree := vfree (bview s) - (if vrefs (bview s) a = 0 then 1 else 0) - (if vrefs (bview s) c = 0 then 1 else 0)\<rparr>"
    unfolding s'(3,4) by blast
  have mu: "mypid u = mypid s" using bc.fr_me [OF u(4) s'(2)] s'(4) by simp
  have "0 < vrefs (bview u) c" "vlock (bview u) c = Some (mypid u)" using mu by (simp_all add: u(9))
  from bc.store [OF u(5,7) this, of "\<lambda>_. b_data (bufs u ! ha)"] obtain v w where
    w: "bset hc (\<lambda>k. k\<lparr>b_data := b_data (bufs u ! ha)\<rparr>) u = Ok () v" "bwrite hc v = Ok () w"
    "bframe u w" "bc_inv w" "handle w = handle u"
    "bview w = (bview u)\<lparr>vcont := (vcont (bview u))(c := vcont (bview s) a),
       vdisk := (vdisk (bview u))(c := vcont (bview s) a), vtrace := vtrace (bview u) @ [(c, vcont (bview s) a)]\<rparr>"
    using u(8) bc.cont_len [OF i(1)] by auto
  have mw: "mypid w = mypid s" using bc.fr_me [OF w(3) u(5)] mu by simp
  have "\<exists>z. whenk (\<not> rec) (bunpin hc) w = Ok () z \<and> bframe w z \<and> bc_inv z \<and> handle z = handle w \<and>
      bview z = (bview w)\<lparr>vrefs := (vrefs (bview w))(c := 1)\<rparr>"
  proof (cases rec)
    case True
    then have "(vrefs (bview w))(c := 1) = vrefs (bview w)" using assms(6) by (simp add: w(6) u(9) fun_eq_iff)
    with True w(4) show ?thesis by (intro exI [of _ w]) simp
  next
    case False
    have "handle w c = Some hc" "1 < vrefs (bview w) c" "vrefs (bview w) c - 1 = 1"
      using False assms(6) u(7) w(5) by (simp_all add: w(6) u(9))
    with False bc.unpin [OF w(4)] show ?thesis by fastforce
  qed
  then obtain z where z: "whenk (\<not> rec) (bunpin hc) w = Ok () z" "bframe w z" "bc_inv z"
    "handle z = handle w" "bview z = (bview w)\<lparr>vrefs := (vrefs (bview w))(c := 1)\<rparr>" by blast
  have mz: "mypid z = mypid s" using bc.fr_me [OF z(2) w(4)] mw by simp
  have "handle z a = Some ha" "handle z c = Some hc" using u(6,7) w(5) z(4) by simp_all
  moreover have "vlock (bview z) a = Some (mypid z)" "vlock (bview z) c = Some (mypid z)"
    "0 < vrefs (bview z) a" "0 < vrefs (bview z) c" "vcont (bview z) c = vdisk (bview z) c"
    "vcont (bview z) a = vdisk (bview z) a"
    using assms(4,5) mz clean_block [OF i(1) assms(5)] by (simp_all add: z(5) w(6) u(9))
  ultimately obtain x y where y: "brelse ha z = Ok () x" "brelse hc x = Ok () y" "bframe z y" "bc_inv y"
    "bview y = (bview z)\<lparr>vrefs := (vrefs (bview z))(a := vrefs (bview z) a - 1, c := vrefs (bview z) c - 1),
       vlock := (vlock (bview z))(a := None, c := None),
       vfree := vfree (bview z) + (if vrefs (bview z) a = 1 then 1 else 0) + (if vrefs (bview z) c = 1 then 1 else 0)\<rparr>"
    using bc.rel2 [OF z(3) assms(4)] by metis
  have two: "rec \<longrightarrow> Suc (Suc (vfree (bview s) - Suc (Suc 0))) = vfree (bview s)" using assms(7) by auto
  have "install_block rec tail s = Ok () y"
    using s'(8) u(1,2) w(1,2) z(1) y(1,2) s'(5-7) bframe_log [OF u(3)]
    by (simp add: install_block_def bnd_run sq_run assms(2,3) del: whenk_run)
  moreover have "bview y = wrote [(c, vcont (bview s) a)] (bview s
       \<lparr>vrefs := (vrefs (bview s))(c := 0), vfree := vfree (bview s) + (if rec then 0 else 1)\<rparr>)"
    by (rule bview_eqI) (use assms(4-6) i(3,4) two in \<open>simp_all add: y(5) z(5) w(6) u(9) fun_eq_iff\<close>)
  moreover have "bframe s y" using bframe_trans s'(1) u(4) w(3) z(2) y(3) by blast
  ultimately show ?thesis using y(4) by blast
qed

text \<open>The loops.\<close>

definition log_region :: "nat \<Rightarrow> nat set" where
  "log_region start = {start..start + LOGBLOCKS}"

definition log_writes :: "nat \<Rightarrow> (nat \<Rightarrow> block) \<Rightarrow> nat \<Rightarrow> (nat \<times> block) list" where
  "log_writes start X k = map (\<lambda>i. (start + i + 1, X i)) [0..<k]"

definition home_writes :: "nat list \<Rightarrow> (nat \<Rightarrow> block) \<Rightarrow> nat \<Rightarrow> (nat \<times> block) list" where
  "home_writes bl X k = map (\<lambda>i. (bl ! i, X i)) [0..<k]"

lemma log_writes_Suc: "log_writes start X (Suc k) = log_writes start X k @ [(start + k + 1, X k)]"
  by (simp add: log_writes_def)

lemma home_writes_Suc: "home_writes bl X (Suc k) = home_writes bl X k @ [(bl ! k, X k)]"
  by (simp add: home_writes_def)

lemma log_writes_outside: "k \<le> LOGBLOCKS \<Longrightarrow> m \<notin> log_region start \<Longrightarrow> apply_writes (log_writes start X k) d m = d m"
  by (rule apply_writes_other) (auto simp: log_writes_def log_region_def)

lemma log_writes_header: "apply_writes (log_writes start X k) d start = d start"
  by (rule apply_writes_other) (auto simp: log_writes_def)

lemma log_writes_inside: "i < k \<Longrightarrow> apply_writes (log_writes start X k) d (Suc (start + i)) = X i"
  by (rule apply_writes_in) (auto simp: log_writes_def comp_def distinct_map inj_on_def)

lemma home_writes_other: "m \<notin> set (take k bl) \<Longrightarrow> k \<le> length bl \<Longrightarrow> apply_writes (home_writes bl X k) d m = d m"
  by (rule apply_writes_other) (auto simp: home_writes_def in_set_conv_nth)

lemma log_idle_frame:
  assumes "log_idle s" "bframe s t" "bc_inv t" "vlock (bview t) = vlock (bview s)" "0 < vfree (bview t)"
  shows "log_idle t"
  using assms bframe_log(4) [OF assms(2)] by (simp add: log_idle_def)

lemma write_log_loop:
  assumes "log_idle s" "k \<le> n" "n \<le> LOGBLOCKS"
    "\<And>i. i < n \<Longrightarrow> lh_block s ! i \<notin> log_region (log_start s) \<and> vrefs (bview s) (lh_block s ! i) = 1"
    "\<And>m. m \<in> log_region (log_start s) \<Longrightarrow> vrefs (bview s) m = 0"
  shows "\<exists>t. foreach [0..<k] write_log_block s = Ok () t \<and> bframe s t \<and> bc_inv t \<and>
     bview t = wrote (log_writes (log_start s) (\<lambda>i. vcont (bview s) (lh_block s ! i)) k) (bview s)"
  using assms(2)
proof (induction k)
  case 0
  then show ?case using assms(1) by (simp add: log_writes_def log_idle_def)
next
  case (Suc k)
  let ?X = "\<lambda>i. vcont (bview s) (lh_block s ! i)"
  from Suc obtain t where t: "foreach [0..<k] write_log_block s = Ok () t" "bframe s t" "bc_inv t"
    "bview t = wrote (log_writes (log_start s) ?X k) (bview s)" by auto
  note f = bframe_log [OF t(2)]
  have k: "lh_block s ! k \<notin> log_region (log_start s)" "vrefs (bview s) (lh_block s ! k) = 1"
    using assms(4) Suc.prems by auto
  have idle: "log_idle t"
    using log_idleD(4) [OF assms(1)] by (intro log_idle_frame [OF assms(1) t(2,3)]) (simp_all add: t(4))
  have a: "log_start s + k + 1 \<in> log_region (log_start s)"
    using Suc.prems assms(3) by (auto simp: log_region_def)
  have "\<exists>u. write_log_block k t = Ok () u \<and> bframe t u \<and> bc_inv u \<and>
     bview u = wrote [(log_start s + k + 1, vcont (bview t) (lh_block s ! k))] (bview t)"
    using write_log_block_spec [OF idle, of "log_start s + k + 1" k "lh_block s ! k"] a k assms(5) f t(4)
    by (metis (no_types, lifting) less_numeral_extra(1) one_less_numeral_iff one_less_power
        semiring_norm(76) wrote_simps(3) zero_less_numeral)
  then obtain u where u: "write_log_block k t = Ok () u" "bframe t u" "bc_inv u"
     "bview u = wrote [(log_start s + k + 1, vcont (bview t) (lh_block s ! k))] (bview t)" by blast
  have "foreach [0..<Suc k] write_log_block s = Ok () u"
    by (simp only: foreach_upt_Suc t(1) res.case u(1))
  moreover have "vcont (bview t) (lh_block s ! k) = ?X k"
    using k(1) Suc.prems assms(3) by (simp add: t(4) log_writes_outside)
  ultimately show ?case using u bframe_trans [OF t(2) u(2)] t(4) by (auto simp: log_writes_Suc)
qed

lemma install_loop:
  assumes "log_idle s" "k \<le> n" "n \<le> LOGBLOCKS" "n \<le> length (lh_block s)"
    "\<And>i. i < n \<Longrightarrow> lh_block s ! i \<notin> log_region (log_start s)"
    "\<And>m. m \<in> log_region (log_start s) \<Longrightarrow> vrefs (bview s) m = 0"
    "if rec then (\<forall>i<n. vrefs (bview s) (lh_block s ! i) = 0) \<and> 1 < vfree (bview s)
     else (\<forall>i<n. vrefs (bview s) (lh_block s ! i) = 1) \<and> distinct (take n (lh_block s))"
  shows "\<exists>t. foreach [0..<k] (install_block rec) s = Ok () t \<and> bframe s t \<and> bc_inv t \<and>
     bview t = wrote (home_writes (lh_block s) (\<lambda>i. vcont (bview s) (log_start s + i + 1)) k) (bview s
       \<lparr>vrefs := (\<lambda>m. if m \<in> set (take k (lh_block s)) then 0 else vrefs (bview s) m),
        vfree := vfree (bview s) + (if rec then 0 else k)\<rparr>)"
  using assms(2)
proof (induction k)
  case 0
  then show ?case using assms(1) by (simp add: home_writes_def log_idle_def)
next
  case (Suc k)
  let ?X = "\<lambda>i. vcont (bview s) (log_start s + i + 1)" and ?bl = "lh_block s"
  from Suc obtain t where t: "foreach [0..<k] (install_block rec) s = Ok () t" "bframe s t" "bc_inv t"
    "bview t = wrote (home_writes ?bl ?X k) (bview s
       \<lparr>vrefs := (\<lambda>m. if m \<in> set (take k ?bl) then 0 else vrefs (bview s) m),
        vfree := vfree (bview s) + (if rec then 0 else k)\<rparr>)" by auto
  note f = bframe_log [OF t(2)]
  let ?a = "log_start s + k + 1" and ?c = "?bl ! k"
  have len: "k < length ?bl" using Suc.prems assms(4) by simp
  have idle: "log_idle t"
    using log_idleD(4) [OF assms(1)] by (intro log_idle_frame [OF assms(1) t(2,3)]) (simp_all add: t(4))
  have a: "?a \<in> log_region (log_start s)" using Suc.prems assms(3) by (auto simp: log_region_def)
  have ac: "?a \<noteq> ?c" using a assms(5) [of k] Suc.prems by auto
  have "set (take k ?bl) \<inter> log_region (log_start s) = {}"
    using assms(5) Suc.prems len by (auto simp: in_set_conv_nth)
  with a have fresh: "?a \<notin> set (take k ?bl)" by blast
  have ra: "vrefs (bview t) ?a = 0" using a assms(6) by (simp add: t(4))
  have "?c \<notin> set (take k ?bl)" if "\<not> rec"
    using assms(7) that Suc.prems assms(4)
    by (auto simp: in_set_conv_nth nth_eq_iff_index_eq distinct_conv_nth)
  then have rc: "vrefs (bview t) ?c = (if rec then 0 else 1)" using assms(7) Suc.prems by (auto simp: t(4))
  have "rec \<Longrightarrow> 1 < vfree (bview t)" using assms(7) by (simp add: t(4))
  from install_block_spec [OF idle _ _ ac ra rc this] obtain u where
    u: "install_block rec k t = Ok () u" "bframe t u" "bc_inv u"
     "bview u = wrote [(?c, vcont (bview t) ?a)] (bview t
       \<lparr>vrefs := (vrefs (bview t))(?c := 0), vfree := vfree (bview t) + (if rec then 0 else 1)\<rparr>)"
    using f by auto
  have run: "foreach [0..<Suc k] (install_block rec) s = Ok () u"
    by (simp only: foreach_upt_Suc t(1) res.case u(1))
  have "vcont (bview t) ?a = ?X k" using fresh len by (simp add: t(4) home_writes_other)
  moreover have "(vrefs (bview t))(?c := 0) = (\<lambda>m. if m \<in> set (take (Suc k) ?bl) then 0 else vrefs (bview s) m)"
    by (auto simp: t(4) fun_eq_iff take_Suc_conv_app_nth [OF len])
  ultimately have "bview u = wrote (home_writes ?bl ?X (Suc k)) (bview s
       \<lparr>vrefs := (\<lambda>m. if m \<in> set (take (Suc k) ?bl) then 0 else vrefs (bview s) m),
        vfree := vfree (bview s) + (if rec then 0 else Suc k)\<rparr>)"
    by (intro bview_eqI) (simp_all add: u(4) home_writes_Suc t(4))
  with run u(3) bframe_trans [OF t(2) u(2)] show ?case by blast
qed

lemma write_head_spec:
  assumes "log_idle s" "vrefs (bview s) (log_start s) = 0" "nat (lh_n s) \<le> LOGBLOCKS"
  shows "\<exists>t. write_head s = Ok () t \<and> bframe s t \<and> bc_inv t \<and>
     bview t = wrote [(log_start s, hdr_put (lh_n s) (lh_block s) (vcont (bview s) (log_start s)))] (bview s)"
proof -
  let ?n = "log_start s" and ?f = "hdr_put (lh_n s) (lh_block s)"
  note i = log_idleD [OF assms(1)]
  from bc.read [of s ?n, OF i(1,3)] i(4) assms(2) obtain b t where t: "bread ROOTDEV ?n s = Ok b t" "bframe s t"
    "bc_inv t" "handle t ?n = Some b" "b_data (bufs t ! b) = vcont (bview s) ?n"
    "bview t = (bview s)\<lparr>vrefs := (vrefs (bview s))(?n := 1),
       vlock := (vlock (bview s))(?n := Some (mypid s)), vfree := vfree (bview s) - 1\<rparr>" by auto
  have mt: "mypid t = mypid s" using bc.fr_me [OF t(2) i(1)] .
  have "length (?f (b_data (bufs t ! b))) = BSIZE" using assms(3) bc.cont_len [OF i(1)] t(5) by simp
  from bc.store [OF t(3,4) _ _, of ?f] this mt obtain u v where
    v: "bset b (\<lambda>k. k\<lparr>b_data := ?f (b_data k)\<rparr>) t = Ok () u" "bwrite b u = Ok () v" "bframe t v" "bc_inv v"
    "handle v = handle t" "bview v = (bview t)\<lparr>vcont := (vcont (bview t))(?n := ?f (vcont (bview s) ?n)),
       vdisk := (vdisk (bview t))(?n := ?f (vcont (bview s) ?n)),
       vtrace := vtrace (bview t) @ [(?n, ?f (vcont (bview s) ?n))]\<rparr>"
    by (auto simp: t(5,6))
  have "mypid v = mypid s" using bc.fr_me [OF v(3) t(3)] mt by simp
  with bc.rel [OF v(4), of ?n b] t(4) v(5) obtain w where w: "brelse b v = Ok () w" "bframe v w" "bc_inv w"
    "bview w = (bview v)\<lparr>vrefs := (vrefs (bview v))(?n := 0), vlock := (vlock (bview v))(?n := None),
       vfree := vfree (bview v) + 1\<rparr>" by (auto simp: v(6) t(6))
  have "write_head s = Ok () w"
    using t(1) v(1,2) w(1) i(2) bframe_log [OF t(2)] by (simp add: write_head_def bnd_run sq_run)
  moreover have "bview w = wrote [(?n, ?f (vcont (bview s) ?n))] (bview s)"
    by (rule bview_eqI) (use assms(2) i(3,4) in \<open>simp_all add: w(4) v(6) t(6) fun_eq_iff\<close>)
  moreover have "bframe s w" using bframe_trans t(2) v(3) w(2) by blast
  ultimately show ?thesis using w(3) by blast
qed

section \<open>Commit\<close>

text \<open>
  What holds when \<open>commit\<close> runs: \<open>n\<close> distinct home blocks are logged, each pinned once and
  otherwise nothing is referenced; the home blocks lie outside the log, and one buffer at least
  is free.
\<close>

definition commit_ready :: "'z log_st_scheme \<Rightarrow> nat \<Rightarrow> bool" where
  "commit_ready s n \<longleftrightarrow> log_idle s \<and> lh_n s = int n \<and> 0 < n \<and> n \<le> LOGBLOCKS \<and>
     length (lh_block s) = LOGBLOCKS \<and> distinct (take n (lh_block s)) \<and>
     (\<forall>i<n. lh_block s ! i \<notin> log_region (log_start s) \<and> lh_block s ! i < 2 ^ 32) \<and>
     (\<forall>m. vrefs (bview s) m = (if m \<in> set (take n (lh_block s)) then 1 else 0))"

definition commit_writes :: "'z log_st_scheme \<Rightarrow> nat \<Rightarrow> (nat \<times> block) list" where
  "commit_writes s n =
     (let X = (\<lambda>i. vcont (bview s) (lh_block s ! i));
          h = hdr_put (int n) (lh_block s) (vcont (bview s) (log_start s))
      in log_writes (log_start s) X n @ [(log_start s, h)] @ home_writes (lh_block s) X n @
         [(log_start s, hdr_put 0 (lh_block s) h)])"

lemma commit_spec:
  assumes "commit_ready s n"
  shows "\<exists>t. commit s = Ok () t \<and> bc_inv t \<and> lh_n t = 0 \<and>
     bview t = wrote (commit_writes s n)
       (bview s\<lparr>vrefs := (\<lambda>_. 0), vfree := vfree (bview s) + n\<rparr>)"
proof -
  let ?st = "log_start s" and ?bl = "lh_block s" and ?X = "\<lambda>i. vcont (bview s) (lh_block s ! i)"
  let ?h = "hdr_put (int n) ?bl (vcont (bview s) ?st)"
  have c: "log_idle s" "lh_n s = int n" "0 < n" "n \<le> LOGBLOCKS" "length ?bl = LOGBLOCKS"
    "distinct (take n ?bl)" using assms by (simp_all add: commit_ready_def)
  have home: "?bl ! i \<notin> log_region ?st" "?bl ! i \<in> set (take n ?bl)" if "i < n" for i
    using assms that c(4,5) by (auto simp: commit_ready_def in_set_conv_nth intro!: exI [of _ i])
  have refs: "vrefs (bview s) m = (if m \<in> set (take n ?bl) then 1 else 0)" for m
    using assms by (simp add: commit_ready_def)
  have out: "m \<notin> set (take n ?bl)" if "m \<in> log_region ?st" for m
    using home(1) that c(4,5) by (auto simp: in_set_conv_nth)
  have r0: "vrefs (bview s) m = 0" if "m \<in> log_region ?st" for m using out [OF that] refs by simp
  have st: "?st \<in> log_region ?st" by (simp add: log_region_def)
  have W: "lh_block s ! i \<notin> log_region ?st \<and> vrefs (bview s) (lh_block s ! i) = 1" if "i < n" for i
    using home [OF that] refs by simp
  from write_log_loop [OF c(1) order_refl c(4) W r0] obtain t1 where
    t1: "foreach [0..<n] write_log_block s = Ok () t1" "bframe s t1" "bc_inv t1"
    "bview t1 = wrote (log_writes ?st ?X n) (bview s)" by blast
  note f1 = bframe_log [OF t1(2)]
  have i1: "log_idle t1"
    using log_idleD(4) [OF c(1)] by (intro log_idle_frame [OF c(1) t1(2,3)]) (simp_all add: t1(4))
  from write_head_spec [OF i1] c(2,4) r0 [OF st] f1 obtain t2 where
    t2: "write_head t1 = Ok () t2" "bframe t1 t2" "bc_inv t2"
    "bview t2 = wrote [(?st, hdr_put (int n) ?bl (vcont (bview t1) ?st))] (bview t1)" by (auto simp: t1(4))
  have b2: "bview t2 = wrote (log_writes ?st ?X n @ [(?st, ?h)]) (bview s)"
    by (simp add: t2(4) t1(4) log_writes_header)
  note f2 = bframe_log [OF bframe_trans [OF t1(2) t2(2)]]
  have i2: "log_idle t2"
    using log_idleD(4) [OF c(1)]
    by (intro log_idle_frame [OF c(1) bframe_trans [OF t1(2) t2(2)] t2(3)]) (simp_all add: b2)
  have lg: "vcont (bview t2) (?st + i + 1) = ?X i" if "i < n" for i
    using that by (simp add: b2 log_writes_inside)
  have p2: "n \<le> length (lh_block t2)" "\<And>i. i < n \<Longrightarrow> lh_block t2 ! i \<notin> log_region (log_start t2)"
    "\<And>m. m \<in> log_region (log_start t2) \<Longrightarrow> vrefs (bview t2) m = 0"
    "if False then (\<forall>i<n. vrefs (bview t2) (lh_block t2 ! i) = 0) \<and> 1 < vfree (bview t2)
     else (\<forall>i<n. vrefs (bview t2) (lh_block t2 ! i) = 1) \<and> distinct (take n (lh_block t2))"
    using c(4-6) home W r0 by (simp_all add: f2 b2)
  from install_loop [OF i2 order_refl c(4) p2] obtain t3 where
    t3: "foreach [0..<n] (install_block False) t2 = Ok () t3" "bframe t2 t3" "bc_inv t3"
    "bview t3 = wrote (home_writes ?bl (\<lambda>i. vcont (bview t2) (?st + i + 1)) n) (bview t2
       \<lparr>vrefs := (\<lambda>m. if m \<in> set (take n ?bl) then 0 else vrefs (bview t2) m),
        vfree := vfree (bview t2) + n\<rparr>)" unfolding f2 by auto
  have hw: "home_writes ?bl (\<lambda>i. vcont (bview t2) (?st + i + 1)) n = home_writes ?bl ?X n"
    using lg by (simp add: home_writes_def)
  have b3: "bview t3 = wrote (log_writes ?st ?X n @ [(?st, ?h)] @ home_writes ?bl ?X n)
      (bview s\<lparr>vrefs := (\<lambda>_. 0), vfree := vfree (bview s) + n\<rparr>)"
    by (rule bview_eqI) (auto simp: t3(4) [unfolded hw] b2 refs)
  define t4 where "t4 = t3\<lparr>lh_n := 0\<rparr>"
  note f3 = bframe_log [OF bframe_trans [OF bframe_trans [OF t1(2) t2(2)] t3(2)]]
  have t4: "bview t4 = bview t3" "bc_inv t4" "lh_n t4 = 0" "lh_block t4 = ?bl" "log_start t4 = ?st" "log_dev t4 = ROOTDEV"
    using t3(3) f3 log_idleD(2) [OF c(1)] by (simp_all add: t4_def bview_def bc_inv_def in_proc_def)
  have i4: "log_idle t4" using t4 log_idleD [OF c(1)] by (simp add: log_idle_def b3)
  from write_head_spec [OF i4] t4 obtain t5 where t5: "write_head t4 = Ok () t5" "bframe t4 t5" "bc_inv t5"
    "bview t5 = wrote [(?st, hdr_put 0 ?bl (vcont (bview t4) ?st))] (bview t4)" by (auto simp: b3)
  have "vcont (bview t4) ?st = ?h" using out [OF st] c(4,5) by (simp add: t4(1) b3 home_writes_other)
  then have "bview t5 = wrote (commit_writes s n) (bview s\<lparr>vrefs := (\<lambda>_. 0), vfree := vfree (bview s) + n\<rparr>)"
    by (simp add: t5(4) t4(1) b3 commit_writes_def Let_def)
  moreover have "commit s = Ok () t5"
    using c(2,3) t1(1) t2(1) t3(1) t5(1) f1 f2
    by (simp add: commit_def write_log_def install_trans_def bnd_run sq_run t4_def)
  moreover have "lh_n t5 = 0" using bframe_log(1) [OF t5(2)] t4(3) by simp
  ultimately show ?thesis using t5(3) by blast
qed

section \<open>Recovery\<close>

text \<open>
  A machine that has just booted: the cache is empty and nobody holds a buffer.  \<open>recovered\<close> is
  what recovery makes of a disk: the logged blocks copied to their homes, and an empty log.
\<close>

definition booted :: "'z log_st_scheme \<Rightarrow> bool" where
  "booted s \<longleftrightarrow> bc_inv s \<and> (\<forall>n. vrefs (bview s) n = 0) \<and> (\<forall>n. vlock (bview s) n = None) \<and>
     1 < vfree (bview s) \<and> length (lh_block s) = LOGBLOCKS"

definition log_blocks :: "nat \<Rightarrow> (nat \<Rightarrow> block) \<Rightarrow> nat list" where
  "log_blocks start d = map (hdr_block (d start)) [0..<nat (hdr_n (d start))]"

definition log_valid :: "nat \<Rightarrow> (nat \<Rightarrow> block) \<Rightarrow> bool" where
  "log_valid start d \<longleftrightarrow> hdr_n (d start) \<le> int LOGBLOCKS \<and>
     set (log_blocks start d) \<inter> log_region start = {}"

definition recovery_writes :: "nat \<Rightarrow> (nat \<Rightarrow> block) \<Rightarrow> (nat \<times> block) list" where
  "recovery_writes start d =
     home_writes (log_blocks start d) (\<lambda>i. d (start + i + 1)) (nat (hdr_n (d start))) @
     [(start, put32 0 0 (d start))]"

lemma fold_list_update:
  "n \<le> length bl \<Longrightarrow> fold (\<lambda>i bl. bl[i := f i]) [0..<n] bl = map f [0..<n] @ drop n bl"
proof (induction n)
  case (Suc n)
  then have "drop n bl = bl ! n # drop (Suc n) bl" by (simp add: Cons_nth_drop_Suc)
  with Suc show ?case by (simp add: list_update_append)
qed simp

lemma read_loop:
  "foreach [0..<n] (\<lambda>i. upd (\<lambda>s. s\<lparr>lh_block := (lh_block s)[i := f i]\<rparr>)) s =
     Ok () (s\<lparr>lh_block := fold (\<lambda>i bl. bl[i := f i]) [0..<n] (lh_block s)\<rparr>)"
  by (induction n) (simp_all add: foreach_append sq_run)

lemma log_upd [simp]:
  "bview (s\<lparr>lh_block := bl\<rparr>) = bview s" "bview (s\<lparr>lh_n := n\<rparr>) = bview s"
  "bview (s\<lparr>log_start := a\<rparr>) = bview s" "bview (s\<lparr>log_dev := d\<rparr>) = bview s"
  "bview (s\<lparr>log_outstanding := k\<rparr>) = bview s" "bview (s\<lparr>log_committing := b\<rparr>) = bview s"
  "bc_inv (s\<lparr>lh_block := bl\<rparr>) = bc_inv s" "bc_inv (s\<lparr>lh_n := n\<rparr>) = bc_inv s"
  "bc_inv (s\<lparr>log_start := a\<rparr>) = bc_inv s" "bc_inv (s\<lparr>log_dev := d\<rparr>) = bc_inv s"
  "bc_inv (s\<lparr>log_outstanding := k\<rparr>) = bc_inv s" "bc_inv (s\<lparr>log_committing := b\<rparr>) = bc_inv s"
  "handle (s\<lparr>lh_block := bl\<rparr>) = handle s" "handle (s\<lparr>lh_n := n\<rparr>) = handle s"
  "mypid (s\<lparr>lh_block := bl\<rparr>) = mypid s" "mypid (s\<lparr>lh_n := n\<rparr>) = mypid s"
  by (simp_all add: bview_def bc_inv_def in_proc_def handle_def mypid_def fun_eq_iff)

lemma read_head_spec:
  assumes "log_idle s" "vrefs (bview s) (log_start s) = 0" "length (lh_block s) = LOGBLOCKS"
    "hdr_n (vcont (bview s) (log_start s)) \<le> int LOGBLOCKS"
  shows "\<exists>t. read_head s = Ok () t \<and> bc_inv t \<and> bview t = bview s \<and> log_start t = log_start s \<and>
     log_dev t = log_dev s \<and> lh_n t = hdr_n (vcont (bview s) (log_start s)) \<and>
     length (lh_block t) = LOGBLOCKS \<and>
     take (nat (lh_n t)) (lh_block t) = log_blocks (log_start s) (vcont (bview s))"
proof -
  let ?n = "log_start s" and ?d = "vcont (bview s) (log_start s)"
  let ?bl = "map (hdr_block ?d) [0..<nat (hdr_n ?d)] @ drop (nat (hdr_n ?d)) (lh_block s)"
  note i = log_idleD [OF assms(1)]
  from bc.read [of s ?n, OF i(1,3)] i(4) assms(2) obtain b t where t: "bread ROOTDEV ?n s = Ok b t" "bframe s t"
    "bc_inv t" "handle t ?n = Some b" "b_data (bufs t ! b) = ?d"
    "bview t = (bview s)\<lparr>vrefs := (vrefs (bview s))(?n := 1),
       vlock := (vlock (bview s))(?n := Some (mypid s)), vfree := vfree (bview s) - 1\<rparr>" by auto
  note f = bframe_log [OF t(2)]
  define u where "u = t\<lparr>lh_n := hdr_n ?d, lh_block := ?bl\<rparr>"
  have mu: "mypid u = mypid s" using bc.fr_me [OF t(2) i(1)] by (simp add: u_def)
  have bu: "bview u = bview t" "bc_inv u" "handle u = handle t" using t(3) by (simp_all add: u_def)
  have "vcont (bview u) ?n = vdisk (bview u) ?n" using clean_block [OF i(1) assms(2)] by (simp add: bu t(6))
  with bc.rel [OF bu(2), of ?n b] t(4) mu obtain w where w: "brelse b u = Ok () w" "bframe u w" "bc_inv w"
    "bview w = (bview u)\<lparr>vrefs := (vrefs (bview u))(?n := 0), vlock := (vlock (bview u))(?n := None),
       vfree := vfree (bview u) + 1\<rparr>" by (auto simp: bu t(6))
  have "read_head s = Ok () w"
    using t(1,5) w(1) i(2) f assms(3,4)
    by (simp add: read_head_def bnd_run sq_run read_loop fold_list_update u_def nat_le_iff)
  moreover have "bview w = bview s"
    by (rule bview_eqI) (use assms(2) i(3,4) in \<open>simp_all add: w(4) bu t(6) fun_eq_iff\<close>)
  moreover have "lh_n w = hdr_n ?d" "lh_block w = ?bl" "log_start w = log_start s" "log_dev w = log_dev s"
    using bframe_log [OF w(2)] f by (simp_all add: u_def)
  moreover have "length ?bl = LOGBLOCKS" "take (nat (hdr_n ?d)) ?bl = log_blocks ?n (vcont (bview s))"
    using assms(3,4) by (simp_all add: log_blocks_def)
  ultimately show ?thesis using w(3) by (intro exI [of _ w]) (simp add: log_blocks_def)
qed

lemma hdr_put_0: "hdr_put 0 bl d = put32 0 0 d"
  by (simp add: hdr_put_def)

lemma home_writes_cong:
  assumes "take n bl = take n bl'"
  shows "home_writes bl X n = home_writes bl' X n"
proof -
  have "bl ! i = bl' ! i" if "i < n" for i using assms that by (metis nth_take)
  then show ?thesis by (simp add: home_writes_def)
qed

lemma initlog_spec:
  assumes "booted s" "log_valid (sb_logstart sb) (disk s)"
  shows "\<exists>t. initlog ROOTDEV sb s = Ok () t \<and> bc_inv t \<and> lh_n t = 0 \<and>
     bview t = wrote (recovery_writes (sb_logstart sb) (disk s)) (bview s)"
proof -
  let ?st = "sb_logstart sb" and ?D = "vcont (bview s)"
  let ?n = "nat (hdr_n (?D ?st))"
  have b: "bc_inv s" "\<And>n. vrefs (bview s) n = 0" "\<And>n. vlock (bview s) n = None" "1 < vfree (bview s)"
    "length (lh_block s) = LOGBLOCKS" using assms(1) by (simp_all add: booted_def)
  have D: "?D = disk s" using clean_block [OF b(1,2)] by (simp add: fun_eq_iff bview_def)
  define s1 where "s1 = s\<lparr>log_start := ?st, log_dev := ROOTDEV\<rparr>"
  have s1: "bview s1 = bview s" "bc_inv s1" "log_start s1 = ?st" "log_dev s1 = ROOTDEV"
    "length (lh_block s1) = LOGBLOCKS" using b by (simp_all add: s1_def)
  have i1: "log_idle s1" using s1 b by (simp add: log_idle_def)
  have v: "hdr_n (?D ?st) \<le> int LOGBLOCKS" "set (log_blocks ?st ?D) \<inter> log_region ?st = {}"
    using assms(2) by (simp_all add: log_valid_def D)
  have "vrefs (bview s1) (log_start s1) = 0" "hdr_n (vcont (bview s1) (log_start s1)) \<le> int LOGBLOCKS"
    using v b(2) by (simp_all add: s1)
  from read_head_spec [OF i1 this(1) s1(5) this(2)] obtain t1 where
    t1: "read_head s1 = Ok () t1" "bc_inv t1" "bview t1 = bview s" "log_start t1 = ?st" "log_dev t1 = ROOTDEV"
    "lh_n t1 = hdr_n (?D ?st)" "length (lh_block t1) = LOGBLOCKS" "take ?n (lh_block t1) = log_blocks ?st ?D"
    by (auto simp: s1)
  have i2: "log_idle t1" using t1 b by (simp add: log_idle_def)
  have n: "?n \<le> LOGBLOCKS" "?n \<le> length (lh_block t1)" using v(1) t1(7) by simp_all
  have home: "lh_block t1 ! i \<notin> log_region (log_start t1)" if "i < ?n" for i
  proof -
    have "lh_block t1 ! i \<in> set (take ?n (lh_block t1))"
      using that n(2) by (auto simp: in_set_conv_nth intro!: exI [of _ i])
    with v(2) show ?thesis unfolding t1(8) t1(4) by blast
  qed
  have refs: "vrefs (bview t1) m = 0" for m using b(2) by (simp add: t1(3))
  from install_loop [OF i2 order_refl n home refs, of True, unfolded t1(3,4)] b(2,4) obtain t2 where
    t2: "foreach [0..<?n] (install_block True) t1 = Ok () t2" "bframe t1 t2" "bc_inv t2"
    "bview t2 = wrote (home_writes (lh_block t1) (\<lambda>i. ?D (?st + i + 1)) ?n) (bview s
       \<lparr>vrefs := (\<lambda>m. if m \<in> set (take ?n (lh_block t1)) then 0 else vrefs (bview s) m)\<rparr>)" by auto
  note f2 = bframe_log [OF t2(2)]
  have hw: "home_writes (lh_block t1) X ?n = home_writes (log_blocks ?st ?D) X ?n" for X
    using n t1(8) by (intro home_writes_cong) (simp_all add: log_blocks_def)
  have b2: "bview t2 = wrote (home_writes (log_blocks ?st ?D) (\<lambda>i. ?D (?st + i + 1)) ?n) (bview s)"
    by (rule bview_eqI) (auto simp: t2(4) [unfolded hw] b(2))
  define t3 where "t3 = t2\<lparr>lh_n := 0\<rparr>"
  have t3: "bview t3 = bview t2" "bc_inv t3" "log_start t3 = ?st" "log_dev t3 = ROOTDEV" "lh_n t3 = 0"
    using t2(3) f2 t1(4,5) by (simp_all add: t3_def)
  have i3: "log_idle t3" using t3 b by (simp add: log_idle_def b2)
  from write_head_spec [OF i3] obtain t4 where t4: "write_head t3 = Ok () t4" "bframe t3 t4" "bc_inv t4"
    "bview t4 = wrote [(?st, put32 0 0 (vcont (bview t3) ?st))] (bview t3)"
    using b(2) by (auto simp: t3 b2 hdr_put_0)
  have "?st \<notin> set (log_blocks ?st ?D)" using v(2) by (auto simp: log_region_def)
  then have "vcont (bview t3) ?st = ?D ?st" by (simp add: t3(1) b2 home_writes_other log_blocks_def)
  then have "bview t4 = wrote (recovery_writes ?st (disk s)) (bview s)"
    by (simp add: t4(4) t3(1) b2 recovery_writes_def D)
  moreover have "initlog ROOTDEV sb s = Ok () t4"
    using t1(1,6) t2(1) t4(1)
    by (simp add: initlog_def recover_from_log_def install_trans_def sq_run bnd_run s1_def t3_def
        LOGBLOCKS_def MAXOPBLOCKS_def BSIZE_def)
  moreover have "lh_n t4 = 0" using bframe_log(1) [OF t4(2)] t3(5) by simp
  ultimately show ?thesis using t4(3) by blast
qed

section \<open>Crashes\<close>

lemma apply_home_writes:
  assumes "j \<le> length bl"
  shows "apply_writes (home_writes bl (\<lambda>i. V (bl ! i)) j) d m = (if m \<in> set (take j bl) then V m else d m)"
  using assms
proof (induction j)
  case 0
  then show ?case by (simp add: home_writes_def)
next
  case (Suc j)
  then show ?case by (auto simp: home_writes_Suc take_Suc_conv_app_nth)
qed

lemma apply_writes_dom: "m \<in> fst ` set ws \<Longrightarrow> apply_writes ws d m = apply_writes ws d' m"
proof (induction ws arbitrary: d d')
  case (Cons w ws)
  then show ?case
    by (cases w, cases "m \<in> fst ` set ws") (auto simp: apply_writes_other)
qed simp

lemma apply_writes_again: "apply_writes ws (apply_writes (take k ws) d) = apply_writes ws d"
proof
  fix m
  have "fst ` set (take k ws) \<subseteq> fst ` set ws" by (intro image_mono set_take_subset)
  then have "m \<notin> fst ` set (take k ws)" if "m \<notin> fst ` set ws" using that by blast
  then show "apply_writes ws (apply_writes (take k ws) d) m = apply_writes ws d m"
    using apply_writes_dom [of m ws] apply_writes_other by metis
qed

lemma take_log_writes: "k \<le> n \<Longrightarrow> take k (log_writes start X n) = log_writes start X k"
  and take_home_writes: "k \<le> n \<Longrightarrow> take k (home_writes bl X n) = home_writes bl X k"
  and length_writes [simp]: "length (log_writes start X n) = n" "length (home_writes bl X n) = n"
  by (simp_all add: log_writes_def home_writes_def take_map)

lemma hdr_n_clear [simp]: "length d = BSIZE \<Longrightarrow> hdr_n (put32 0 0 d) = 0"
  using hdr_n_put [of 0 d "[]"] by (simp add: hdr_put_0)

lemma recovered_empty:
  assumes "hdr_n (d start) \<le> 0"
  shows "log_valid start d" "m \<notin> log_region start \<Longrightarrow> apply_writes (recovery_writes start d) d m = d m"
  using assms by (auto simp: log_valid_def log_blocks_def recovery_writes_def home_writes_def log_region_def)

text \<open>Recovery of a disk whose header is in place and whose log holds the blocks \<open>V\<close>.\<close>

lemma recovered_committed:
  assumes "d start = hdr_put (int n) bl h" "length h = BSIZE" "n \<le> LOGBLOCKS" "length bl = LOGBLOCKS"
    "\<And>i. i < n \<Longrightarrow> bl ! i \<notin> log_region start \<and> bl ! i < 2 ^ 32 \<and> d (Suc (start + i)) = V (bl ! i)"
  shows "log_valid start d" "m \<notin> log_region start \<Longrightarrow>
     apply_writes (recovery_writes start d) d m = (if m \<in> set (take n bl) then V m else d m)"
proof -
  have n: "hdr_n (d start) = int n" using assms(2,3) by (simp add: assms(1) hdr_n_put)
  have "hdr_block (d start) i = bl ! i" if "i < n" for i
    using assms that by (simp add: assms(1) hdr_block_put)
  then have "log_blocks start d = map ((!) bl) [0..<n]" by (simp add: log_blocks_def n)
  also have "\<dots> = take n bl" using assms(3,4) by (intro nth_equalityI) simp_all
  finally have b: "log_blocks start d = take n bl" .
  show "log_valid start d"
    using assms(3,4,5) by (auto simp: log_valid_def n b in_set_conv_nth)
  have "home_writes (take n bl) (\<lambda>i. d (Suc (start + i))) n = home_writes bl (\<lambda>i. V (bl ! i)) n"
    using assms(5) by (simp add: home_writes_def)
  then show "apply_writes (recovery_writes start d) d m = (if m \<in> set (take n bl) then V m else d m)"
    if "m \<notin> log_region start"
    using that assms(3,4) by (auto simp: recovery_writes_def b n apply_home_writes log_region_def)
qed

lemma booted_cont: "booted s \<Longrightarrow> vcont (bview s) = disk s"
  using clean_block [of s] by (auto simp: booted_def fun_eq_iff bview_def)

lemma crashed_commit:
  assumes "commit_ready s n" "hdr_n (disk s (log_start s)) = 0" "k \<le> length (commit_writes s n)"
    "d = apply_writes (take k (commit_writes s n)) (disk s)"
  shows "log_valid (log_start s) d" "m \<notin> log_region (log_start s) \<Longrightarrow>
     apply_writes (recovery_writes (log_start s) d) d m = (if k \<le> n then disk s m else vcont (bview s) m)"
proof -
  let ?st = "log_start s" and ?bl = "lh_block s" and ?V = "vcont (bview s)"
  let ?X = "\<lambda>i. ?V (?bl ! i)" and ?h = "hdr_put (int n) (lh_block s) (vcont (bview s) (log_start s))"
  have c: "bc_inv s" "n \<le> LOGBLOCKS" "length ?bl = LOGBLOCKS"
    "\<And>i. i < n \<Longrightarrow> ?bl ! i \<notin> log_region ?st \<and> ?bl ! i < 2 ^ 32"
    "\<And>m. vrefs (bview s) m = (if m \<in> set (take n ?bl) then 1 else 0)"
    using assms(1) by (simp_all add: commit_ready_def log_idle_def)
  have out: "set (take n ?bl) \<inter> log_region ?st = {}" using c(2-4) by (auto simp: in_set_conv_nth)
  have clean: "?V m = disk s m" if "m \<notin> set (take n ?bl)" for m
    using clean_block [OF c(1), of m] c(5) that by (simp add: bview_def)
  have sub: "set (take j ?bl) \<subseteq> set (take n ?bl)" if "j \<le> n" for j using that by (rule set_take_subset_set_take)
  have len: "length (?V ?st) = BSIZE" "length (?V m) = BSIZE" for m using bc.cont_len [OF c(1)] by simp_all
  have in_st: "?st + i \<in> log_region ?st" if "i \<le> n" for i using that c(2) by (simp add: log_region_def)
  consider (log) "k \<le> n" | (home) j where "k = n + 1 + j" "j \<le> n" | (cleared) "k = 2 * n + 2"
  proof -
    have "k \<le> 2 * n + 2" using assms(3) by (simp add: commit_writes_def Let_def)
    then have "k \<le> n \<or> (\<exists>j. k = n + 1 + j \<and> j \<le> n) \<or> k = 2 * n + 2" by presburger
    then show thesis using that by blast
  qed
  then have "log_valid ?st d \<and> (m \<notin> log_region ?st \<longrightarrow>
     apply_writes (recovery_writes ?st d) d m = (if k \<le> n then disk s m else ?V m))"
  proof cases
    case log
    then have d: "d = apply_writes (log_writes ?st ?X k) (disk s)"
      by (simp add: assms(4) commit_writes_def Let_def take_log_writes)
    have "hdr_n (d ?st) \<le> 0" using assms(2) by (simp add: d log_writes_header)
    from recovered_empty [of d ?st, OF this] log c(2) show ?thesis by (simp add: d log_writes_outside)
  next
    case home
    then have d: "d = apply_writes (home_writes ?bl ?X j) ((apply_writes (log_writes ?st ?X n) (disk s))(?st := ?h))"
      by (simp add: assms(4) commit_writes_def Let_def take_home_writes)
    have j: "j \<le> length ?bl" using home c(2,3) by simp
    have keep: "d (?st + i) = (if i = 0 then ?h else ?X (i - 1))" if "i \<le> n" for i
    proof -
      have "?st + i \<notin> set (take j ?bl)" using in_st [OF that] out sub [OF home(2)] by blast
      then show ?thesis using that j log_writes_inside [of "i - 1" n ?st ?X "disk s"]
        by (cases i) (simp_all add: d apply_home_writes)
    qed
    have "d ?st = ?h" using keep [of 0] by simp
    moreover have "?bl ! i \<notin> log_region ?st \<and> ?bl ! i < 2 ^ 32 \<and> d (Suc (?st + i)) = ?V (?bl ! i)"
      if "i < n" for i using c(4) [OF that] keep [of "Suc i"] that by simp
    ultimately show ?thesis
      using recovered_committed [of d ?st n ?bl "?V ?st" ?V] len(1) c(2,3) home sub [OF home(2)] clean j in_st [of 0]
      by (auto simp: d apply_home_writes log_writes_outside)
  next
    case cleared
    then have d: "d = (apply_writes (home_writes ?bl ?X n) ((apply_writes (log_writes ?st ?X n) (disk s))(?st := ?h)))
      (?st := hdr_put 0 ?bl ?h)"
      by (simp add: assms(4) commit_writes_def Let_def)
    have "hdr_n (d ?st) \<le> 0" using len(1) c(2) by (simp add: d hdr_n_put)
    from recovered_empty [of d ?st, OF this] cleared c(2,3) clean in_st [of 0] show ?thesis
      by (auto simp: d apply_home_writes log_writes_outside)
  qed
  then show "log_valid ?st d" "m \<notin> log_region ?st \<Longrightarrow>
     apply_writes (recovery_writes ?st d) d m = (if k \<le> n then disk s m else ?V m)" by blast+
qed

section \<open>Transactions\<close>

definition log_vars :: "'z log_st_scheme \<Rightarrow> int \<times> nat list \<times> int \<times> bool" where
  "log_vars s = (lh_n s, lh_block s, log_outstanding s, log_committing s)"

interpretation lf: bio_frame log_vars
  by unfold_locales (simp_all add: log_vars_def)

definition log_counts :: "'z log_st_scheme \<Rightarrow> int \<times> bool" where
  "log_counts s = (log_outstanding s, log_committing s)"

interpretation lc: bio_frame log_counts
  by unfold_locales (simp_all add: log_counts_def)

lemmas lf_keeps = lf.keeps_prims lf.keeps_sched lf.keeps_bio
lemmas lc_keeps = lc.keeps_prims lc.keeps_sched lc.keeps_bio

lemma log_loops_keep:
  "keeps log_vars write_head" "keeps log_vars (write_log_block i)" "keeps log_vars (install_block r i)"
  unfolding write_head_def write_log_block_def install_block_def
  by (auto intro!: keeps_intros lf_keeps)

lemma commit_keeps: "keeps log_counts (commit :: ('z log_st_scheme, unit) kernel)"
proof -
  have k: "keeps log_counts m" if "keeps log_vars m" for m :: "('z log_st_scheme, unit) kernel"
    using that by (auto simp: keeps_def log_vars_def log_counts_def)
  show ?thesis unfolding commit_def write_log_def install_trans_def
    by (intro keeps_intros log_loops_keep [THEN k]) (simp add: log_counts_def)
qed

lemma commit_empties:
  assumes "commit s = Ok () t" "0 \<le> lh_n s"
  shows "lh_n t = 0"
proof -
  have w: "lh_n v = lh_n u" if "write_head u = Ok () v" for u v
    using keepsD [OF log_loops_keep(1) that] by (simp add: log_vars_def)
  from assms show ?thesis
    by (auto simp: commit_def bnd_run sq_run split: res.splits if_splits dest: w)
qed

lemma begin_op_Ok:
  assumes "begin_op s = Ok () t"
  shows "\<not> log_committing s" "lh_n s + (log_outstanding s + 1) * int MAXOPBLOCKS \<le> int LOGBLOCKS"
    "t = s\<lparr>log_outstanding := log_outstanding s + 1\<rparr>"
  using assms
  by (auto simp: begin_op_def begin_op_loop_def sq_run bnd_run sleep_def handoff_acts sched_not_Ok
      split: if_splits option.splits res.splits)

lemma log_slot_le: "0 \<le> n \<Longrightarrow> log_slot bl n m \<le> nat n"
  by (auto simp: log_slot_def split: option.splits dest!: find_SomeD)

text \<open>\<^verbatim>\<open>log_write\<close>: absorption of a block that is logged already, and a new entry otherwise.\<close>

lemma log_write_run:
  fixes b :: nat
  assumes "L_log \<notin> set (held s)" "L_bcache \<notin> set (held s)" "0 \<le> lh_n s"
  defines "m \<equiv> b_blockno (bufs s ! b)" and "n \<equiv> nat (lh_n s)"
  shows "log_write b s =
     (if int LOGBLOCKS \<le> lh_n s then Panic ''too big a transaction''
      else if log_outstanding s < 1 then Panic ''log_write outside of trans''
      else if \<exists>i<n. lh_block s ! i = m then Ok () s
      else Ok () (s\<lparr>bufs := (bufs s)[b := (bufs s ! b)\<lparr>b_refcnt := b_refcnt (bufs s ! b) + 1\<rparr>],
             lh_n := lh_n s + 1, lh_block := (lh_block s)[n := m]\<rparr>))"
proof (cases "\<exists>i<n. lh_block s ! i = m")
  case True
  then obtain i where i: "find (\<lambda>i. lh_block s ! i = m) [0..<n] = Some i"
    by (cases "find (\<lambda>i. lh_block s ! i = m) [0..<n]") (auto simp: find_None_iff)
  then have "i < n" "lh_block s ! i = m" by (auto dest: find_SomeD)
  moreover from this have "(lh_block s)[i := m] = lh_block s" by (metis list_update_id)
  ultimately show ?thesis using True i assms(1-3)
    by (auto simp: log_write_def log_slot_def bnd_run sq_run m_def n_def)
next
  case False
  then have "find (\<lambda>i. lh_block s ! i = m) [0..<n] = None" by (auto simp: find_None_iff)
  with False assms(1-3) show ?thesis
    by (auto simp: log_write_def log_slot_def bpin_def bnd_run sq_run m_def n_def)
qed

text \<open>
  Interleaved transactions: the steps of the system's threads on the log, in any order, with
  anything that leaves the log's variables alone in between.  \<open>r\<close> lists the open operations,
  each with the number of blocks it may still write; \<open>ph\<close> says how far the thread is that has
  to commit, if there is one.
\<close>

datatype phase = Idle | Committing | Committed

inductive transactions :: "'z log_st_scheme \<Rightarrow> nat list \<Rightarrow> phase \<Rightarrow> bool" where
  start: "lh_n s = 0 \<Longrightarrow> log_outstanding s = 0 \<Longrightarrow> \<not> log_committing s \<Longrightarrow> transactions s [] Idle"
| other: "transactions s r ph \<Longrightarrow> log_vars t = log_vars s \<Longrightarrow> transactions t r ph"
| enter: "transactions s r ph \<Longrightarrow> begin_op s = Ok () t \<Longrightarrow> transactions t (MAXOPBLOCKS # r) ph"
| logged: "transactions s r ph \<Longrightarrow> i < length r \<Longrightarrow> 0 < r ! i \<Longrightarrow> log_write b s = Ok () t \<Longrightarrow>
    transactions t (r[i := r ! i - 1]) ph"
| leave: "transactions s r ph \<Longrightarrow> i < length r \<Longrightarrow> end_op_leave s = Ok c t \<Longrightarrow>
    transactions t (take i r @ drop (Suc i) r) (if c then Committing else ph)"
| committed: "transactions s r Committing \<Longrightarrow> commit s = Ok () t \<Longrightarrow> transactions t r Committed"
| finish: "transactions s r Committed \<Longrightarrow> end_op_done s = Ok () t \<Longrightarrow> transactions t r Idle"

lemma end_op_leave_Ok:
  assumes "end_op_leave s = Ok c t"
  shows "\<not> log_committing s" "c = (log_outstanding s = 1)" "log_committing t = c"
    "log_outstanding t = log_outstanding s - 1" "lh_n t = lh_n s"
proof -
  have w: "log_vars u = log_vars v" if "wakeup c v = Ok () u" for c v u
    using keepsD [OF lf.keeps_sched(2) that] .
  show "\<not> log_committing s" "c = (log_outstanding s = 1)" "log_committing t = c"
    "log_outstanding t = log_outstanding s - 1" "lh_n t = lh_n s"
    using assms by (auto simp: end_op_leave_def sq_run bnd_run log_vars_def split: if_splits res.splits dest!: w)
qed

lemma end_op_done_Ok:
  assumes "end_op_done s = Ok () t"
  shows "\<not> log_committing t" "log_outstanding t = log_outstanding s" "lh_n t = lh_n s"
proof -
  have w: "log_vars u = log_vars v" if "wakeup c v = Ok () u" for c v u
    using keepsD [OF lf.keeps_sched(2) that] .
  show "\<not> log_committing t" "log_outstanding t = log_outstanding s" "lh_n t = lh_n s"
    using assms by (auto simp: end_op_done_def sq_run bnd_run log_vars_def split: if_splits res.splits dest!: w)
qed

lemma end_op_leave_run:
  assumes "L_log \<notin> set (held s)" "\<not> log_committing s" "in_proc s"
  shows "\<exists>t. end_op_leave s = Ok (log_outstanding s = 1) t"
  using assms by (auto simp: end_op_leave_def sq_run bnd_run wakeup_run in_proc_def)

lemma log_write_Ok:
  assumes "log_write b s = Ok () t"
  shows "log_outstanding t = log_outstanding s" "log_committing t = log_committing s"
    "lh_n t = lh_n s \<or> lh_n t = lh_n s + 1"
  using assms
  by (auto simp: log_write_def bpin_def sq_run bnd_run split: if_splits)

lemma sum_list_bound: "\<forall>k\<in>set r. k \<le> (c :: nat) \<Longrightarrow> sum_list r \<le> length r * c"
  by (induction r) auto

lemma transactions_inv:
  assumes "transactions s r ph"
  shows "(log_committing s \<longleftrightarrow> ph \<noteq> Idle) \<and> (ph \<noteq> Idle \<longrightarrow> r = []) \<and> log_outstanding s = int (length r) \<and>
     0 \<le> lh_n s \<and> (\<forall>k\<in>set r. k \<le> MAXOPBLOCKS) \<and> lh_n s + int (sum_list r) \<le> int LOGBLOCKS"
  using assms
proof induction
  case (enter s r ph t)
  have "sum_list r \<le> length r * MAXOPBLOCKS"
    using enter.IH by (intro sum_list_bound) simp
  then have "int (sum_list r) \<le> int (length r) * int MAXOPBLOCKS" by (metis of_nat_le_iff of_nat_mult)
  then show ?case using enter.IH begin_op_Ok [OF enter.hyps(2)] by (simp add: algebra_simps)
next
  case (logged s r ph i b t)
  have r: "sum_list (r[i := r ! i - 1]) + 1 = sum_list r"
    using logged.hyps(2,3) member_le_sum_list [of "r ! i" r] by (simp add: sum_list_update)
  have u: "\<forall>k\<in>set (r[i := r ! i - 1]). k \<le> MAXOPBLOCKS"
    using logged.IH nth_mem [OF logged.hyps(2)] set_update_subset_insert [of r i "r ! i - 1"]
    by (metis diff_le_self insertE le_trans subsetD)
  from logged.IH log_write_Ok [OF logged.hyps(4)] r u logged.hyps(2) show ?case by auto
next
  case (leave s r ph i c t)
  have "sum_list (take i r @ r ! i # drop (Suc i) r) = sum_list (take i r) + r ! i + sum_list (drop (Suc i) r)"
    by simp
  then have "sum_list (take i r @ drop (Suc i) r) \<le> sum_list r"
    using id_take_nth_drop [OF leave.hyps(2)] by simp
  moreover have "set (take i r @ drop (Suc i) r) \<subseteq> set r"
    using set_take_subset [of i r] set_drop_subset [of "Suc i" r] by auto
  ultimately show ?case using leave.IH leave.hyps(2) end_op_leave_Ok [OF leave.hyps(3)] by auto
next
  case (committed s r t)
  have "log_counts t = log_counts s" using keepsD [OF commit_keeps committed.hyps(2)] .
  with committed.IH commit_empties [OF committed.hyps(2)] show ?case by (auto simp: log_counts_def)
next
  case (finish s r t)
  with end_op_done_Ok [OF finish.hyps(2)] show ?case by auto
qed (auto simp: log_vars_def)

text \<open>\<^verbatim>\<open>log_write\<close> in terms of the cache's view.\<close>

lemma log_write_spec:
  assumes "bc_inv s" "handle s m = Some b" "0 < vrefs (bview s) m" "vrefs (bview s) m < 2 ^ 32 - 1"
    "L_log \<notin> set (held s)" "0 \<le> lh_n s" "lh_n s < int LOGBLOCKS" "1 \<le> log_outstanding s"
    "\<forall>i<nat (lh_n s). lh_block s ! i \<noteq> m"
  shows "\<exists>t. log_write b s = Ok () (t\<lparr>lh_n := lh_n s + 1, lh_block := (lh_block s)[nat (lh_n s) := m]\<rparr>) \<and>
     bframe s t \<and> bc_inv t \<and> handle t = handle s \<and>
     bview t = (bview s)\<lparr>vrefs := (vrefs (bview s))(m := vrefs (bview s) m + 1)\<rparr>"
proof -
  from bc.pin [OF assms(1-4)] obtain t where t: "bpin b s = Ok () t" "bframe s t" "bc_inv t" "handle t = handle s"
    "bview t = (bview s)\<lparr>vrefs := (vrefs (bview s))(m := vrefs (bview s) m + 1)\<rparr>" by blast
  have lk: "L_bcache \<notin> set (held s)" using assms(1) by (simp add: bc_inv_def)
  have bn: "b_blockno (bufs s ! b) = m" using assms(2) fnd_Some [of "bufs s" m b] by (simp add: handle_def)
  have te: "t = s\<lparr>bufs := (bufs s)[b := (bufs s ! b)\<lparr>b_refcnt := b_refcnt (bufs s ! b) + 1\<rparr>]\<rparr>"
    using t(1) lk by (simp add: bpin_def sq_run)
  have "log_write b s = Ok () (t\<lparr>lh_n := lh_n s + 1, lh_block := (lh_block s)[nat (lh_n s) := m]\<rparr>)"
    using log_write_run [OF assms(5) lk assms(6), of b] assms(7-9) bn by (auto simp: te)
  with t show ?thesis by blast
qed

section \<open>A small file system\<close>

definition log_boot :: log_st where
  "log_boot = \<lparr>held = [], klog = [], mem = (\<lambda>_. 0), freelist = 0, kend = 0, procs = demo_procs,
     curproc = Some 1, initproc = Some 1, nextpid = 3, ticks = 0, kernel_pagetable = 0, satp = 0,
     etext = 0, trampoline = 0, slocks = (\<lambda>_. \<lparr>sk_locked = 0, sk_name = [], sk_pid = 0\<rparr>),
     bufs = replicate (Suc NBUF) buf0, disk = (\<lambda>n. replicate BSIZE 0), disk_trace = [],
     vq_desc = [], avail_idx = 0, avail_ring = [], used_idx = 0, used_ring = [], vd_free = [],
     vd_used_idx = 0, info_b = [], info_status = [], vd_ops = [], vio_rd = (\<lambda>_. 0), vio_wr = [],
     log_start = 2, log_outstanding = 0, log_committing = False, log_dev = ROOTDEV, lh_n = 0,
     lh_block = replicate LOGBLOCKS 0\<rparr>"

definition demo_sb :: superblock where
  "demo_sb = \<lparr>sb_magic = 270544960, sb_size = 2000, sb_nblocks = 1954, sb_ninodes = 200, sb_nlog = 31,
     sb_logstart = 2, sb_inodestart = 33, sb_bmapstart = 46\<rparr>"

lemma log_boot_simps [simp]:
  "held log_boot = []" "disk_trace log_boot = []" "log_start log_boot = 2" "log_outstanding log_boot = 0"
  "\<not> log_committing log_boot" "log_dev log_boot = ROOTDEV" "lh_n log_boot = 0"
  "lh_block log_boot = replicate LOGBLOCKS 0" "sb_logstart demo_sb = 2" "disk log_boot = (\<lambda>n. replicate BSIZE 0)"
  by (simp_all add: log_boot_def demo_sb_def)

lemma log_boot_inv:
  "\<exists>s. binit log_boot = Ok () s \<and> bc_inv s \<and> bview s = \<lparr>vcont = (\<lambda>n. replicate BSIZE 0), vrefs = (\<lambda>_. 0),
     vlock = (\<lambda>_. None), vfree = NBUF, vdisk = (\<lambda>n. replicate BSIZE 0), vtrace = []\<rparr> \<and>
     held s = [] \<and> log_start s = 2 \<and> log_outstanding s = 0 \<and> \<not> log_committing s \<and> log_dev s = ROOTDEV \<and>
     lh_n s = 0 \<and> lh_block s = replicate LOGBLOCKS 0"
proof -
  have "in_proc log_boot" by (simp add: in_proc_def log_boot_def demo_procs_def NPROC_def)
  with binit_inv [of log_boot] obtain bs sl where
    "binit log_boot = Ok () (log_boot\<lparr>bufs := bs, slocks := sl\<rparr>)" "bc_inv (log_boot\<lparr>bufs := bs, slocks := sl\<rparr>)"
    "bview (log_boot\<lparr>bufs := bs, slocks := sl\<rparr>) = \<lparr>vcont = disk log_boot, vrefs = (\<lambda>_. 0),
       vlock = (\<lambda>_. None), vfree = NBUF, vdisk = disk log_boot, vtrace = disk_trace log_boot\<rparr>"
    by (auto simp: log_boot_def buf0_def simp del: replicate_Suc)
  then show ?thesis by (intro exI [of _ "log_boot\<lparr>bufs := bs, slocks := sl\<rparr>"]) simp
qed

lemma hdr_n_zeros: "hdr_n (replicate BSIZE 0) = 0"
  by (simp add: hdr_n_def get32_def BSIZE_def numeral_eq_Suc)

text \<open>One transaction that writes block 100, as far as its commit.\<close>

definition demo_tx :: "(log_st, unit) kernel" where
  "demo_tx =
     sq begin_op (
     bnd (bread ROOTDEV 100) (\<lambda>b.
     sq (bset b (\<lambda>k. k\<lparr>b_data := replicate BSIZE 7\<rparr>)) (
     sq (log_write b)
        (brelse b))))"

lemma demo_tx_ready:
  "\<exists>s t. binit log_boot = Ok () s \<and> booted s \<and> disk s = disk log_boot \<and> transactions s [] Idle \<and>
     demo_tx s = Ok () t \<and> commit_ready t 1 \<and> log_start t = 2 \<and> disk t = disk log_boot \<and>
     disk_trace t = [] \<and> vcont (bview t) 100 = replicate BSIZE 7 \<and> lh_block t ! 0 = 100"
proof -
  from log_boot_inv obtain s where
    s: "binit log_boot = Ok () s" "bc_inv s" "bview s = \<lparr>vcont = (\<lambda>n. replicate BSIZE 0), vrefs = (\<lambda>_. 0),
       vlock = (\<lambda>_. None), vfree = NBUF, vdisk = (\<lambda>n. replicate BSIZE 0), vtrace = []\<rparr>"
    "held s = []" "log_start s = 2" "log_outstanding s = 0" "\<not> log_committing s" "log_dev s = ROOTDEV"
    "lh_n s = 0" "lh_block s = replicate LOGBLOCKS 0" by blast
  define s1 where "s1 = s\<lparr>log_outstanding := 1\<rparr>"
  have run1: "begin_op s = Ok () s1"
    using s by (simp add: begin_op_def begin_op_loop_def sq_run bnd_run LOGBLOCKS_def MAXOPBLOCKS_def s1_def)
  have s1: "bc_inv s1" "bview s1 = bview s" using s(2) by (simp_all add: s1_def)
  from bc.read [OF s1(1), of 100] obtain b t where t: "bread ROOTDEV 100 s1 = Ok b t" "bframe s1 t" "bc_inv t"
    "handle t 100 = Some b" "bview t = (bview s)\<lparr>vrefs := (vrefs (bview s))(100 := 1),
      vlock := (vlock (bview s))(100 := Some (mypid s1)), vfree := NBUF - 1\<rparr>"
    by (auto simp: s1(2) s(3) NBUF_def MAXOPBLOCKS_def)
  from bc.modify [OF t(3,4), of "\<lambda>_. replicate BSIZE 7"] obtain u where
    u: "bset b (\<lambda>k. k\<lparr>b_data := replicate BSIZE 7\<rparr>) t = Ok () u" "bframe t u" "bc_inv u" "handle u = handle t"
    "bview u = (bview t)\<lparr>vcont := (vcont (bview t))(100 := replicate BSIZE 7)\<rparr>"
    by (auto simp: t(5))
  have fu: "bframe s1 u" using bframe_trans t(2) u(2) by blast
  note f = bframe_log [OF fu]
  have hu: "held u = []" using fu s(4) by (auto simp: bframe_def s1_def)
  have "vrefs (bview u) 100 = 1" by (simp add: u(5) t(5))
  with log_write_spec [OF u(3), of 100 b] t(4) hu s(9) obtain v where
    v: "log_write b u = Ok () (v\<lparr>lh_n := 1, lh_block := (replicate LOGBLOCKS 0)[0 := 100]\<rparr>)" "bframe u v"
      "bc_inv v" "handle v = handle u" "bview v = (bview u)\<lparr>vrefs := (vrefs (bview u))(100 := Suc (Suc 0))\<rparr>"
    by (auto simp: f u(4) s1_def s(9,10) LOGBLOCKS_def MAXOPBLOCKS_def)
  define w where "w = v\<lparr>lh_n := 1, lh_block := (replicate LOGBLOCKS 0)[0 := 100]\<rparr>"
  have w: "bview w = bview v" "bc_inv w" "handle w = handle v" "mypid w = mypid v" using v(3) by (simp_all add: w_def)
  have "mypid v = mypid s1" using bframe_trans [OF fu v(2)] s1(1) bc.fr_me by blast
  with bc.rel [OF w(2), of 100 b] t(4) obtain x where
    x: "brelse b w = Ok () x" "bframe w x" "bc_inv x" "bview x = (bview w)\<lparr>vrefs := (vrefs (bview w))(100 := 1),
       vlock := (vlock (bview w))(100 := None)\<rparr>"
    by (auto simp: w v(4,5) u(4,5) t(5))
  have bx: "bview x = \<lparr>vcont = (\<lambda>n. replicate BSIZE 0)(100 := replicate BSIZE 7), vrefs = (\<lambda>_. 0)(100 := 1),
     vlock = (\<lambda>_. None), vfree = NBUF - 1, vdisk = (\<lambda>n. replicate BSIZE 0), vtrace = []\<rparr>"
    by (rule bview_eqI) (simp_all add: x(4) w(1) v(5) u(5) t(5) s(3) fun_eq_iff)
  note fx = bframe_log [OF x(2)] and fv = bframe_log [OF bframe_trans [OF fu v(2)]]
  have lx: "lh_n x = 1" "lh_block x = 100 # replicate 29 0" "log_start x = 2" "log_dev x = ROOTDEV"
    using fx fv by (simp_all add: w_def s1_def s LOGBLOCKS_def MAXOPBLOCKS_def numeral_eq_Suc)
  have "demo_tx s = Ok () x"
    using run1 t(1) u(1) v(1) x(1) by (simp add: demo_tx_def sq_run bnd_run w_def)
  moreover have "commit_ready x 1"
    using x(3) lx bx by (auto simp: commit_ready_def log_idle_def log_region_def LOGBLOCKS_def MAXOPBLOCKS_def NBUF_def)
  moreover have "booted s" using s by (simp add: booted_def NBUF_def MAXOPBLOCKS_def)
  moreover have "disk s = disk log_boot" "disk x = disk log_boot" "disk_trace x = []"
    using bx s(3) by (simp_all add: bview_def)
  moreover have "transactions s [] Idle" using s by (intro transactions.start) simp_all
  ultimately show ?thesis using s(1) lx(2,3) bx by auto
qed

section \<open>Properties\<close>

text \<open>
  Property C1: commits are atomic with respect to crashes.  \<open>commit\<close> returns; let \<open>W\<close> be the
  disk writes it made, in order.  If the machine stops after any number \<open>k\<close> of them, then what
  \<open>initlog\<close> makes of the disk at the next boot is, outside the log, either the disk as it was
  before the commit or the disk with every block of the transaction in place, and the log it leaves is
  empty.
\<close>

theorem commit_crash_atomic:
  assumes "commit_ready s n" "hdr_n (disk s (log_start s)) = 0"
  shows "\<exists>t W. commit s = Ok () t \<and> lh_n t = 0 \<and> disk_trace t = disk_trace s @ W \<and>
     disk t = apply_writes W (disk s) \<and>
     (\<forall>k b sb. k \<le> length W \<and> booted b \<and> sb_logstart sb = log_start s \<and>
        disk b = apply_writes (take k W) (disk s) \<longrightarrow>
        (\<exists>u. initlog ROOTDEV sb b = Ok () u \<and> hdr_n (disk u (log_start s)) = 0 \<and>
           (\<forall>m. m \<notin> log_region (log_start s) \<longrightarrow>
              disk u m = (if k \<le> n then disk s m else vcont (bview s) m))))"
proof -
  let ?W = "commit_writes s n"
  from commit_spec [OF assms(1)] obtain t where t: "commit s = Ok () t" "lh_n t = 0"
    "bview t = wrote ?W (bview s\<lparr>vrefs := (\<lambda>_. 0), vfree := vfree (bview s) + n\<rparr>)" by blast
  have d: "disk_trace t = disk_trace s @ ?W" "disk t = apply_writes ?W (disk s)"
    using arg_cong [OF t(3), of vtrace] arg_cong [OF t(3), of vdisk] by (simp_all add: bview_def)
  have "\<exists>u. initlog ROOTDEV sb b = Ok () u \<and> hdr_n (disk u (log_start s)) = 0 \<and>
           (\<forall>m. m \<notin> log_region (log_start s) \<longrightarrow>
              disk u m = (if k \<le> n then disk s m else vcont (bview s) m))"
    if "k \<le> length ?W \<and> booted b \<and> sb_logstart sb = log_start s \<and> disk b = apply_writes (take k ?W) (disk s)"
    for k and b :: "'b log_st_scheme" and sb
  proof -
    from that have k: "k \<le> length ?W" "booted b" "sb_logstart sb = log_start s"
      "disk b = apply_writes (take k ?W) (disk s)" by blast+
    note c = crashed_commit [OF assms k(1,4)]
    from initlog_spec [OF k(2), of sb] c(1) k(3) obtain u where
      u: "initlog ROOTDEV sb b = Ok () u" "bview u = wrote (recovery_writes (log_start s) (disk b)) (bview b)"
      by auto
    have du: "disk u = apply_writes (recovery_writes (log_start s) (disk b)) (disk b)"
      using arg_cong [OF u(2), of vdisk] by (simp add: bview_def)
    have "length (disk b (log_start s)) = BSIZE" using k(2) by (simp add: booted_def bc_inv_def cache_ok_def)
    then have "hdr_n (disk u (log_start s)) = 0" by (simp add: du recovery_writes_def)
    with u(1) c(2) du show ?thesis by auto
  qed
  with t(1,2) d show ?thesis by blast
qed

theorem commit_crash_atomic_witness:
  "\<exists>s t u. binit log_boot = Ok () s \<and> demo_tx s = Ok () t \<and> commit t = Ok () u \<and>
     length (disk_trace u) = 4 \<and> disk u 100 = replicate BSIZE 7 \<and>
     (\<exists>v. initlog ROOTDEV demo_sb s = Ok () v \<and> disk v 100 = replicate BSIZE 0)"
proof -
  from demo_tx_ready obtain s t where t: "binit log_boot = Ok () s" "booted s" "disk s = disk log_boot"
    "demo_tx s = Ok () t" "commit_ready t 1" "log_start t = 2" "disk t = disk log_boot"
    "disk_trace t = []" "vcont (bview t) 100 = replicate BSIZE 7" "lh_block t ! 0 = 100" by blast
  have h: "hdr_n (disk t (log_start t)) = 0" by (simp add: t(7) hdr_n_zeros)
  from commit_crash_atomic [OF t(5) h] obtain u W where u: "commit t = Ok () u"
    "disk_trace u = disk_trace t @ W" "disk u = apply_writes W (disk t)"
    "\<forall>k (b :: log_st) sb. k \<le> length W \<and> booted b \<and> sb_logstart sb = log_start t \<and>
        disk b = apply_writes (take k W) (disk t) \<longrightarrow>
        (\<exists>u. initlog ROOTDEV sb b = Ok () u \<and> hdr_n (disk u (log_start t)) = 0 \<and>
           (\<forall>m. m \<notin> log_region (log_start t) \<longrightarrow>
              disk u m = (if k \<le> 1 then disk t m else vcont (bview t) m)))" by blast
  from commit_spec [OF t(5)] u(1) have "bview u = wrote (commit_writes t 1)
      (bview t\<lparr>vrefs := (\<lambda>_. 0), vfree := vfree (bview t) + 1\<rparr>)" by auto
  from arg_cong [OF this, of vtrace] have W: "W = commit_writes t 1" using u(2) by (simp add: bview_def)
  have "disk u 100 = replicate BSIZE 7" "length W = 4"
    using t(6,9,10) by (simp_all add: u(3) W commit_writes_def Let_def log_writes_def home_writes_def)
  moreover have "\<exists>v. initlog ROOTDEV demo_sb s = Ok () v \<and> disk v 100 = replicate BSIZE 0"
    using u(4) [rule_format, of 0 s demo_sb] t(2,3,6,7) by (auto simp: log_region_def LOGBLOCKS_def MAXOPBLOCKS_def)
  ultimately show ?thesis using t(1,4,8) u(1,2) by auto
qed

text \<open>
  Property C8: recovery can itself be interrupted.  On a booted machine whose log is well formed,
  \<open>initlog\<close> returns; if the machine stops after any number of the writes it makes, booting again
  gives, outside the log, the disk the first recovery would have given.
\<close>

theorem recovery_crash_safe:
  assumes "booted s" "log_valid (sb_logstart sb) (disk s)"
  shows "\<exists>t W. initlog ROOTDEV sb s = Ok () t \<and> disk_trace t = disk_trace s @ W \<and>
     (\<forall>k b. k \<le> length W \<and> booted b \<and> disk b = apply_writes (take k W) (disk s) \<longrightarrow>
        (\<exists>u. initlog ROOTDEV sb b = Ok () u \<and>
           (\<forall>m. m \<notin> log_region (sb_logstart sb) \<longrightarrow> disk u m = disk t m)))"
proof -
  let ?st = "sb_logstart sb" and ?D = "disk s"
  let ?H = "home_writes (log_blocks ?st ?D) (\<lambda>i. ?D (?st + i + 1)) (nat (hdr_n (?D ?st)))"
  let ?W = "?H @ [(?st, put32 0 0 (?D ?st))]"
  have W: "recovery_writes ?st ?D = ?W" by (simp add: recovery_writes_def)
  from initlog_spec [OF assms] obtain t where t: "initlog ROOTDEV sb s = Ok () t" "bview t = wrote ?W (bview s)"
    unfolding W by blast
  have d: "disk_trace t = disk_trace s @ ?W" "disk t = apply_writes ?W ?D"
    using arg_cong [OF t(2), of vtrace] arg_cong [OF t(2), of vdisk] by (simp_all add: bview_def)
  have region: "i \<le> LOGBLOCKS \<Longrightarrow> ?st + i \<notin> set (log_blocks ?st ?D)" for i
    using assms(2) by (auto simp: log_valid_def log_region_def)
  have keep: "apply_writes (take k ?H) ?D m = ?D m" if "m \<in> log_region ?st" for k m
  proof -
    have "fst ` set ?H \<subseteq> set (log_blocks ?st ?D)"
      by (auto simp: home_writes_def log_blocks_def)
    then have "fst ` set (take k ?H) \<subseteq> set (log_blocks ?st ?D)" using set_take_subset [of k ?H] by blast
    moreover have "m \<notin> set (log_blocks ?st ?D)" using that assms(2) by (auto simp: log_valid_def)
    ultimately show ?thesis by (intro apply_writes_other) blast
  qed
  have "\<exists>u. initlog ROOTDEV sb b = Ok () u \<and> (\<forall>m. m \<notin> log_region ?st \<longrightarrow> disk u m = disk t m)"
    if "k \<le> length ?W \<and> booted b \<and> disk b = apply_writes (take k ?W) ?D" for k and b :: "'b log_st_scheme"
  proof -
    from that have k: "k \<le> length ?W" "booted b" "disk b = apply_writes (take k ?W) ?D" by blast+
    have v: "log_valid ?st (disk b) \<and> (\<forall>m. m \<notin> log_region ?st \<longrightarrow>
        apply_writes (recovery_writes ?st (disk b)) (disk b) m = disk t m)"
    proof (cases "k \<le> length ?H")
      case True
      then have b: "disk b = apply_writes (take k ?H) ?D" using k(3) by simp
      have same: "disk b m = ?D m" if "m \<in> log_region ?st" for m using keep [OF that] b by simp
      have "?st \<in> log_region ?st" by (simp add: log_region_def)
      note h = same [OF this]
      have bl: "log_blocks ?st (disk b) = log_blocks ?st ?D" by (simp add: log_blocks_def h)
      have "disk b (?st + i + 1) = ?D (?st + i + 1)" if "i < nat (hdr_n (?D ?st))" for i
        using assms(2) that by (intro same) (auto simp: log_region_def log_valid_def)
      then have "recovery_writes ?st (disk b) = ?W"
        by (simp add: recovery_writes_def bl h home_writes_def)
      moreover have "apply_writes ?W (disk b) = apply_writes ?W ?D"
        by (simp add: b apply_writes_again)
      ultimately show ?thesis using assms(2) by (simp add: log_valid_def h bl d(2))
    next
      case False
      then have b: "disk b = disk t" using k by (simp add: d(2))
      have "length (?D ?st) = BSIZE" using assms(1) by (simp add: booted_def bc_inv_def cache_ok_def)
      then have "hdr_n (disk b ?st) \<le> 0" by (simp add: b d(2))
      from recovered_empty [of "disk b" ?st, OF this] show ?thesis by (simp add: b)
    qed
    with initlog_spec [OF k(2), of sb] obtain u where
      u: "initlog ROOTDEV sb b = Ok () u" "bview u = wrote (recovery_writes ?st (disk b)) (bview b)" by blast
    have "disk u = apply_writes (recovery_writes ?st (disk b)) (disk b)"
      using arg_cong [OF u(2), of vdisk] by (simp add: bview_def)
    with u(1) v show ?thesis by auto
  qed
  with t(1) d(1) show ?thesis by blast
qed

theorem recovery_crash_safe_witness:
  "\<exists>s t. binit log_boot = Ok () s \<and> initlog ROOTDEV demo_sb s = Ok () t \<and> disk_trace t \<noteq> [] \<and>
     (\<exists>u. initlog ROOTDEV demo_sb s = Ok () u \<and> disk u 100 = disk t 100)"
proof -
  from demo_tx_ready obtain s where s: "binit log_boot = Ok () s" "booted s" "disk s = disk log_boot" by blast
  have "log_valid (sb_logstart demo_sb) (disk s)"
    by (simp add: s(3) log_valid_def log_blocks_def hdr_n_zeros)
  note l = this
  from recovery_crash_safe [OF s(2) l] obtain t W where t: "initlog ROOTDEV demo_sb s = Ok () t"
    "\<forall>k (b :: log_st). k \<le> length W \<and> booted b \<and> disk b = apply_writes (take k W) (disk s) \<longrightarrow>
        (\<exists>u. initlog ROOTDEV demo_sb b = Ok () u \<and>
           (\<forall>m. m \<notin> log_region (sb_logstart demo_sb) \<longrightarrow> disk u m = disk t m))" by blast
  from initlog_spec [OF s(2) l] t(1) have "bview t = wrote (recovery_writes 2 (disk s)) (bview s)" by auto
  from arg_cong [OF this, of vtrace] have "disk_trace t \<noteq> []" by (simp add: bview_def recovery_writes_def)
  with t s(1,2) t(2) [rule_format, of 0 s] show ?thesis
    by (auto simp: log_region_def LOGBLOCKS_def MAXOPBLOCKS_def)
qed

text \<open>
  Property C9: the reservation of log space is enough, and commits run alone.  Let any number of
  operations run interleaved, each bracketed by \<open>begin_op\<close> and \<open>end_op\<close> and calling \<open>log_write\<close>
  at most \<open>MAXOPBLOCKS\<close> times.  The log always has room for every write an open operation may still
  make, so \<open>log_write\<close> does not panic; \<open>end_op\<close> does not find a commit in progress, and it commits
  exactly when the last open operation ends.  During a commit no operation is open and none can
  begin, and the log is empty when it is done.
\<close>

theorem log_reservation:
  assumes "transactions s r ph" "L_log \<notin> set (held s)" "L_bcache \<notin> set (held s)" "in_proc s"
  shows "lh_n s + int (sum_list r) \<le> int LOGBLOCKS \<and>
     (\<forall>i b. i < length r \<and> 0 < r ! i \<longrightarrow> (\<exists>t. log_write b s = Ok () t)) \<and>
     (r \<noteq> [] \<longrightarrow> (\<exists>t. end_op_leave s = Ok (length r = 1) t)) \<and>
     (ph \<noteq> Idle \<longrightarrow> r = [] \<and> (\<forall>t. begin_op s \<noteq> Ok () t)) \<and>
     (ph = Committing \<longrightarrow> (\<forall>t. commit s = Ok () t \<longrightarrow> lh_n t = 0))"
proof -
  note inv = transactions_inv [OF assms(1)]
  have "\<exists>t. log_write b s = Ok () t" if "i < length r" "0 < r ! i" for i b
  proof -
    have "0 < sum_list r" using that member_le_sum_list [of "r ! i" r] by simp
    then show ?thesis using inv log_write_run [OF assms(2,3), of b] that(1) by auto
  qed
  moreover have "\<exists>t. end_op_leave s = Ok (length r = 1) t" if "r \<noteq> []"
    using end_op_leave_run [OF assms(2) _ assms(4)] inv that by auto
  moreover have "begin_op s \<noteq> Ok () t" if "ph \<noteq> Idle" for t
    using begin_op_Ok(1) [of s t] inv that by auto
  ultimately show ?thesis using inv commit_empties [of s] by blast
qed

theorem log_reservation_witness:
  "\<exists>s t. binit log_boot = Ok () s \<and> begin_op s = Ok () t \<and> transactions t [10] Idle \<and>
     (\<exists>u. log_write 0 t = Ok () u) \<and> (\<exists>u. end_op_leave t = Ok True u)"
proof -
  from log_boot_inv obtain s where s: "binit log_boot = Ok () s" "bc_inv s" "held s = []"
    "log_outstanding s = 0" "\<not> log_committing s" "lh_n s = 0" by blast
  define t where "t = s\<lparr>log_outstanding := 1\<rparr>"
  have t: "begin_op s = Ok () t"
    using s by (simp add: begin_op_def begin_op_loop_def sq_run bnd_run LOGBLOCKS_def MAXOPBLOCKS_def t_def)
  have "transactions t [MAXOPBLOCKS] Idle"
    using transactions.enter [OF transactions.start t] s by simp
  then have tr: "transactions t [10] Idle" by (simp add: MAXOPBLOCKS_def)
  have "held t = []" "in_proc t" using s(2,3) by (simp_all add: t_def bc_inv_def in_proc_def)
  with log_reservation [OF tr] have "\<exists>u. log_write 0 t = Ok () u" "\<exists>u. end_op_leave t = Ok True u" by auto
  with s(1) t tr show ?thesis by blast
qed

text \<open>
  A commit needs a free buffer beside the pinned ones: with every buffer of the cache referenced and
  the first log block not among them, it panics.
\<close>

lemma commit_no_buffer:
  assumes "bc_inv s" "log_dev s = ROOTDEV" "0 < lh_n s" "vfree (bview s) = 0"
    "vrefs (bview s) (log_start s + 1) = 0"
  shows "commit s = Panic ''bget: no buffers''"
proof -
  have "nfree (bufs s) = 0" using assms(4) by (simp add: bview_def)
  then have "fnd (bufs s) (log_start s + 1) = None"
    using assms(5) fnd_Some [of "bufs s" "log_start s + 1"]
    by (auto simp: nfree_0 bview_def refs_def unat_eq_0 split: option.splits)
  from bget_full [OF assms(1) this] \<open>nfree (bufs s) = 0\<close>
  have "write_log_block 0 s = Panic ''bget: no buffers''"
    by (simp add: write_log_block_def bread_def bnd_run assms(2))
  moreover have "[0..<nat (lh_n s)] = 0 # [1..<nat (lh_n s)]" using assms(3) by (simp add: upt_conv_Cons)
  ultimately show ?thesis
    using assms(3) by (simp add: commit_def write_log_def bnd_run sq_run)
qed

end
