(* ===== verification/FS.thy ===== *)
theory FS
  imports Log Cstring
begin

text \<open>
  \<^verbatim>\<open>kernel/fs.c\<close>: disk blocks, inodes, directories and path names.  An in-memory inode is
  an index into \<open>itable\<close>, and a null inode pointer is \<open>None\<close>.  On-disk inodes and directory
  entries are read from and written to the bytes of their blocks.  A local buffer that the
  source hands to \<open>readi\<close> or \<open>writei\<close> by its address lies at \<open>frame\<close>, in the kernel
  stack of the running thread; a path is the list of its bytes up to the null.
\<close>

section \<open>Structures\<close>

definition FSMAGIC :: u32 where "FSMAGIC = 0x10203040"
definition ROOTINO :: nat where "ROOTINO = 1"
definition NDIRECT :: nat where "NDIRECT = 12"
definition NINDIRECT :: nat where "NINDIRECT = BSIZE div 4"
definition MAXFILE :: nat where "MAXFILE = NDIRECT + NINDIRECT"
definition NINODE :: nat where "NINODE = 50"
definition DIRSIZ :: nat where "DIRSIZ = 14"
definition IPB :: nat where "IPB = BSIZE div 64"
definition BPB :: nat where "BPB = BSIZE * 8"
definition T_DIR :: u16 where "T_DIR = 1"
definition T_FILE :: u16 where "T_FILE = 2"
definition T_DEVICE :: u16 where "T_DEVICE = 3"

definition IBLOCK :: "nat \<Rightarrow> superblock \<Rightarrow> nat" where
  "IBLOCK i sb = i div IPB + sb_inodestart sb"

definition BBLOCK :: "nat \<Rightarrow> superblock \<Rightarrow> nat" where
  "BBLOCK b sb = b div BPB + sb_bmapstart sb"

record dinode =
  d_type :: u16
  d_major :: u16
  d_minor :: u16
  d_nlink :: u16
  d_size :: u32
  d_addrs :: "u32 list"

record inode =
  i_dev :: nat
  i_inum :: nat
  i_ref :: int
  i_valid :: bool
  i_type :: u16
  i_major :: u16
  i_minor :: u16
  i_nlink :: u16
  i_size :: u32
  i_addrs :: "u32 list"

record stat =
  st_dev :: nat
  st_ino :: nat
  st_type :: u16
  st_nlink :: u16
  st_size :: u64

record dirent =
  de_inum :: u16
  de_name :: "byte list"

record fs_st = log_st +
  sb :: superblock
  itable :: "inode list"
  frame :: addr

definition iset :: "nat \<Rightarrow> (inode \<Rightarrow> inode) \<Rightarrow> ('z fs_st_scheme, unit) kernel" where
  "iset ip f = upd (\<lambda>s. s\<lparr>itable := (itable s)[ip := f (itable s ! ip)]\<rparr>)"

definition ifield :: "nat \<Rightarrow> (inode \<Rightarrow> 'a) \<Rightarrow> ('z fs_st_scheme, 'a) kernel" where
  "ifield ip f = get (\<lambda>s. f (itable s ! ip))"

definition bset_data :: "nat \<Rightarrow> (block \<Rightarrow> block) \<Rightarrow> ('z bio_st_scheme, unit) kernel" where
  "bset_data b f = bset b (\<lambda>k. k\<lparr>b_data := f (b_data k)\<rparr>)"

section \<open>The bytes of the structures\<close>

definition get16 :: "nat \<Rightarrow> block \<Rightarrow> u16" where
  "get16 off d = le_word (take 2 (drop off d))"

definition put16 :: "nat \<Rightarrow> u16 \<Rightarrow> block \<Rightarrow> block" where
  "put16 off v d = put_bytes off (le_bytes 2 v) d"

definition sb_of_bytes :: "block \<Rightarrow> superblock" where
  "sb_of_bytes d = \<lparr>sb_magic = get32 0 d, sb_size = unat (get32 4 d), sb_nblocks = unat (get32 8 d),
     sb_ninodes = unat (get32 12 d), sb_nlog = unat (get32 16 d), sb_logstart = unat (get32 20 d),
     sb_inodestart = unat (get32 24 d), sb_bmapstart = unat (get32 28 d)\<rparr>"

text \<open>The inode \<open>k\<close> of a block.\<close>

definition dinode_get :: "nat \<Rightarrow> block \<Rightarrow> dinode" where
  "dinode_get k d = \<lparr>d_type = get16 (64 * k) d, d_major = get16 (64 * k + 2) d,
     d_minor = get16 (64 * k + 4) d, d_nlink = get16 (64 * k + 6) d, d_size = get32 (64 * k + 8) d,
     d_addrs = map (\<lambda>i. get32 (64 * k + 12 + 4 * i) d) [0..<Suc NDIRECT]\<rparr>"

definition dinode_put :: "nat \<Rightarrow> dinode \<Rightarrow> block \<Rightarrow> block" where
  "dinode_put k di d =
     fold (\<lambda>i. put32 (64 * k + 12 + 4 * i) (d_addrs di ! i)) [0..<Suc NDIRECT]
       (put32 (64 * k + 8) (d_size di)
       (put16 (64 * k + 6) (d_nlink di)
       (put16 (64 * k + 4) (d_minor di)
       (put16 (64 * k + 2) (d_major di)
       (put16 (64 * k) (d_type di) d)))))"

definition dirent_get :: "byte list \<Rightarrow> dirent" where
  "dirent_get bs = \<lparr>de_inum = le_word (take 2 bs), de_name = take DIRSIZ (drop 2 bs)\<rparr>"

definition dirent_bytes :: "dirent \<Rightarrow> byte list" where
  "dirent_bytes de = le_bytes 2 (de_inum de) @ de_name de"

definition cstr_of :: "byte list \<Rightarrow> cstr" where
  "cstr_of bs = (\<lambda>i. if i < length bs then bs ! i else 0)"

section \<open>Blocks\<close>

definition readsb :: "nat \<Rightarrow> ('z fs_st_scheme, unit) kernel" where
  "readsb dev =
     bnd (bread dev 1) (\<lambda>bp.
     bnd (bfield bp b_data) (\<lambda>d.
     sq (upd (\<lambda>s. s\<lparr>sb := sb_of_bytes d\<rparr>))
        (brelse bp)))"

definition bzero :: "nat \<Rightarrow> nat \<Rightarrow> ('z fs_st_scheme, unit) kernel" where
  "bzero dev bno =
     bnd (bread dev bno) (\<lambda>bp.
     sq (bset_data bp (\<lambda>_. replicate BSIZE 0)) (
     sq (log_write bp)
        (brelse bp)))"

definition bit_mask :: "nat \<Rightarrow> byte" where
  "bit_mask bi = push_bit (bi mod 8) 1"

definition bit_free :: "block \<Rightarrow> nat \<Rightarrow> bool" where
  "bit_free d bi \<longleftrightarrow> d ! (bi div 8) AND bit_mask bi = 0"

text \<open>The loop over the bitmap blocks; the bits of one are scanned in order.\<close>

primrec balloc_from :: "nat list \<Rightarrow> nat \<Rightarrow> ('z fs_st_scheme, nat) kernel" where
  "balloc_from [] dev = sq (printk ''balloc: out of blocks'') (ret 0)"
| "balloc_from (b # bs) dev =
     bnd (get sb) (\<lambda>sb.
     bnd (bread dev (BBLOCK b sb)) (\<lambda>bp.
     bnd (bfield bp b_data) (\<lambda>d.
     case find (bit_free d) [0..<min BPB (sb_size sb - b)] of
       Some bi \<Rightarrow>
         sq (bset_data bp (\<lambda>d. d[bi div 8 := d ! (bi div 8) OR bit_mask bi])) (
         sq (log_write bp) (
         sq (brelse bp) (
         sq (bzero dev (b + bi))
            (ret (b + bi)))))
     | None \<Rightarrow>
         sq (brelse bp)
            (balloc_from bs dev))))"

definition balloc :: "nat \<Rightarrow> ('z fs_st_scheme, nat) kernel" where
  "balloc dev =
     bnd (get sb) (\<lambda>sb.
     balloc_from (map (\<lambda>k. BPB * k) [0..<(sb_size sb + BPB - 1) div BPB]) dev)"

definition bfree :: "nat \<Rightarrow> nat \<Rightarrow> ('z fs_st_scheme, unit) kernel" where
  "bfree dev b =
     bnd (get sb) (\<lambda>sb.
     bnd (bread dev (BBLOCK b sb)) (\<lambda>bp.
     let bi = b mod BPB in
     bnd (bfield bp b_data) (\<lambda>d.
     sq (unless_panic (\<not> bit_free d bi) ''freeing free block'') (
     sq (bset_data bp (\<lambda>d. d[bi div 8 := d ! (bi div 8) AND NOT (bit_mask bi)])) (
     sq (log_write bp)
        (brelse bp))))))"

section \<open>Inodes\<close>

definition iinit :: "('z fs_st_scheme, unit) kernel" where
  "iinit = foreach [0..<NINODE] (\<lambda>i. initsleeplock (SL_inode i) ''inode'')"

text \<open>The scan of \<^verbatim>\<open>iget\<close>: the entry that is there already, or the first empty one.\<close>

primrec iget_scan :: "inode list \<Rightarrow> nat \<Rightarrow> nat \<Rightarrow> nat \<Rightarrow> nat option \<Rightarrow> nat option \<times> nat option" where
  "iget_scan [] i dev inum emp = (None, emp)"
| "iget_scan (k # ks) i dev inum emp =
     (if i_ref k > 0 \<and> i_dev k = dev \<and> i_inum k = inum then (Some i, emp)
      else iget_scan ks (Suc i) dev inum (if emp = None \<and> i_ref k = 0 then Some i else emp))"

definition iget :: "nat \<Rightarrow> nat \<Rightarrow> ('z fs_st_scheme, nat) kernel" where
  "iget dev inum =
     sq (lock_acquire L_itable) (
     bnd (get (\<lambda>s. iget_scan (itable s) 0 dev inum None)) (\<lambda>(hit, emp).
     case hit of
       Some ip \<Rightarrow>
         sq (iset ip (\<lambda>k. k\<lparr>i_ref := i_ref k + 1\<rparr>)) (
         sq (lock_release L_itable)
            (ret ip))
     | None \<Rightarrow>
         (case emp of
            None \<Rightarrow> panic ''iget: no inodes''
          | Some ip \<Rightarrow>
              sq (iset ip (\<lambda>k. k\<lparr>i_dev := dev\<rparr>)) (
              sq (iset ip (\<lambda>k. k\<lparr>i_inum := inum\<rparr>)) (
              sq (iset ip (\<lambda>k. k\<lparr>i_ref := 1\<rparr>)) (
              sq (iset ip (\<lambda>k. k\<lparr>i_valid := False\<rparr>)) (
              sq (lock_release L_itable)
                 (ret ip))))))))"

primrec ialloc_from :: "nat list \<Rightarrow> nat \<Rightarrow> u16 \<Rightarrow> ('z fs_st_scheme, nat option) kernel" where
  "ialloc_from [] dev type = sq (printk ''ialloc: no inodes'') (ret None)"
| "ialloc_from (inum # is) dev type =
     bnd (get sb) (\<lambda>sb.
     bnd (bread dev (IBLOCK inum sb)) (\<lambda>bp.
     bnd (bfield bp b_data) (\<lambda>d.
     if d_type (dinode_get (inum mod IPB) d) = 0
     then sq (bset_data bp (put_bytes (64 * (inum mod IPB)) (replicate 64 0))) (
          sq (bset_data bp (put16 (64 * (inum mod IPB)) type)) (
          sq (log_write bp) (
          sq (brelse bp) (
          bnd (iget dev inum) (\<lambda>ip. ret (Some ip))))))
     else sq (brelse bp)
             (ialloc_from is dev type))))"

definition ialloc :: "nat \<Rightarrow> u16 \<Rightarrow> ('z fs_st_scheme, nat option) kernel" where
  "ialloc dev type = bnd (get sb) (\<lambda>sb. ialloc_from [1..<sb_ninodes sb] dev type)"

definition dinode_of :: "inode \<Rightarrow> dinode" where
  "dinode_of k = \<lparr>d_type = i_type k, d_major = i_major k, d_minor = i_minor k, d_nlink = i_nlink k,
     d_size = i_size k, d_addrs = i_addrs k\<rparr>"

definition iupdate :: "nat \<Rightarrow> ('z fs_st_scheme, unit) kernel" where
  "iupdate ip =
     bnd (get sb) (\<lambda>sb.
     bnd (ifield ip i_dev) (\<lambda>dev.
     bnd (ifield ip i_inum) (\<lambda>inum.
     bnd (bread dev (IBLOCK inum sb)) (\<lambda>bp.
     bnd (ifield ip dinode_of) (\<lambda>di.
     sq (bset_data bp (dinode_put (inum mod IPB) di)) (
     sq (log_write bp)
        (brelse bp)))))))"

definition idup :: "nat \<Rightarrow> ('z fs_st_scheme, nat) kernel" where
  "idup ip =
     sq (lock_acquire L_itable) (
     sq (iset ip (\<lambda>k. k\<lparr>i_ref := i_ref k + 1\<rparr>)) (
     sq (lock_release L_itable)
        (ret ip)))"

text \<open>What \<^verbatim>\<open>ilock\<close> does once it has the sleep lock: read the inode if it is not valid.\<close>

definition iread :: "nat \<Rightarrow> ('z fs_st_scheme, unit) kernel" where
  "iread ip =
     bnd (ifield ip i_valid) (\<lambda>valid.
     whenk (\<not> valid) (
       bnd (get sb) (\<lambda>sb.
       bnd (ifield ip i_dev) (\<lambda>dev.
       bnd (ifield ip i_inum) (\<lambda>inum.
       bnd (bread dev (IBLOCK inum sb)) (\<lambda>bp.
       bnd (bfield bp (\<lambda>k. dinode_get (inum mod IPB) (b_data k))) (\<lambda>di.
       sq (iset ip (\<lambda>k. k\<lparr>i_type := d_type di\<rparr>)) (
       sq (iset ip (\<lambda>k. k\<lparr>i_major := d_major di\<rparr>)) (
       sq (iset ip (\<lambda>k. k\<lparr>i_minor := d_minor di\<rparr>)) (
       sq (iset ip (\<lambda>k. k\<lparr>i_nlink := d_nlink di\<rparr>)) (
       sq (iset ip (\<lambda>k. k\<lparr>i_size := d_size di\<rparr>)) (
       sq (iset ip (\<lambda>k. k\<lparr>i_addrs := d_addrs di\<rparr>)) (
       sq (brelse bp) (
       sq (iset ip (\<lambda>k. k\<lparr>i_valid := True\<rparr>)) (
       bnd (ifield ip i_type) (\<lambda>type.
       unless_panic (type \<noteq> 0) ''ilock: no type''))))))))))))))))"

definition ilock :: "nat \<Rightarrow> ('z fs_st_scheme, unit) kernel" where
  "ilock ip =
     bnd (ifield ip i_ref) (\<lambda>ref.
     sq (unless_panic (\<not> ref < 1) ''ilock'') (
     sq (acquiresleep (SL_inode ip))
        (iread ip)))"

definition ilock_resume :: "nat \<Rightarrow> ('z fs_st_scheme, unit) kernel" where
  "ilock_resume ip = sq (acquiresleep_resume (SL_inode ip)) (iread ip)"

definition iunlock :: "nat \<Rightarrow> ('z fs_st_scheme, unit) kernel" where
  "iunlock ip =
     bnd (holdingsleep (SL_inode ip)) (\<lambda>h.
     bnd (ifield ip i_ref) (\<lambda>ref.
     sq (unless_panic (\<not> (\<not> h \<or> ref < 1)) ''iunlock'')
        (releasesleep (SL_inode ip))))"

definition itrunc_direct :: "nat \<Rightarrow> nat \<Rightarrow> ('z fs_st_scheme, unit) kernel" where
  "itrunc_direct ip i =
     bnd (ifield ip (\<lambda>k. i_addrs k ! i)) (\<lambda>a.
     whenk (a \<noteq> 0) (
       bnd (ifield ip i_dev) (\<lambda>dev.
       sq (bfree dev (unat a))
          (iset ip (\<lambda>k. k\<lparr>i_addrs := (i_addrs k)[i := 0]\<rparr>)))))"

definition itrunc :: "nat \<Rightarrow> ('z fs_st_scheme, unit) kernel" where
  "itrunc ip =
     sq (foreach [0..<NDIRECT] (itrunc_direct ip)) (
     bnd (ifield ip i_dev) (\<lambda>dev.
     bnd (ifield ip (\<lambda>k. i_addrs k ! NDIRECT)) (\<lambda>ind.
     sq (whenk (ind \<noteq> 0) (
          bnd (bread dev (unat ind)) (\<lambda>bp.
          sq (foreach [0..<NINDIRECT] (\<lambda>j.
                bnd (bfield bp (\<lambda>k. get32 (4 * j) (b_data k))) (\<lambda>a.
                whenk (a \<noteq> 0) (bfree dev (unat a))))) (
          sq (brelse bp) (
          sq (bfree dev (unat ind))
             (iset ip (\<lambda>k. k\<lparr>i_addrs := (i_addrs k)[NDIRECT := 0]\<rparr>))))))) (
     sq (iset ip (\<lambda>k. k\<lparr>i_size := 0\<rparr>))
        (iupdate ip)))))"

definition iput :: "nat \<Rightarrow> ('z fs_st_scheme, unit) kernel" where
  "iput ip =
     sq (lock_acquire L_itable) (
     bnd (ifield ip (\<lambda>k. i_ref k = 1 \<and> i_valid k \<and> i_nlink k = 0)) (\<lambda>last.
     sq (whenk last (
          sq (acquiresleep (SL_inode ip)) (
          sq (lock_release L_itable) (
          sq (itrunc ip) (
          sq (iset ip (\<lambda>k. k\<lparr>i_type := 0\<rparr>)) (
          sq (iupdate ip) (
          sq (iset ip (\<lambda>k. k\<lparr>i_valid := False\<rparr>)) (
          sq (releasesleep (SL_inode ip))
             (lock_acquire L_itable))))))))) (
     sq (iset ip (\<lambda>k. k\<lparr>i_ref := i_ref k - 1\<rparr>))
        (lock_release L_itable))))"

definition iunlockput :: "nat \<Rightarrow> ('z fs_st_scheme, unit) kernel" where
  "iunlockput ip = sq (iunlock ip) (iput ip)"

definition ireclaim1 :: "nat \<Rightarrow> nat \<Rightarrow> ('z fs_st_scheme, unit) kernel" where
  "ireclaim1 dev inum =
     bnd (get sb) (\<lambda>sb.
     bnd (bread dev (IBLOCK inum sb)) (\<lambda>bp.
     bnd (bfield bp (\<lambda>k. dinode_get (inum mod IPB) (b_data k))) (\<lambda>di.
     bnd (if d_type di \<noteq> 0 \<and> d_nlink di = 0
          then sq (printk ''ireclaim: orphaned inode %d'') (bnd (iget dev inum) (\<lambda>ip. ret (Some ip)))
          else ret None) (\<lambda>ip.
     sq (brelse bp)
        (case ip of
           None \<Rightarrow> ret ()
         | Some ip \<Rightarrow>
             sq begin_op (
             sq (ilock ip) (
             sq (iunlock ip) (
             sq (iput ip)
                end_op))))))))"

definition ireclaim :: "nat \<Rightarrow> ('z fs_st_scheme, unit) kernel" where
  "ireclaim dev = bnd (get sb) (\<lambda>sb. foreach [1..<sb_ninodes sb] (ireclaim1 dev))"

definition fsinit :: "nat \<Rightarrow> ('z fs_st_scheme, unit) kernel" where
  "fsinit dev =
     sq (readsb dev) (
     bnd (get sb) (\<lambda>sb.
     sq (unless_panic (sb_magic sb = FSMAGIC) ''invalid file system'') (
     sq (initlog dev sb)
        (ireclaim dev))))"

section \<open>Content\<close>

definition bmap :: "nat \<Rightarrow> nat \<Rightarrow> ('z fs_st_scheme, nat) kernel" where
  "bmap ip bn =
     bnd (ifield ip i_dev) (\<lambda>dev.
     if bn < NDIRECT
     then bnd (ifield ip (\<lambda>k. unat (i_addrs k ! bn))) (\<lambda>addr.
          if addr = 0
          then bnd (balloc dev) (\<lambda>addr.
               if addr = 0 then ret 0
               else sq (iset ip (\<lambda>k. k\<lparr>i_addrs := (i_addrs k)[bn := of_nat addr]\<rparr>))
                       (ret addr))
          else ret addr)
     else let bn = bn - NDIRECT in
     if bn < NINDIRECT
     then bnd (ifield ip (\<lambda>k. unat (i_addrs k ! NDIRECT))) (\<lambda>addr.
          bnd (if addr = 0
               then bnd (balloc dev) (\<lambda>addr.
                    if addr = 0 then ret 0
                    else sq (iset ip (\<lambda>k. k\<lparr>i_addrs := (i_addrs k)[NDIRECT := of_nat addr]\<rparr>))
                            (ret addr))
               else ret addr) (\<lambda>addr.
          if addr = 0 then ret 0
          else bnd (bread dev addr) (\<lambda>bp.
               bnd (bfield bp (\<lambda>k. unat (get32 (4 * bn) (b_data k)))) (\<lambda>addr.
               bnd (if addr = 0
                    then bnd (balloc dev) (\<lambda>addr.
                         sq (whenk (addr \<noteq> 0) (
                              sq (bset_data bp (put32 (4 * bn) (of_nat addr)))
                                 (log_write bp)))
                            (ret addr))
                    else ret addr) (\<lambda>addr.
               sq (brelse bp)
                  (ret addr))))))
     else panic ''bmap: out of range'')"

definition stati :: "nat \<Rightarrow> ('z fs_st_scheme, stat) kernel" where
  "stati ip =
     ifield ip (\<lambda>k. \<lparr>st_dev = i_dev k, st_ino = i_inum k, st_type = i_type k, st_nlink = i_nlink k,
       st_size = ucast (i_size k)\<rparr>)"

text \<open>Copies to and from a user address of the running process, or a kernel address.\<close>

definition either_copyout :: "bool \<Rightarrow> addr \<Rightarrow> byte list \<Rightarrow> ('z proc_st_scheme, int) kernel" where
  "either_copyout user_dst dst src =
     bnd myproc (\<lambda>p.
     if user_dst
     then bnd (pget p p_pagetable) (\<lambda>pagetable. copyout pagetable dst src)
     else sq (upd (\<lambda>s. s\<lparr>mem := mem_write (mem s) dst src\<rparr>))
             (ret 0))"

definition either_copyin :: "bool \<Rightarrow> addr \<Rightarrow> nat \<Rightarrow> ('z proc_st_scheme, int \<times> byte list) kernel" where
  "either_copyin user_src src len =
     bnd myproc (\<lambda>p.
     if user_src
     then bnd (pget p p_pagetable) (\<lambda>pagetable. copyin pagetable src len)
     else bnd (get (\<lambda>s. mem_read (mem s) src len)) (\<lambda>bs. ret (0, bs)))"

text \<open>
  The loops of \<^verbatim>\<open>readi\<close> and \<^verbatim>\<open>writei\<close>.  An iteration moves at least one byte, so \<open>n\<close>
  of them and one more to leave the loop are enough.
\<close>

primrec readi_loop ::
  "nat \<Rightarrow> nat \<Rightarrow> bool \<Rightarrow> addr \<Rightarrow> u32 \<Rightarrow> u32 \<Rightarrow> u32 \<Rightarrow> ('z fs_st_scheme, int) kernel" where
  "readi_loop 0 ip user_dst dst off n tot = panic ''readi: fuel''"
| "readi_loop (Suc fuel) ip user_dst dst off n tot =
     (if \<not> tot < n then ret (sint tot)
      else bnd (bmap ip (unat off div BSIZE)) (\<lambda>addr.
      if addr = 0 then ret (sint tot)
      else bnd (ifield ip i_dev) (\<lambda>dev.
      bnd (bread dev addr) (\<lambda>bp.
      let m = min (n - tot) (of_nat (BSIZE - unat off mod BSIZE)) in
      bnd (bfield bp (\<lambda>k. take (unat m) (drop (unat off mod BSIZE) (b_data k)))) (\<lambda>bs.
      bnd (either_copyout user_dst dst bs) (\<lambda>r.
      if r = - 1 then sq (brelse bp) (ret (- 1))
      else sq (brelse bp)
              (readi_loop fuel ip user_dst (dst + ucast m) (off + m) n (tot + m))))))))"

definition readi :: "nat \<Rightarrow> bool \<Rightarrow> addr \<Rightarrow> u32 \<Rightarrow> u32 \<Rightarrow> ('z fs_st_scheme, int) kernel" where
  "readi ip user_dst dst off n =
     bnd (ifield ip i_size) (\<lambda>size.
     if off > size \<or> off + n < off then ret 0
     else let n = (if off + n > size then size - off else n)
          in readi_loop (Suc (unat n)) ip user_dst dst off n 0)"

text \<open>\<^verbatim>\<open>copyin\<close> fills the buffer as far as it gets, also when it fails.\<close>

primrec writei_loop ::
  "nat \<Rightarrow> nat \<Rightarrow> bool \<Rightarrow> addr \<Rightarrow> u32 \<Rightarrow> u32 \<Rightarrow> u32 \<Rightarrow> ('z fs_st_scheme, u32 \<times> u32) kernel" where
  "writei_loop 0 ip user_src src off n tot = panic ''writei: fuel''"
| "writei_loop (Suc fuel) ip user_src src off n tot =
     (if \<not> tot < n then ret (off, tot)
      else bnd (bmap ip (unat off div BSIZE)) (\<lambda>addr.
      if addr = 0 then ret (off, tot)
      else bnd (ifield ip i_dev) (\<lambda>dev.
      bnd (bread dev addr) (\<lambda>bp.
      let m = min (n - tot) (of_nat (BSIZE - unat off mod BSIZE)) in
      bnd (either_copyin user_src src (unat m)) (\<lambda>(r, bs).
      sq (bset_data bp (put_bytes (unat off mod BSIZE) bs)) (
      if r = - 1 then sq (brelse bp) (ret (off, tot))
      else sq (log_write bp) (
           sq (brelse bp)
              (writei_loop fuel ip user_src (src + ucast m) (off + m) n (tot + m)))))))))"

definition writei :: "nat \<Rightarrow> bool \<Rightarrow> addr \<Rightarrow> u32 \<Rightarrow> u32 \<Rightarrow> ('z fs_st_scheme, int) kernel" where
  "writei ip user_src src off n =
     bnd (ifield ip i_size) (\<lambda>size.
     if off > size \<or> off + n < off then ret (- 1)
     else if unat (off + n) > MAXFILE * BSIZE then ret (- 1)
     else bnd (writei_loop (Suc (unat n)) ip user_src src off n 0) (\<lambda>(off, tot).
          sq (whenk (off > size) (iset ip (\<lambda>k. k\<lparr>i_size := off\<rparr>))) (
          sq (iupdate ip)
             (ret (sint tot)))))"

section \<open>Directories\<close>

definition namecmp :: "cstr \<Rightarrow> cstr \<Rightarrow> int" where
  "namecmp s t = strncmp s t DIRSIZ"

text \<open>\<^verbatim>\<open>readi(dp, 0, (uint64)&de, off, sizeof(de))\<close> and the entry it leaves in \<^verbatim>\<open>de\<close>.\<close>

definition read_dirent :: "nat \<Rightarrow> nat \<Rightarrow> string \<Rightarrow> ('z fs_st_scheme, dirent) kernel" where
  "read_dirent dp off msg =
     bnd (get frame) (\<lambda>de.
     bnd (readi dp False de (of_nat off) 16) (\<lambda>r.
     sq (unless_panic (r = 16) msg)
        (get (\<lambda>s. dirent_get (mem_read (mem s) de 16)))))"

primrec dirlookup_from :: "nat list \<Rightarrow> nat \<Rightarrow> cstr \<Rightarrow> ('z fs_st_scheme, (nat \<times> nat) option) kernel" where
  "dirlookup_from [] dp name = ret None"
| "dirlookup_from (off # offs) dp name =
     bnd (read_dirent dp off ''dirlookup read'') (\<lambda>de.
     if de_inum de = 0 then dirlookup_from offs dp name
     else if namecmp name (cstr_of (de_name de)) = 0
     then bnd (ifield dp i_dev) (\<lambda>dev.
          bnd (iget dev (unat (de_inum de))) (\<lambda>ip. ret (Some (ip, off))))
     else dirlookup_from offs dp name)"

definition dir_offsets :: "u32 \<Rightarrow> nat list" where
  "dir_offsets sz = map (\<lambda>k. 16 * k) [0..<(unat sz + 15) div 16]"

text \<open>The inode of the entry and the entry's offset, which the source stores through \<^verbatim>\<open>poff\<close>.\<close>

definition dirlookup :: "nat \<Rightarrow> cstr \<Rightarrow> ('z fs_st_scheme, (nat \<times> nat) option) kernel" where
  "dirlookup dp name =
     bnd (ifield dp i_type) (\<lambda>type.
     sq (unless_panic (type = T_DIR) ''dirlookup not DIR'') (
     bnd (ifield dp i_size) (\<lambda>size.
     dirlookup_from (dir_offsets size) dp name)))"

text \<open>The offset of the first empty entry, or the end of the directory.\<close>

primrec dirlink_slot :: "nat list \<Rightarrow> nat \<Rightarrow> nat \<Rightarrow> ('z fs_st_scheme, nat) kernel" where
  "dirlink_slot [] e dp = ret e"
| "dirlink_slot (off # offs) e dp =
     bnd (read_dirent dp off ''dirlink read'') (\<lambda>de.
     if de_inum de = 0 then ret off
     else dirlink_slot offs (off + 16) dp)"

definition dirlink :: "nat \<Rightarrow> cstr \<Rightarrow> nat \<Rightarrow> ('z fs_st_scheme, int) kernel" where
  "dirlink dp name inum =
     bnd (dirlookup dp name) (\<lambda>r.
     case r of
       Some (ip, off) \<Rightarrow> sq (iput ip) (ret (- 1))
     | None \<Rightarrow>
         bnd (ifield dp i_size) (\<lambda>size.
         bnd (dirlink_slot (dir_offsets size) 0 dp) (\<lambda>off.
         bnd (get frame) (\<lambda>de.
         sq (upd (\<lambda>s. s\<lparr>mem := mem_write (mem s) (de + 2)
               (map (strncpy (\<lambda>i. mem s (de + 2 + of_nat i)) name DIRSIZ) [0..<DIRSIZ])\<rparr>)) (
         sq (upd (\<lambda>s. s\<lparr>mem := mem_write (mem s) de (le_bytes 2 (of_nat inum :: u16))\<rparr>)) (
         bnd (writei dp False de (of_nat off) 16) (\<lambda>r.
         if r \<noteq> 16 then ret (- 1) else ret 0)))))))"

section \<open>Paths\<close>

definition slash :: byte where "slash = 47"

text \<open>The rest of the path and the element, which the source copies into the array \<open>name\<close>.\<close>

definition skipelem :: "byte list \<Rightarrow> cstr \<Rightarrow> (byte list \<times> cstr) option" where
  "skipelem path name =
     (let path = dropWhile (\<lambda>c. c = slash) path in
      if path = [] then None
      else let s = takeWhile (\<lambda>c. c \<noteq> slash) path;
               path = dropWhile (\<lambda>c. c \<noteq> slash) path;
               len = length s;
               name = (if len \<ge> DIRSIZ then (\<lambda>i. if i < DIRSIZ then s ! i else name i)
                       else (\<lambda>i. if i < len then s ! i else name i)(len := 0))
           in Some (dropWhile (\<lambda>c. c = slash) path, name))"

text \<open>Every element takes at least one byte of the path, so its length bounds the loop.\<close>

primrec namex_loop ::
  "nat \<Rightarrow> nat \<Rightarrow> byte list \<Rightarrow> bool \<Rightarrow> cstr \<Rightarrow> ('z fs_st_scheme, nat option \<times> cstr) kernel" where
  "namex_loop 0 ip path nameiparent name = panic ''namex: fuel''"
| "namex_loop (Suc fuel) ip path nameiparent name =
     (case skipelem path name of
        None \<Rightarrow>
          if nameiparent then sq (iput ip) (ret (None, name)) else ret (Some ip, name)
      | Some (path, name) \<Rightarrow>
          sq (ilock ip) (
          bnd (ifield ip i_type) (\<lambda>type.
          if type \<noteq> T_DIR then sq (iunlockput ip) (ret (None, name))
          else if nameiparent \<and> path = [] then sq (iunlock ip) (ret (Some ip, name))
          else bnd (dirlookup ip name) (\<lambda>r.
               case r of
                 None \<Rightarrow> sq (iunlockput ip) (ret (None, name))
               | Some (nxt, off) \<Rightarrow>
                   sq (iunlockput ip)
                      (namex_loop fuel nxt path nameiparent name)))))"

definition namex :: "byte list \<Rightarrow> bool \<Rightarrow> cstr \<Rightarrow> ('z fs_st_scheme, nat option \<times> cstr) kernel" where
  "namex path nameiparent name =
     bnd (if path \<noteq> [] \<and> hd path = slash then iget ROOTDEV ROOTINO
          else bnd myproc (\<lambda>p.
               bnd (pget p p_cwd) (\<lambda>cwd.
               case cwd of None \<Rightarrow> panic ''null cwd'' | Some ip \<Rightarrow> idup ip))) (\<lambda>ip.
     namex_loop (Suc (length path)) ip path nameiparent name)"

text \<open>The initial content of the local array \<^verbatim>\<open>name\<close> is not looked at.\<close>

definition namei :: "byte list \<Rightarrow> ('z fs_st_scheme, nat option) kernel" where
  "namei path = bnd (namex path False (\<lambda>_. 0)) (\<lambda>(ip, name). ret ip)"

definition nameiparent :: "byte list \<Rightarrow> cstr \<Rightarrow> ('z fs_st_scheme, nat option \<times> cstr) kernel" where
  "nameiparent path name = namex path True name"

end
