(* ===== verification/Printf.thy ===== *)
theory Printf
  imports Prelude
begin

text \<open>
  Formatted output, \<^verbatim>\<open>kernel/printf.c\<close> and \<^verbatim>\<open>user/printf.c\<close>: the characters that a call
  of \<^verbatim>\<open>printf\<close> sends to the console or the file descriptor, one after the other.  The two
  files differ in their digits and in the width at which \<^verbatim>\<open>printint\<close> works: 64 bits in the
  kernel, 32 bits in user programs.  An argument is a 64-bit register or a string pointer; a call whose
  arguments do not fit the format is undefined in C, and \<open>None\<close> here.
\<close>

section \<open>Numbers\<close>

definition kernel_digits :: string where "kernel_digits = ''0123456789abcdef''"
definition user_digits :: string where "user_digits = ''0123456789ABCDEF''"

text \<open>
  The loop that fills \<^verbatim>\<open>buf\<close>, least significant digit first; it is the same in \<^verbatim>\<open>kernel/printf.c\<close> and
  \<^verbatim>\<open>user/printf.c\<close>, up to the digits.
\<close>

function buf_digits :: "string \<Rightarrow> nat \<Rightarrow> nat \<Rightarrow> string" where
  "buf_digits digits base x =
     digits ! (x mod base) # (if x div base = 0 \<or> base < 2 then [] else buf_digits digits base (x div base))"
  by pat_completeness auto
termination
  by (relation "measure (\<lambda>(_, _, x). x)") (auto simp: not_less intro!: div_less_dividend gr0I)

declare buf_digits.simps [simp del]

text \<open>\<^verbatim>\<open>printint\<close> of the kernel: \<open>x\<close> is an \<^verbatim>\<open>unsigned long long\<close>.\<close>

definition k_printint :: "u64 \<Rightarrow> nat \<Rightarrow> bool \<Rightarrow> string" where
  "k_printint xx base sign =
     (let neg = (sign \<and> sint xx < 0);
          x = (if neg then - xx else xx);
          buf = buf_digits kernel_digits base (unat x) @ (if neg then ''-'' else [])
      in rev buf)"

text \<open>\<^verbatim>\<open>printint\<close> of user programs: \<open>x\<close> is a \<^verbatim>\<open>uint\<close>.\<close>

definition u_printint :: "u64 \<Rightarrow> nat \<Rightarrow> bool \<Rightarrow> string" where
  "u_printint xx base sign =
     (let neg = (sign \<and> sint xx < 0);
          x = (if neg then ucast (- xx) else ucast xx) :: u32;
          buf = buf_digits user_digits base (unat x) @ (if neg then ''-'' else [])
      in rev buf)"

primrec ptr_digits :: "string \<Rightarrow> nat \<Rightarrow> u64 \<Rightarrow> string" where
  "ptr_digits digits 0 x = []"
| "ptr_digits digits (Suc n) x = digits ! unat (drop_bit (64 - 4) x) # ptr_digits digits n (push_bit 4 x)"

definition printptr :: "string \<Rightarrow> u64 \<Rightarrow> string" where
  "printptr digits x = ''0x'' @ ptr_digits digits 16 x"

section \<open>Formats\<close>

text \<open>The conversion after a \<^verbatim>\<open>%\<close>, and the characters it takes beyond the first.\<close>

datatype conv =
    Signed bool
  | Unsigned bool nat
  | Pointer
  | Character
  | CString
  | Percent
  | Unknown char
  | FormatEnd

definition conversion :: "string \<Rightarrow> conv \<times> nat" where
  "conversion fmt =
     (let c0 = (if fmt = [] then CHR 0x00 else fmt ! 0);
          c1 = (if c0 \<noteq> CHR 0x00 \<and> 1 < length fmt then fmt ! 1 else CHR 0x00);
          c2 = (if c1 \<noteq> CHR 0x00 \<and> 2 < length fmt then fmt ! 2 else CHR 0x00)
      in if c0 = CHR ''d'' then (Signed False, 0)
         else if c0 = CHR ''l'' \<and> c1 = CHR ''d'' then (Signed True, 1)
         else if c0 = CHR ''l'' \<and> c1 = CHR ''l'' \<and> c2 = CHR ''d'' then (Signed True, 2)
         else if c0 = CHR ''u'' then (Unsigned False 10, 0)
         else if c0 = CHR ''l'' \<and> c1 = CHR ''u'' then (Unsigned True 10, 1)
         else if c0 = CHR ''l'' \<and> c1 = CHR ''l'' \<and> c2 = CHR ''u'' then (Unsigned True 10, 2)
         else if c0 = CHR ''x'' then (Unsigned False 16, 0)
         else if c0 = CHR ''l'' \<and> c1 = CHR ''x'' then (Unsigned True 16, 1)
         else if c0 = CHR ''l'' \<and> c1 = CHR ''l'' \<and> c2 = CHR ''x'' then (Unsigned True 16, 2)
         else if c0 = CHR ''p'' then (Pointer, 0)
         else if c0 = CHR ''c'' then (Character, 0)
         else if c0 = CHR ''s'' then (CString, 0)
         else if c0 = CHR ''%'' then (Percent, 0)
         else if c0 = CHR 0x00 then (FormatEnd, 0)
         else (Unknown c0, 0))"

datatype va = Reg u64 | Ptr "string option"

definition va_int :: "u64 \<Rightarrow> u64" where
  "va_int w = scast (ucast w :: u32)"

definition va_uint :: "u64 \<Rightarrow> u64" where
  "va_uint w = ucast (ucast w :: u32)"

text \<open>What one conversion prints, and the arguments it leaves.\<close>

fun convert ::
  "string \<Rightarrow> (u64 \<Rightarrow> nat \<Rightarrow> bool \<Rightarrow> string) \<Rightarrow> conv \<Rightarrow> va list \<Rightarrow> (string \<times> va list) option" where
  "convert digits printint (Signed long) (Reg w # ap) =
     Some (printint (if long then w else va_int w) 10 True, ap)"
| "convert digits printint (Unsigned long base) (Reg w # ap) =
     Some (printint (if long then w else va_uint w) base False, ap)"
| "convert digits printint Pointer (Reg w # ap) = Some (printptr digits w, ap)"
| "convert digits printint Character (Reg w # ap) = Some ([char_of (unat (ucast w :: byte))], ap)"
| "convert digits printint CString (Ptr s # ap) = Some (case s of None \<Rightarrow> ''(null)'' | Some cs \<Rightarrow> cs, ap)"
| "convert digits printint Percent ap = Some (''%'', ap)"
| "convert digits printint (Unknown c) ap = Some ([CHR ''%'', c], ap)"
| "convert digits printint FormatEnd ap = Some ([], ap)"
| "convert digits printint cv ap = None"

text \<open>The loop over the format, the same in both files.\<close>

function format :: "string \<Rightarrow> (u64 \<Rightarrow> nat \<Rightarrow> bool \<Rightarrow> string) \<Rightarrow> string \<Rightarrow> va list \<Rightarrow> string option" where
  "format digits printint [] ap = Some []"
| "format digits printint (c # fmt) ap =
     (if c \<noteq> CHR ''%'' then map_option (Cons c) (format digits printint fmt ap)
      else case conversion fmt of (cv, k) \<Rightarrow>
        (case convert digits printint cv ap of
           None \<Rightarrow> None
         | Some (out, ap') \<Rightarrow>
             if cv = FormatEnd then Some []
             else map_option ((@) out) (format digits printint (drop (Suc k) fmt) ap')))"
  by pat_completeness auto
termination
  by (relation "measure (\<lambda>(_, _, fmt, _). length fmt)") auto

definition k_printf :: "string \<Rightarrow> va list \<Rightarrow> string option" where
  "k_printf fmt ap = format kernel_digits k_printint fmt ap"

definition vprintf :: "string \<Rightarrow> va list \<Rightarrow> string option" where
  "vprintf fmt ap = format user_digits u_printint fmt ap"

section \<open>What is printed\<close>

text \<open>The value of a numeral, by the usual reading of digits.\<close>

definition digit_value :: "char \<Rightarrow> nat" where
  "digit_value c = (let n = of_char c in if 97 \<le> n then n - 87 else if 65 \<le> n then n - 55 else n - 48)"

definition numeral_value :: "nat \<Rightarrow> string \<Rightarrow> nat" where
  "numeral_value base cs = foldl (\<lambda>v c. v * base + digit_value c) 0 cs"

definition int_value :: "string \<Rightarrow> int" where
  "int_value cs =
     (case cs of c # ds \<Rightarrow> if c = CHR ''-'' then - int (numeral_value 10 ds) else int (numeral_value 10 cs)
      | [] \<Rightarrow> 0)"

definition good_digits :: "string \<Rightarrow> bool" where
  "good_digits ds \<longleftrightarrow> map digit_value ds = [0..<16] \<and> CHR ''-'' \<notin> set ds"

lemma good_digits [simp]: "good_digits kernel_digits" "good_digits user_digits"
  by code_simp+

lemma good_digitsD:
  assumes "good_digits ds" "i < 16"
  shows "digit_value (ds ! i) = i" "ds ! i \<noteq> CHR ''-''"
proof -
  have l: "length ds = 16" using assms(1) by (metis good_digits_def length_map length_upt minus_nat.diff_0)
  then have "map digit_value ds ! i = [0..<16] ! i" using assms by (simp add: good_digits_def)
  then show "digit_value (ds ! i) = i" using l assms(2) by simp
  show "ds ! i \<noteq> CHR ''-''" using assms l by (metis good_digits_def nth_mem)
qed

lemma buf_digits_value:
  assumes "good_digits ds" "2 \<le> base" "base \<le> 16"
  shows "numeral_value base (rev (buf_digits ds base x)) = x"
proof (induction x rule: less_induct)
  case (less x)
  have d: "digit_value (ds ! (x mod base)) = x mod base"
    using assms by (intro good_digitsD) (simp_all add: order_less_le_trans [OF mod_less_divisor])
  have "numeral_value base (rev (buf_digits ds base (x div base))) = x div base" if "x div base \<noteq> 0"
    using that assms by (intro less.IH div_less_dividend) (auto intro: gr0I)
  then show ?case
    using assms(2) d div_mult_mod_eq [of x base]
    by (subst buf_digits.simps) (auto simp: numeral_value_def div_eq_0_iff)
qed

lemma length_buf_digits:
  "2 \<le> base \<Longrightarrow> x < base ^ Suc k \<Longrightarrow> length (buf_digits ds base x) \<le> Suc k"
proof (induction k arbitrary: x)
  case 0
  then show ?case by (subst buf_digits.simps) simp
next
  case (Suc k)
  from Suc.prems(2) have "x div base < base ^ Suc k" by (simp add: less_mult_imp_div_less mult.commute)
  from Suc.IH [OF Suc.prems(1) this] show ?case by (subst buf_digits.simps) simp
qed

lemma buf_digits_hd:
  assumes "good_digits ds" "2 \<le> base" "base \<le> 16"
  shows "\<exists>c cs. rev (buf_digits ds base x) = c # cs \<and> c \<noteq> CHR ''-''"
proof -
  have "CHR ''-'' \<notin> set (buf_digits ds base x)"
  proof (induction x rule: less_induct)
    case (less x)
    have "ds ! (x mod base) \<noteq> CHR ''-''"
      using assms by (intro good_digitsD) (simp_all add: order_less_le_trans [OF mod_less_divisor])
    moreover have "CHR ''-'' \<notin> set (buf_digits ds base (x div base))" if "x div base \<noteq> 0"
      using that assms by (intro less.IH div_less_dividend) (auto intro: gr0I)
    ultimately show ?case by (subst buf_digits.simps) auto
  qed
  moreover have "buf_digits ds base x \<noteq> []" by (subst buf_digits.simps) simp
  ultimately show ?thesis by (metis list.exhaust list.set_intros(1) rev_is_Nil_conv set_rev)
qed

lemma int_value_signed:
  assumes "good_digits ds"
  shows "int_value (rev (buf_digits ds 10 x)) = int x" "int_value (CHR ''-'' # rev (buf_digits ds 10 x)) = - int x"
  using buf_digits_hd [OF assms, of 10 x] buf_digits_value [OF assms, of 10 x]
  by (auto simp: int_value_def)

lemma mod_minus_once: "b \<le> a \<Longrightarrow> a < 2 * b \<Longrightarrow> a mod b = a - b" for a b :: int
  by (metis add_diff_cancel_left' diff_ge_0_iff_ge diff_less_eq minus_mod_self2 mod_pos_pos_trivial mult_2)

lemma sint_u64: "sint (w :: u64) = (if uint w < 2 ^ 63 then uint w else uint w - 2 ^ 64)"
proof -
  have u: "0 \<le> uint w" "uint w < 2 ^ 64" using uint_lt2p [of w] by simp_all
  have "sint w = (uint w + 2 ^ 63) mod 2 ^ 64 - 2 ^ 63" using int_word_sint [of "uint w", where 'a = 64] by simp
  then show ?thesis using u by (cases "uint w < 2 ^ 63") (simp_all add: mod_minus_once)
qed

lemma neg_abs_u64: "uint (if sint w < 0 then - w else w :: u64) = \<bar>sint w\<bar>"
proof -
  have u: "0 \<le> uint w" "uint w < 2 ^ 64" using uint_lt2p [of w] by simp_all
  have "uint (- w) = (- uint w) mod 2 ^ 64" by (simp add: uint_word_ariths)
  then show ?thesis using u by (simp add: sint_u64 zmod_zminus1_eq_if)
qed

section \<open>Properties\<close>

text \<open>
  Property C24: the kernel prints numbers right and within its buffer.  For every 64-bit value,
  reading the decimal numeral that \<^verbatim>\<open>printint\<close> prints gives the value back, signed and
  unsigned, the hexadecimal one likewise, and no numeral has more than the 20 characters of
  \<^verbatim>\<open>buf\<close>.
\<close>

theorem kernel_printint_correct:
  "int_value (k_printint w 10 True) = sint w \<and> int_value (k_printint w 10 False) = uint w \<and>
     numeral_value 16 (k_printint w 16 False) = unat w \<and>
     length (k_printint w 10 sign) \<le> 20 \<and> length (k_printint w 16 False) \<le> 20"
proof -
  let ?x = "if sign \<and> sint w < 0 then - w else w"
  have "unat ?x < 10 ^ Suc 19" using unat_addr_less [of ?x] by simp
  from length_buf_digits [OF _ this, of kernel_digits] have l: "length (buf_digits kernel_digits 10 (unat ?x)) \<le> 20" by simp
  have l19: "length (buf_digits kernel_digits 10 (unat ?x)) \<le> 19" if "sign \<and> sint w < 0"
  proof -
    have "uint ?x = \<bar>sint w\<bar>" using neg_abs_u64 [of w] that by simp
    moreover have "\<bar>sint w\<bar> \<le> 2 ^ 63" using uint_lt2p [of w] by (simp add: sint_u64)
    ultimately have "nat (uint ?x) < 10 ^ Suc 18" by (simp add: nat_less_iff)
    then have "unat ?x < 10 ^ Suc 18" by (simp only: unat_eq_nat_uint)
    from length_buf_digits [OF _ this, of kernel_digits] show ?thesis by simp
  qed
  have "unat w < 16 ^ Suc 15" using unat_addr_less [of w] by simp
  from length_buf_digits [OF _ this, of kernel_digits] have h: "length (buf_digits kernel_digits 16 (unat w)) \<le> 16" by simp
  show ?thesis
    using l l19 h neg_abs_u64 [of w] int_value_signed [of kernel_digits] buf_digits_value [of kernel_digits 16 "unat w"]
    by (auto simp: k_printint_def Let_def)
qed

text \<open>
  Property C25: user programs print numbers modulo \<open>2 ^ 32\<close>.  The numeral that \<^verbatim>\<open>printint\<close> of
  \<^verbatim>\<open>user/printf.c\<close> prints has the sign of the 64-bit argument and the magnitude reduced to 32 bits,
  so it is right exactly for magnitudes below \<open>2 ^ 32\<close>: always for \<^verbatim>\<open>%d\<close>, and not for the
  64-bit conversions \<^verbatim>\<open>%ld\<close>, \<^verbatim>\<open>%lu\<close> and \<^verbatim>\<open>%lx\<close>.
\<close>

theorem user_printint_truncates:
  "int_value (u_printint w 10 True) = sgn (sint w) * (\<bar>sint w\<bar> mod 2 ^ 32) \<and>
     (int_value (u_printint w 10 True) = sint w \<longleftrightarrow> \<bar>sint w\<bar> < 2 ^ 32) \<and>
     int_value (u_printint (va_int w) 10 True) = sint (ucast w :: u32) \<and>
     int_value (u_printint w 10 False) = uint w mod 2 ^ 32 \<and>
     int (numeral_value 16 (u_printint w 16 False)) = uint w mod 2 ^ 32"
proof -
  have cut: "int (unat (ucast v :: u32)) = uint v mod 2 ^ 32" for v :: u64
    by (simp add: unsigned_ucast_eq take_bit_eq_mod zmod_int)
  have val: "int_value (u_printint v 10 True) = sgn (sint v) * (\<bar>sint v\<bar> mod 2 ^ 32)" for v
    using int_value_signed [of user_digits] neg_abs_u64 [of v] cut [of v] cut [of "- v"]
    by (auto simp: u_printint_def Let_def sgn_if)
  have "\<bar>sint (ucast w :: u32)\<bar> < 2 ^ 32"
    using sint_greater_eq [of "ucast w :: u32"] sint_lt [of "ucast w :: u32"] by simp
  moreover have "sint (va_int w) = sint (ucast w :: u32)"
    using sint_greater_eq [of "ucast w :: u32"] sint_lt [of "ucast w :: u32"]
    by (simp add: va_int_def signed_scast_eq signed_take_bit_int_eq_self)
  ultimately have "int_value (u_printint (va_int w) 10 True) = sint (ucast w :: u32)"
    using val [of "va_int w"] by (simp add: sgn_mult_abs)
  moreover have "sgn (sint w) * (\<bar>sint w\<bar> mod 2 ^ 32) = sint w \<longleftrightarrow> \<bar>sint w\<bar> < 2 ^ 32"
    by (auto simp: sgn_if abs_if)
  moreover have "int_value (u_printint w 10 False) = uint w mod 2 ^ 32"
    using int_value_signed [of user_digits] cut [of w] by (simp add: u_printint_def Let_def)
  moreover have "int (numeral_value 16 (u_printint w 16 False)) = uint w mod 2 ^ 32"
    using buf_digits_value [of user_digits 16] cut [of w] by (simp add: u_printint_def Let_def)
  ultimately show ?thesis using val [of w] by presburger
qed

end
