(* ===== verification/Console.thy ===== *)
theory Console
  imports FS Printf
begin

text \<open>
  \<^verbatim>\<open>kernel/uart.c\<close> and \<^verbatim>\<open>kernel/console.c\<close>: the serial line and the console on top of it.
  The UART is the bytes it has sent, the bytes that have arrived and wait in its input FIFO, whether it
  can take another byte, and the writes to its control registers.  \<open>klog\<close> collects what the
  kernel prints with \<^verbatim>\<open>printf\<close>; echoes and what processes write go to \<open>uart_out\<close>.
\<close>

section \<open>State\<close>

definition INPUT_BUF_SIZE :: u32 where "INPUT_BUF_SIZE = 128"
definition NDEV :: nat where "NDEV = 10"
definition CONSOLE :: nat where "CONSOLE = 1"

datatype devfn = Consoleread | Consolewrite

record devsw =
  dv_read :: "devfn option"
  dv_write :: "devfn option"

record cons_st = fs_st +
  uart_out :: "byte list"
  uart_in :: "byte list"
  uart_idle :: bool
  uart_ctl :: "(nat \<times> byte) list"
  tx_busy :: bool
  cons_buf :: "byte list"
  cons_r :: u32
  cons_w :: u32
  cons_e :: u32
  devsw :: "devsw list"

section \<open>The UART\<close>

definition write_reg :: "nat \<Rightarrow> byte \<Rightarrow> ('z cons_st_scheme, unit) kernel" where
  "write_reg reg v = upd (\<lambda>s. s\<lparr>uart_ctl := uart_ctl s @ [(reg, v)]\<rparr>)"

definition uartinit :: "('z cons_st_scheme, unit) kernel" where
  "uartinit =
     sq (write_reg 1 0) (
     sq (write_reg 3 (push_bit 7 1)) (
     sq (write_reg 0 3) (
     sq (write_reg 1 0) (
     sq (write_reg 3 3) (
     sq (write_reg 2 (1 OR push_bit 1 3))
        (write_reg 1 (2 OR 1)))))))"

definition send :: "byte \<Rightarrow> ('z cons_st_scheme, unit) kernel" where
  "send c = upd (\<lambda>s. s\<lparr>uart_out := uart_out s @ [c]\<rparr>)"

primrec uartwrite_loop :: "byte list \<Rightarrow> ('z cons_st_scheme, unit) kernel" where
  "uartwrite_loop [] = lock_release L_tx"
| "uartwrite_loop (c # cs) =
     bnd (get tx_busy) (\<lambda>busy.
     if busy then sleep Chan_tx L_tx
     else sq (send c) (
          sq (upd (\<lambda>s. s\<lparr>tx_busy := True\<rparr>))
             (uartwrite_loop cs)))"

definition uartwrite :: "byte list \<Rightarrow> ('z cons_st_scheme, unit) kernel" where
  "uartwrite buf = sq (lock_acquire L_tx) (uartwrite_loop buf)"

text \<open>The writer runs again with the bytes it has not sent.\<close>

definition uartwrite_resume :: "byte list \<Rightarrow> ('z cons_st_scheme, unit) kernel" where
  "uartwrite_resume buf = sq (sleep_resume L_tx) (uartwrite_loop buf)"

text \<open>
  \<^verbatim>\<open>uartputc_sync\<close> polls until the UART can take the byte.  Its endless loop after a panic on
  another processor is not modelled: a panic ends the computation.
\<close>

definition uartputc_sync :: "byte \<Rightarrow> ('z cons_st_scheme, unit) kernel" where
  "uartputc_sync c = send c"

definition uartgetc :: "('z cons_st_scheme, byte option) kernel" where
  "uartgetc =
     bnd (get uart_in) (\<lambda>cs.
     case cs of
       [] \<Rightarrow> ret None
     | c # cs \<Rightarrow> sq (upd (\<lambda>s. s\<lparr>uart_in := cs\<rparr>)) (ret (Some c)))"

section \<open>The console\<close>

definition BACKSPACE :: int where "BACKSPACE = 256"
definition CTRL_D :: byte where "CTRL_D = 4"
definition CTRL_H :: byte where "CTRL_H = 8"
definition CTRL_P :: byte where "CTRL_P = 16"
definition CTRL_U :: byte where "CTRL_U = 21"
definition DEL :: byte where "DEL = 127"
definition NL :: byte where "NL = 10"
definition CR :: byte where "CR = 13"

definition consputc :: "int \<Rightarrow> ('z cons_st_scheme, unit) kernel" where
  "consputc c =
     (if c = BACKSPACE
      then sq (uartputc_sync 8) (sq (uartputc_sync 32) (uartputc_sync 8))
      else uartputc_sync (word_of_int c))"

text \<open>\<^verbatim>\<open>consolewrite\<close> sends 32 bytes at a time.  Each round takes at least one byte.\<close>

primrec consolewrite_loop ::
  "nat \<Rightarrow> bool \<Rightarrow> addr \<Rightarrow> nat \<Rightarrow> nat \<Rightarrow> ('z cons_st_scheme, nat) kernel" where
  "consolewrite_loop 0 user_src src n i = panic ''consolewrite: fuel''"
| "consolewrite_loop (Suc fuel) user_src src n i =
     (if \<not> i < n then ret i
      else let nn = min 32 (n - i) in
           bnd (either_copyin user_src (src + of_nat i) nn) (\<lambda>(r, buf).
           if r = - 1 then ret i
           else sq (uartwrite buf)
                   (consolewrite_loop fuel user_src src n (i + nn))))"

definition consolewrite :: "bool \<Rightarrow> addr \<Rightarrow> int \<Rightarrow> ('z cons_st_scheme, int) kernel" where
  "consolewrite user_src src n =
     bnd (consolewrite_loop (Suc (nat n)) user_src src (nat n) 0) (\<lambda>i. ret (int i))"

text \<open>
  \<^verbatim>\<open>consolewrite\<close> runs again with the bytes \<open>buf\<close> that \<^verbatim>\<open>uartwrite\<close> has not sent yet; \<open>i\<close> counts the
  bytes of the request up to the end of \<open>buf\<close>.
\<close>

definition consolewrite_resume ::
  "bool \<Rightarrow> addr \<Rightarrow> int \<Rightarrow> nat \<Rightarrow> byte list \<Rightarrow> ('z cons_st_scheme, int) kernel" where
  "consolewrite_resume user_src src n i buf =
     sq (uartwrite_resume buf) (
     bnd (consolewrite_loop (Suc (nat n)) user_src src (nat n) i) (\<lambda>i. ret (int i)))"

definition cons_at :: "u32 \<Rightarrow> ('z cons_st_scheme) \<Rightarrow> byte" where
  "cons_at i s = cons_buf s ! unat (i mod INPUT_BUF_SIZE)"

text \<open>The loop of \<^verbatim>\<open>consoleread\<close>, with \<open>n\<close> bytes still to read.\<close>

primrec consoleread_loop :: "nat \<Rightarrow> bool \<Rightarrow> addr \<Rightarrow> nat \<Rightarrow> ('z cons_st_scheme, int) kernel" where
  "consoleread_loop 0 user_dst dst target = sq (lock_release L_cons) (ret (int target))"
| "consoleread_loop (Suc n) user_dst dst target =
     bnd (get (\<lambda>s. cons_r s = cons_w s)) (\<lambda>none.
     if none
     then bnd myproc (\<lambda>p.
          bnd (killed p) (\<lambda>k.
          if k then sq (lock_release L_cons) (ret (- 1))
          else sq (sleep Chan_cons L_cons) (ret (- 1))))
     else bnd (get (\<lambda>s. cons_at (cons_r s) s)) (\<lambda>c.
          sq (upd (\<lambda>s. s\<lparr>cons_r := cons_r s + 1\<rparr>)) (
          if c = CTRL_D
          then sq (whenk (Suc n < target) (upd (\<lambda>s. s\<lparr>cons_r := cons_r s - 1\<rparr>))) (
               sq (lock_release L_cons)
                  (ret (int target - int (Suc n))))
          else bnd (either_copyout user_dst dst [c]) (\<lambda>r.
               if r = - 1
               then sq (lock_release L_cons) (ret (int target - int (Suc n)))
               else if c = NL
               then sq (lock_release L_cons) (ret (int target - int n))
               else consoleread_loop n user_dst (dst + 1) target))))"

definition consoleread :: "bool \<Rightarrow> addr \<Rightarrow> int \<Rightarrow> ('z cons_st_scheme, int) kernel" where
  "consoleread user_dst dst n =
     sq (lock_acquire L_cons)
        (if n > 0 then consoleread_loop (nat n) user_dst dst (nat n)
         else sq (lock_release L_cons) (ret 0))"

definition consoleread_resume :: "nat \<Rightarrow> bool \<Rightarrow> addr \<Rightarrow> nat \<Rightarrow> ('z cons_st_scheme, int) kernel" where
  "consoleread_resume n user_dst dst target =
     sq (sleep_resume L_cons) (consoleread_loop n user_dst dst target)"

definition state_name :: "procstate \<Rightarrow> string" where
  "state_name st = (case st of UNUSED \<Rightarrow> ''unused'' | USED \<Rightarrow> ''used'' | SLEEPING \<Rightarrow> ''sleep ''
     | RUNNABLE \<Rightarrow> ''runble'' | RUNNING \<Rightarrow> ''run   '' | ZOMBIE \<Rightarrow> ''zombie'')"

definition name_string :: "byte list \<Rightarrow> string" where
  "name_string bs = map (\<lambda>b. char_of (unat b)) (takeWhile (\<lambda>b. b \<noteq> 0) bs)"

definition kprintf :: "string \<Rightarrow> va list \<Rightarrow> ('z base_st_scheme, unit) kernel" where
  "kprintf fmt ap = (case k_printf fmt ap of None \<Rightarrow> panic ''printf'' | Some out \<Rightarrow> printk out)"

definition procdump :: "('z proc_st_scheme, unit) kernel" where
  "procdump =
     sq (kprintf [CHR 0x0A] [])
        (foreach [0..<NPROC] (\<lambda>i.
           bnd (pget i id) (\<lambda>p.
           if p_state p = UNUSED then ret ()
           else sq (kprintf ''%d %s %s'' [Reg (word_of_int (p_pid p)), Ptr (Some (state_name (p_state p))),
                       Ptr (Some (name_string (p_name p)))])
                   (kprintf [CHR 0x0A] []))))"

text \<open>Killing a line: at most the bytes from \<open>cons_w\<close> to \<open>cons_e\<close> go.\<close>

primrec kill_line :: "nat \<Rightarrow> ('z cons_st_scheme, unit) kernel" where
  "kill_line 0 = ret ()"
| "kill_line (Suc n) =
     bnd (get (\<lambda>s. cons_e s \<noteq> cons_w s \<and> cons_at (cons_e s - 1) s \<noteq> NL)) (\<lambda>b.
     whenk b (
       sq (upd (\<lambda>s. s\<lparr>cons_e := cons_e s - 1\<rparr>)) (
       sq (consputc BACKSPACE)
          (kill_line n))))"

definition consoleintr :: "byte \<Rightarrow> ('z cons_st_scheme, unit) kernel" where
  "consoleintr c =
     sq (lock_acquire L_cons) (
     sq (if c = CTRL_P then procdump
         else if c = CTRL_U then bnd (get (\<lambda>s. unat (cons_e s - cons_w s))) kill_line
         else if c = CTRL_H \<or> c = DEL
         then bnd (get (\<lambda>s. cons_e s \<noteq> cons_w s)) (\<lambda>b.
              whenk b (
                sq (upd (\<lambda>s. s\<lparr>cons_e := cons_e s - 1\<rparr>))
                   (consputc BACKSPACE)))
         else bnd (get (\<lambda>s. c \<noteq> 0 \<and> cons_e s - cons_r s < INPUT_BUF_SIZE)) (\<lambda>room.
              whenk room (
                let c = (if c = CR then NL else c) in
                sq (consputc (uint c)) (
                sq (upd (\<lambda>s. s\<lparr>cons_buf := (cons_buf s)[unat (cons_e s mod INPUT_BUF_SIZE) := c]\<rparr>)) (
                sq (upd (\<lambda>s. s\<lparr>cons_e := cons_e s + 1\<rparr>)) (
                bnd (get (\<lambda>s. c = NL \<or> c = CTRL_D \<or> cons_e s - cons_r s = INPUT_BUF_SIZE)) (\<lambda>line.
                whenk line (
                  sq (upd (\<lambda>s. s\<lparr>cons_w := cons_e s\<rparr>))
                     (wakeup Chan_cons)))))))))
        (lock_release L_cons))"

text \<open>The loop of \<^verbatim>\<open>uartintr\<close> handles the bytes that wait, \<open>n\<close> of them.\<close>

primrec uartintr_input :: "nat \<Rightarrow> ('z cons_st_scheme, unit) kernel" where
  "uartintr_input 0 = ret ()"
| "uartintr_input (Suc n) =
     bnd uartgetc (\<lambda>c.
     case c of
       None \<Rightarrow> ret ()
     | Some c \<Rightarrow> sq (consoleintr c) (uartintr_input n))"

definition uartintr :: "('z cons_st_scheme, unit) kernel" where
  "uartintr =
     sq (lock_acquire L_tx) (
     bnd (get uart_idle) (\<lambda>idle.
     sq (whenk idle (
          sq (upd (\<lambda>s. s\<lparr>tx_busy := False\<rparr>))
             (wakeup Chan_tx))) (
     sq (lock_release L_tx) (
     bnd (get (\<lambda>s. length (uart_in s))) (\<lambda>n.
     uartintr_input (Suc n))))))"

definition consoleinit :: "('z cons_st_scheme, unit) kernel" where
  "consoleinit =
     sq uartinit (
     sq (upd (\<lambda>s. s\<lparr>devsw := (devsw s)[CONSOLE := (devsw s ! CONSOLE)\<lparr>dv_read := Some Consoleread\<rparr>]\<rparr>))
        (upd (\<lambda>s. s\<lparr>devsw := (devsw s)[CONSOLE := (devsw s ! CONSOLE)\<lparr>dv_write := Some Consolewrite\<rparr>]\<rparr>)))"

end
