(* ===== verification/File.thy ===== *)
theory File
  imports Console
begin

text \<open>
  \<^verbatim>\<open>kernel/file.c\<close> and \<^verbatim>\<open>kernel/pipe.c\<close>: open files and pipes.  A file is an index into
  \<open>ftable\<close>.  A pipe is the address of the page it was allocated in; the structure in that
  page is \<open>pipes\<close> at the address.
\<close>

section \<open>Structures\<close>

definition NFILE :: nat where "NFILE = 100"
definition PIPESIZE :: nat where "PIPESIZE = 512"

datatype fdtype = FD_NONE | FD_PIPE | FD_INODE | FD_DEVICE

record file_struct =
  f_type :: fdtype
  f_ref :: int
  f_readable :: bool
  f_writable :: bool
  f_pipe :: addr
  f_ip :: nat
  f_off :: u32
  f_major :: u16

record pipe =
  pi_data :: "byte list"
  pi_nread :: u32
  pi_nwrite :: u32
  pi_readopen :: bool
  pi_writeopen :: bool

record file_st = cons_st +
  ftable :: "file_struct list"
  pipes :: "addr \<Rightarrow> pipe"

definition fset :: "nat \<Rightarrow> (file_struct \<Rightarrow> file_struct) \<Rightarrow> ('z file_st_scheme, unit) kernel" where
  "fset f g = upd (\<lambda>s. s\<lparr>ftable := (ftable s)[f := g (ftable s ! f)]\<rparr>)"

definition ffield :: "nat \<Rightarrow> (file_struct \<Rightarrow> 'a) \<Rightarrow> ('z file_st_scheme, 'a) kernel" where
  "ffield f g = get (\<lambda>s. g (ftable s ! f))"

definition piset :: "addr \<Rightarrow> (pipe \<Rightarrow> pipe) \<Rightarrow> ('z file_st_scheme, unit) kernel" where
  "piset p g = upd (\<lambda>s. s\<lparr>pipes := (pipes s)(p := g (pipes s p))\<rparr>)"

definition pifield :: "addr \<Rightarrow> (pipe \<Rightarrow> 'a) \<Rightarrow> ('z file_st_scheme, 'a) kernel" where
  "pifield p g = get (\<lambda>s. g (pipes s p))"

section \<open>Pipes\<close>

definition pipeclose :: "addr \<Rightarrow> bool \<Rightarrow> ('z file_st_scheme, unit) kernel" where
  "pipeclose p writable =
     sq (lock_acquire (L_pipe p)) (
     sq (if writable
         then sq (piset p (\<lambda>k. k\<lparr>pi_writeopen := False\<rparr>)) (wakeup (Chan_nread p))
         else sq (piset p (\<lambda>k. k\<lparr>pi_readopen := False\<rparr>)) (wakeup (Chan_nwrite p))) (
     bnd (pifield p (\<lambda>k. \<not> pi_readopen k \<and> \<not> pi_writeopen k)) (\<lambda>closed.
     if closed then sq (lock_release (L_pipe p)) (kfree p)
     else lock_release (L_pipe p))))"

text \<open>\<open>pi->data[pi->nwrite++ % PIPESIZE] = ch\<close> and \<open>ch = pi->data[pi->nread++ % PIPESIZE]\<close>.\<close>

definition pipe_put :: "byte \<Rightarrow> pipe \<Rightarrow> pipe" where
  "pipe_put ch k = k\<lparr>pi_nwrite := pi_nwrite k + 1,
     pi_data := (pi_data k)[unat (pi_nwrite k) mod PIPESIZE := ch]\<rparr>"

definition pipe_get :: "pipe \<Rightarrow> byte \<times> pipe" where
  "pipe_get k = (pi_data k ! (unat (pi_nread k) mod PIPESIZE), k\<lparr>pi_nread := pi_nread k + 1\<rparr>)"

text \<open>The loop of \<^verbatim>\<open>pipewrite\<close>: \<open>i\<close> bytes are written, \<open>k\<close> are left.\<close>

primrec pipewrite_loop :: "nat \<Rightarrow> addr \<Rightarrow> addr \<Rightarrow> nat \<Rightarrow> ('z file_st_scheme, int) kernel" where
  "pipewrite_loop 0 p a i =
     sq (wakeup (Chan_nread p)) (
     sq (lock_release (L_pipe p))
        (ret (int i)))"
| "pipewrite_loop (Suc k) p a i =
     bnd myproc (\<lambda>pr.
     bnd (pifield p pi_readopen) (\<lambda>readopen.
     bnd (if readopen then killed pr else ret True) (\<lambda>stop.
     if stop then sq (lock_release (L_pipe p)) (ret (- 1))
     else bnd (pifield p (\<lambda>k. pi_nwrite k = pi_nread k + of_nat PIPESIZE)) (\<lambda>full.
     if full
     then sq (wakeup (Chan_nread p)) (
          sq (sleep (Chan_nwrite p) (L_pipe p))
             (ret (- 1)))
     else bnd (pget pr p_pagetable) (\<lambda>pagetable.
          bnd (copyin pagetable (a + of_nat i) 1) (\<lambda>(r, bs).
          if r = - 1
          then sq (wakeup (Chan_nread p)) (
               sq (lock_release (L_pipe p))
                  (ret (int i)))
          else sq (piset p (pipe_put (hd bs)))
                  (pipewrite_loop k p a (Suc i))))))))"

definition pipewrite :: "addr \<Rightarrow> addr \<Rightarrow> int \<Rightarrow> ('z file_st_scheme, int) kernel" where
  "pipewrite p a n = sq (lock_acquire (L_pipe p)) (pipewrite_loop (nat n) p a 0)"

definition pipewrite_resume :: "nat \<Rightarrow> addr \<Rightarrow> addr \<Rightarrow> nat \<Rightarrow> ('z file_st_scheme, int) kernel" where
  "pipewrite_resume k p a i = sq (sleep_resume (L_pipe p)) (pipewrite_loop k p a i)"

primrec piperead_copy :: "nat \<Rightarrow> addr \<Rightarrow> addr \<Rightarrow> nat \<Rightarrow> ('z file_st_scheme, int) kernel" where
  "piperead_copy 0 p a i =
     sq (wakeup (Chan_nwrite p)) (
     sq (lock_release (L_pipe p))
        (ret (int i)))"
| "piperead_copy (Suc k) p a i =
     bnd (pifield p (\<lambda>k. pi_nread k = pi_nwrite k)) (\<lambda>none.
     if none
     then sq (wakeup (Chan_nwrite p)) (
          sq (lock_release (L_pipe p))
             (ret (int i)))
     else bnd (pifield p (\<lambda>k. fst (pipe_get k))) (\<lambda>ch.
          sq (piset p (\<lambda>k. snd (pipe_get k))) (
          bnd myproc (\<lambda>pr.
          bnd (pget pr p_pagetable) (\<lambda>pagetable.
          bnd (copyout pagetable (a + of_nat i) [ch]) (\<lambda>r.
          if r = - 1
          then sq (wakeup (Chan_nwrite p)) (
               sq (lock_release (L_pipe p))
                  (ret (int i)))
          else piperead_copy k p a (Suc i)))))))"

definition piperead_wait :: "addr \<Rightarrow> addr \<Rightarrow> int \<Rightarrow> ('z file_st_scheme, int) kernel" where
  "piperead_wait p a n =
     bnd (pifield p (\<lambda>k. pi_nread k = pi_nwrite k \<and> pi_writeopen k)) (\<lambda>wait.
     if wait
     then bnd myproc (\<lambda>pr.
          bnd (killed pr) (\<lambda>dead.
          if dead then sq (lock_release (L_pipe p)) (ret (- 1))
          else sq (sleep (Chan_nread p) (L_pipe p)) (ret (- 1))))
     else piperead_copy (nat n) p a 0)"

definition piperead :: "addr \<Rightarrow> addr \<Rightarrow> int \<Rightarrow> ('z file_st_scheme, int) kernel" where
  "piperead p a n = sq (lock_acquire (L_pipe p)) (piperead_wait p a n)"

definition piperead_resume :: "addr \<Rightarrow> addr \<Rightarrow> int \<Rightarrow> ('z file_st_scheme, int) kernel" where
  "piperead_resume p a n = sq (sleep_resume (L_pipe p)) (piperead_wait p a n)"

section \<open>Files\<close>

definition filealloc :: "('z file_st_scheme, nat option) kernel" where
  "filealloc =
     sq (lock_acquire L_ftable) (
     bnd (get (\<lambda>s. find (\<lambda>f. f_ref (ftable s ! f) = 0) [0..<NFILE])) (\<lambda>r.
     case r of
       Some f \<Rightarrow>
         sq (fset f (\<lambda>k. k\<lparr>f_ref := 1\<rparr>)) (
         sq (lock_release L_ftable)
            (ret (Some f)))
     | None \<Rightarrow>
         sq (lock_release L_ftable)
            (ret None)))"

definition filedup :: "nat \<Rightarrow> ('z file_st_scheme, nat) kernel" where
  "filedup f =
     sq (lock_acquire L_ftable) (
     bnd (ffield f f_ref) (\<lambda>ref.
     sq (unless_panic (\<not> ref < 1) ''filedup'') (
     sq (fset f (\<lambda>k. k\<lparr>f_ref := f_ref k + 1\<rparr>)) (
     sq (lock_release L_ftable)
        (ret f)))))"

definition fileclose :: "nat \<Rightarrow> ('z file_st_scheme, unit) kernel" where
  "fileclose f =
     sq (lock_acquire L_ftable) (
     bnd (ffield f f_ref) (\<lambda>ref.
     sq (unless_panic (\<not> ref < 1) ''fileclose'') (
     sq (fset f (\<lambda>k. k\<lparr>f_ref := f_ref k - 1\<rparr>)) (
     bnd (ffield f f_ref) (\<lambda>ref.
     if ref > 0 then lock_release L_ftable
     else bnd (ffield f id) (\<lambda>ff.
          sq (fset f (\<lambda>k. k\<lparr>f_ref := 0\<rparr>)) (
          sq (fset f (\<lambda>k. k\<lparr>f_type := FD_NONE\<rparr>)) (
          sq (lock_release L_ftable) (
          if f_type ff = FD_PIPE then pipeclose (f_pipe ff) (f_writable ff)
          else whenk (f_type ff = FD_INODE \<or> f_type ff = FD_DEVICE) (
                 sq begin_op (
                 sq (iput (f_ip ff))
                    end_op)))))))))))"

definition pipealloc :: "('z file_st_scheme, (nat \<times> nat) option) kernel" where
  "pipealloc =
     bnd filealloc (\<lambda>f0.
     bnd (case f0 of None \<Rightarrow> ret None | Some _ \<Rightarrow> filealloc) (\<lambda>f1.
     bnd (case (f0, f1) of (Some _, Some _) \<Rightarrow> kalloc | _ \<Rightarrow> ret 0) (\<lambda>p.
     case (f0, f1) of
       (Some f, Some g) \<Rightarrow>
         if p = 0
         then sq (fileclose f) (sq (fileclose g) (ret None))
         else sq (piset p (\<lambda>k. k\<lparr>pi_readopen := True\<rparr>)) (
              sq (piset p (\<lambda>k. k\<lparr>pi_writeopen := True\<rparr>)) (
              sq (piset p (\<lambda>k. k\<lparr>pi_nwrite := 0\<rparr>)) (
              sq (piset p (\<lambda>k. k\<lparr>pi_nread := 0\<rparr>)) (
              sq (fset f (\<lambda>k. k\<lparr>f_type := FD_PIPE, f_readable := True, f_writable := False, f_pipe := p\<rparr>)) (
              sq (fset g (\<lambda>k. k\<lparr>f_type := FD_PIPE, f_readable := False, f_writable := True, f_pipe := p\<rparr>))
                 (ret (Some (f, g))))))))
     | (Some f, None) \<Rightarrow> sq (fileclose f) (ret None)
     | _ \<Rightarrow> ret None)))"

text \<open>
  The bytes of \<^verbatim>\<open>struct stat\<close>.  Four bytes before \<^verbatim>\<open>size\<close> align it; nothing is stored there, so
  they are what the stack holds.
\<close>

definition stat_bytes :: "byte list \<Rightarrow> stat \<Rightarrow> byte list" where
  "stat_bytes pad st =
     le_bytes 4 (of_nat (st_dev st) :: u32) @ le_bytes 4 (of_nat (st_ino st) :: u32) @
     le_bytes 2 (st_type st) @ le_bytes 2 (st_nlink st) @ pad @ le_bytes 8 (st_size st)"

definition filestat :: "nat \<Rightarrow> addr \<Rightarrow> ('z file_st_scheme, int) kernel" where
  "filestat f a =
     bnd myproc (\<lambda>p.
     bnd (ffield f id) (\<lambda>k.
     if f_type k = FD_INODE \<or> f_type k = FD_DEVICE
     then sq (ilock (f_ip k)) (
          bnd (stati (f_ip k)) (\<lambda>st.
          sq (iunlock (f_ip k)) (
          bnd (get (\<lambda>s. mem_read (mem s) (frame s + 12) 4)) (\<lambda>pad.
          bnd (pget p p_pagetable) (\<lambda>pagetable.
          bnd (copyout pagetable a (stat_bytes pad st)) (\<lambda>r.
          if r < 0 then ret (- 1) else ret 0))))))
     else ret (- 1)))"

definition dev_call :: "devfn \<Rightarrow> addr \<Rightarrow> int \<Rightarrow> ('z cons_st_scheme, int) kernel" where
  "dev_call d a n = (case d of Consoleread \<Rightarrow> consoleread True a n | Consolewrite \<Rightarrow> consolewrite True a n)"

text \<open>The device function of a major number, if there is one.\<close>

definition dev_entry :: "(devsw \<Rightarrow> devfn option) \<Rightarrow> u16 \<Rightarrow> ('z cons_st_scheme, devfn option) kernel" where
  "dev_entry fn major =
     get (\<lambda>s. if sint major < 0 \<or> sint major \<ge> int NDEV then None
              else fn (devsw s ! unat major))"

definition fileread :: "nat \<Rightarrow> addr \<Rightarrow> int \<Rightarrow> ('z file_st_scheme, int) kernel" where
  "fileread f a n =
     bnd (ffield f id) (\<lambda>k.
     if \<not> f_readable k then ret (- 1)
     else case f_type k of
       FD_PIPE \<Rightarrow> piperead (f_pipe k) a n
     | FD_DEVICE \<Rightarrow>
         bnd (dev_entry dv_read (f_major k)) (\<lambda>d.
         case d of None \<Rightarrow> ret (- 1) | Some d \<Rightarrow> dev_call d a n)
     | FD_INODE \<Rightarrow>
         sq (ilock (f_ip k)) (
         bnd (readi (f_ip k) True a (f_off k) (word_of_int n)) (\<lambda>r.
         sq (whenk (r > 0) (fset f (\<lambda>k. k\<lparr>f_off := f_off k + word_of_int r\<rparr>))) (
         sq (iunlock (f_ip k))
            (ret r))))
     | FD_NONE \<Rightarrow> panic ''fileread'')"

definition filewrite_max :: int where
  "filewrite_max = ((int MAXOPBLOCKS - 1 - 1 - 2) div 2) * int BSIZE"

text \<open>A round that does not end the loop writes at least one byte.\<close>

primrec filewrite_loop :: "nat \<Rightarrow> nat \<Rightarrow> addr \<Rightarrow> int \<Rightarrow> int \<Rightarrow> ('z file_st_scheme, int) kernel" where
  "filewrite_loop 0 f a n i = panic ''filewrite: fuel''"
| "filewrite_loop (Suc fuel) f a n i =
     (if \<not> i < n then ret (if i = n then n else - 1)
      else let n1 = (if n - i > filewrite_max then filewrite_max else n - i) in
           sq begin_op (
           bnd (ffield f f_ip) (\<lambda>ip.
           sq (ilock ip) (
           bnd (ffield f f_off) (\<lambda>off.
           bnd (writei ip True (a + word_of_int i) off (word_of_int n1)) (\<lambda>r.
           sq (whenk (r > 0) (fset f (\<lambda>k. k\<lparr>f_off := f_off k + word_of_int r\<rparr>))) (
           sq (iunlock ip) (
           sq end_op
              (if r \<noteq> n1 then ret (if i = n then n else - 1)
               else filewrite_loop fuel f a n (i + r))))))))))"

definition filewrite :: "nat \<Rightarrow> addr \<Rightarrow> int \<Rightarrow> ('z file_st_scheme, int) kernel" where
  "filewrite f a n =
     bnd (ffield f id) (\<lambda>k.
     if \<not> f_writable k then ret (- 1)
     else case f_type k of
       FD_PIPE \<Rightarrow> pipewrite (f_pipe k) a n
     | FD_DEVICE \<Rightarrow>
         bnd (dev_entry dv_write (f_major k)) (\<lambda>d.
         case d of None \<Rightarrow> ret (- 1) | Some d \<Rightarrow> dev_call d a n)
     | FD_INODE \<Rightarrow> filewrite_loop (Suc (nat n)) f a n 0
     | FD_NONE \<Rightarrow> panic ''filewrite'')"

end
