(* ===== verification/Proc.thy ===== *)
theory Proc
  imports File
begin

text \<open>
  The life of a process, the rest of \<^verbatim>\<open>kernel/proc.c\<close>: allocation, \<^verbatim>\<open>fork\<close>, \<^verbatim>\<open>exit\<close> and
  \<^verbatim>\<open>wait\<close>.  Addresses of kernel code that the functions store are fields of the state
  that nothing here depends on.
\<close>

record kproc_st = file_st +
  forkret_addr :: addr
  first_ret :: bool

section \<open>Page tables of processes\<close>

definition proc_freepagetable :: "addr \<Rightarrow> u64 \<Rightarrow> ('z kmem_st_scheme, unit) kernel" where
  "proc_freepagetable pagetable sz =
     sq (uvmunmap pagetable TRAMPOLINE 1 False) (
     sq (uvmunmap pagetable TRAPFRAME 1 False)
        (uvmfree pagetable sz))"

definition proc_pagetable :: "nat \<Rightarrow> ('z vm_st_scheme, addr) kernel" where
  "proc_pagetable p =
     bnd uvmcreate (\<lambda>pagetable.
     if pagetable = 0 then ret 0
     else bnd (get trampoline) (\<lambda>code.
          bnd (mappages pagetable TRAMPOLINE PGSIZE code (PTE_R OR PTE_X)) (\<lambda>r.
          if r < 0 then sq (uvmfree pagetable 0) (ret 0)
          else bnd (pget p p_trapframe) (\<lambda>tf.
               bnd (mappages pagetable TRAPFRAME PGSIZE tf (PTE_R OR PTE_W)) (\<lambda>r.
               if r < 0
               then sq (uvmunmap pagetable TRAMPOLINE 1 False) (
                    sq (uvmfree pagetable 0)
                       (ret 0))
               else ret pagetable)))))"

section \<open>Allocation\<close>

definition freeproc :: "nat \<Rightarrow> ('z vm_st_scheme, unit) kernel" where
  "freeproc p =
     bnd (pget p p_trapframe) (\<lambda>tf.
     sq (whenk (tf \<noteq> 0) (kfree tf)) (
     sq (pset p (\<lambda>k. k\<lparr>p_trapframe := 0\<rparr>)) (
     bnd (pget p p_pagetable) (\<lambda>pagetable.
     bnd (pget p p_sz) (\<lambda>sz.
     sq (whenk (pagetable \<noteq> 0) (proc_freepagetable pagetable sz)) (
     sq (pset p (\<lambda>k. k\<lparr>p_pagetable := 0\<rparr>)) (
     sq (pset p (\<lambda>k. k\<lparr>p_sz := 0\<rparr>)) (
     sq (pset p (\<lambda>k. k\<lparr>p_pid := 0\<rparr>)) (
     sq (pset p (\<lambda>k. k\<lparr>p_parent := None\<rparr>)) (
     sq (pset p (\<lambda>k. k\<lparr>p_name := (p_name k)[0 := 0]\<rparr>)) (
     sq (pset p (\<lambda>k. k\<lparr>p_chan := Chan_none\<rparr>)) (
     sq (pset p (\<lambda>k. k\<lparr>p_killed := False\<rparr>)) (
     sq (pset p (\<lambda>k. k\<lparr>p_xstate := 0\<rparr>))
        (pset p (\<lambda>k. k\<lparr>p_state := UNUSED\<rparr>)))))))))))))))"

text \<open>The code of \<^verbatim>\<open>allocproc\<close> from the label \<^verbatim>\<open>found\<close> on.\<close>

definition allocproc_found :: "nat \<Rightarrow> ('z kproc_st_scheme, nat option) kernel" where
  "allocproc_found p =
     bnd allocpid (\<lambda>pid.
     sq (pset p (\<lambda>k. k\<lparr>p_pid := pid\<rparr>)) (
     sq (pset p (\<lambda>k. k\<lparr>p_state := USED\<rparr>)) (
     bnd kalloc (\<lambda>tf.
     sq (pset p (\<lambda>k. k\<lparr>p_trapframe := tf\<rparr>)) (
     if tf = 0
     then sq (freeproc p) (
          sq (lock_release (L_proc p))
             (ret None))
     else bnd (proc_pagetable p) (\<lambda>pagetable.
          sq (pset p (\<lambda>k. k\<lparr>p_pagetable := pagetable\<rparr>)) (
          if pagetable = 0
          then sq (freeproc p) (
               sq (lock_release (L_proc p))
                  (ret None))
          else bnd (get forkret_addr) (\<lambda>ra.
               sq (pset p (\<lambda>k. k\<lparr>p_context := \<lparr>ctx_ra = ra, ctx_sp = p_kstack k + PGSIZE,
                     ctx_s = replicate 12 0\<rparr>\<rparr>))
                  (ret (Some p))))))))))"

primrec allocproc_from :: "nat list \<Rightarrow> ('z kproc_st_scheme, nat option) kernel" where
  "allocproc_from [] = ret None"
| "allocproc_from (p # ps) =
     sq (lock_acquire (L_proc p)) (
     bnd (pget p p_state) (\<lambda>st.
     if st = UNUSED then allocproc_found p
     else sq (lock_release (L_proc p)) (allocproc_from ps)))"

definition allocproc :: "('z kproc_st_scheme, nat option) kernel" where
  "allocproc = allocproc_from [0..<NPROC]"

definition userinit :: "('z kproc_st_scheme, unit) kernel" where
  "userinit =
     bnd allocproc (\<lambda>r.
     sq (upd (\<lambda>s. s\<lparr>initproc := r\<rparr>)) (
     case r of
       None \<Rightarrow> panic ''null initproc''
     | Some p \<Rightarrow>
         bnd (namei [slash]) (\<lambda>cwd.
         sq (pset p (\<lambda>k. k\<lparr>p_cwd := cwd\<rparr>)) (
         sq (pset p (\<lambda>k. k\<lparr>p_state := RUNNABLE\<rparr>))
            (lock_release (L_proc p))))))"

definition growproc :: "int \<Rightarrow> ('z vm_st_scheme, int) kernel" where
  "growproc n =
     bnd myproc (\<lambda>p.
     bnd (pget p p_sz) (\<lambda>sz.
     bnd (pget p p_pagetable) (\<lambda>pagetable.
     if n > 0
     then bnd (uvmalloc pagetable sz (sz + word_of_int n) PTE_W) (\<lambda>sz.
          if sz = 0 then ret (- 1)
          else sq (pset p (\<lambda>k. k\<lparr>p_sz := sz\<rparr>)) (ret 0))
     else bnd (if n < 0 then uvmdealloc pagetable sz (sz + word_of_int n) else ret sz) (\<lambda>sz.
          sq (pset p (\<lambda>k. k\<lparr>p_sz := sz\<rparr>)) (ret 0)))))"

section \<open>Fork, exit and wait\<close>

definition set_a0 :: "u64 \<Rightarrow> trapframe \<Rightarrow> trapframe" where
  "set_a0 v tf = tf\<lparr>tf_a := (tf_a tf)[0 := v]\<rparr>"

definition fork_file :: "nat \<Rightarrow> nat \<Rightarrow> nat \<Rightarrow> ('z file_st_scheme, unit) kernel" where
  "fork_file p np i =
     bnd (pget p (\<lambda>k. p_ofile k ! i)) (\<lambda>f.
     case f of
       None \<Rightarrow> ret ()
     | Some f \<Rightarrow>
         bnd (filedup f) (\<lambda>g.
         pset np (\<lambda>k. k\<lparr>p_ofile := (p_ofile k)[i := Some g]\<rparr>)))"

definition name_of :: "byte list \<Rightarrow> byte list \<Rightarrow> byte list" where
  "name_of old new = map (safestrcpy (cstr_of old) (cstr_of new) 16) [0..<16]"

definition kfork :: "('z kproc_st_scheme, int) kernel" where
  "kfork =
     bnd myproc (\<lambda>p.
     bnd allocproc (\<lambda>r.
     case r of
       None \<Rightarrow> ret (- 1)
     | Some np \<Rightarrow>
         bnd (pget p p_pagetable) (\<lambda>old.
         bnd (pget np p_pagetable) (\<lambda>new.
         bnd (pget p p_sz) (\<lambda>sz.
         bnd (uvmcopy old new sz) (\<lambda>r.
         if r < 0
         then sq (freeproc np) (
              sq (lock_release (L_proc np))
                 (ret (- 1)))
         else
         sq (pset np (\<lambda>k. k\<lparr>p_sz := sz\<rparr>)) (
         bnd (pget p p_tf) (\<lambda>tf.
         sq (pset np (\<lambda>k. k\<lparr>p_tf := tf\<rparr>)) (
         sq (pset np (\<lambda>k. k\<lparr>p_tf := set_a0 0 (p_tf k)\<rparr>)) (
         sq (foreach [0..<NOFILE] (fork_file p np)) (
         bnd (pget p p_cwd) (\<lambda>cwd.
         bnd (case cwd of None \<Rightarrow> panic ''null cwd'' | Some ip \<Rightarrow> idup ip) (\<lambda>ip.
         sq (pset np (\<lambda>k. k\<lparr>p_cwd := Some ip\<rparr>)) (
         bnd (pget p p_name) (\<lambda>nm.
         sq (pset np (\<lambda>k. k\<lparr>p_name := name_of (p_name k) nm\<rparr>)) (
         bnd (pget np p_pid) (\<lambda>pid.
         sq (lock_release (L_proc np)) (
         sq (lock_acquire L_wait) (
         sq (pset np (\<lambda>k. k\<lparr>p_parent := Some p\<rparr>)) (
         sq (lock_release L_wait) (
         sq (lock_acquire (L_proc np)) (
         sq (pset np (\<lambda>k. k\<lparr>p_state := RUNNABLE\<rparr>)) (
         sq (lock_release (L_proc np))
            (ret pid))))))))))))))))))))))))"

text \<open>The channel of a process is the process; waking the channel of a null pointer wakes nobody.\<close>

definition wakeup_proc :: "nat option \<Rightarrow> ('z proc_st_scheme, unit) kernel" where
  "wakeup_proc p = (case p of None \<Rightarrow> ret () | Some i \<Rightarrow> wakeup (Chan_proc i))"

definition reparent :: "nat \<Rightarrow> ('z proc_st_scheme, unit) kernel" where
  "reparent p =
     foreach [0..<NPROC] (\<lambda>i.
       bnd (pget i p_parent) (\<lambda>parent.
       whenk (parent = Some p) (
         bnd (get initproc) (\<lambda>ini.
         sq (pset i (\<lambda>k. k\<lparr>p_parent := ini\<rparr>))
            (wakeup_proc ini)))))"

definition close_fd :: "nat \<Rightarrow> nat \<Rightarrow> ('z file_st_scheme, unit) kernel" where
  "close_fd p fd =
     bnd (pget p (\<lambda>k. p_ofile k ! fd)) (\<lambda>f.
     case f of
       None \<Rightarrow> ret ()
     | Some f \<Rightarrow>
         sq (fileclose f)
            (pset p (\<lambda>k. k\<lparr>p_ofile := (p_ofile k)[fd := None]\<rparr>)))"

definition kexit :: "int \<Rightarrow> ('z file_st_scheme, 'a) kernel" where
  "kexit status =
     bnd myproc (\<lambda>p.
     bnd (get initproc) (\<lambda>ini.
     sq (unless_panic (Some p \<noteq> ini) ''init exiting'') (
     sq (foreach [0..<NOFILE] (close_fd p)) (
     sq begin_op (
     bnd (pget p p_cwd) (\<lambda>cwd.
     sq (case cwd of None \<Rightarrow> panic ''null cwd'' | Some ip \<Rightarrow> iput ip) (
     sq end_op (
     sq (pset p (\<lambda>k. k\<lparr>p_cwd := None\<rparr>)) (
     sq (lock_acquire L_wait) (
     sq (reparent p) (
     bnd (pget p p_parent) (\<lambda>parent.
     sq (wakeup_proc parent) (
     sq (lock_acquire (L_proc p)) (
     sq (pset p (\<lambda>k. k\<lparr>p_xstate := status\<rparr>)) (
     sq (pset p (\<lambda>k. k\<lparr>p_state := ZOMBIE\<rparr>)) (
     sq (lock_release L_wait) (
     sq sched
        (panic ''zombie exit''))))))))))))))))))"

text \<open>
  The scan of \<^verbatim>\<open>kwait\<close>: \<open>Inl\<close> a result that ends the call, or \<open>Inr\<close> whether there are children.
\<close>

primrec kwait_scan :: "nat list \<Rightarrow> nat \<Rightarrow> addr \<Rightarrow> bool \<Rightarrow> ('z vm_st_scheme, int + bool) kernel" where
  "kwait_scan [] p a havekids = ret (Inr havekids)"
| "kwait_scan (i # is) p a havekids =
     bnd (pget i p_parent) (\<lambda>parent.
     if parent \<noteq> Some p then kwait_scan is p a havekids
     else sq (lock_acquire (L_proc i)) (
          bnd (pget i p_state) (\<lambda>st.
          if st = ZOMBIE
          then bnd (pget i p_pid) (\<lambda>pid.
               bnd (pget p p_pagetable) (\<lambda>pagetable.
               bnd (pget i p_xstate) (\<lambda>xstate.
               bnd (if a \<noteq> 0 then copyout pagetable a (le_bytes 4 (word_of_int xstate :: u32)) else ret 0) (\<lambda>r.
               if a \<noteq> 0 \<and> r < 0
               then sq (lock_release (L_proc i)) (
                    sq (lock_release L_wait)
                       (ret (Inl (- 1))))
               else sq (freeproc i) (
                    sq (lock_release (L_proc i)) (
                    sq (lock_release L_wait)
                       (ret (Inl pid))))))))
          else sq (lock_release (L_proc i)) (kwait_scan is p a True))))"

definition kwait_loop :: "addr \<Rightarrow> ('z vm_st_scheme, int) kernel" where
  "kwait_loop a =
     bnd myproc (\<lambda>p.
     bnd (kwait_scan [0..<NPROC] p a False) (\<lambda>r.
     case r of
       Inl v \<Rightarrow> ret v
     | Inr havekids \<Rightarrow>
         bnd (if havekids then killed p else ret True) (\<lambda>stop.
         if stop then sq (lock_release L_wait) (ret (- 1))
         else sq (sleep (Chan_proc p) L_wait) (ret (- 1)))))"

definition kwait :: "addr \<Rightarrow> ('z vm_st_scheme, int) kernel" where
  "kwait a = sq (lock_acquire L_wait) (kwait_loop a)"

definition kwait_resume :: "addr \<Rightarrow> ('z vm_st_scheme, int) kernel" where
  "kwait_resume a = sq (sleep_resume L_wait) (kwait_loop a)"

end
