(* ===== verification/Exec.thy ===== *)
theory Exec
  imports Proc
begin

text \<open>
  \<^verbatim>\<open>kernel/exec.c\<close>: loading a program.  The local structures \<^verbatim>\<open>elf\<close> and \<^verbatim>\<open>ph\<close> lie at
  \<open>frame\<close> and after it; an argument vector is the list of its strings.
\<close>

section \<open>ELF files\<close>

definition ELF_MAGIC :: u32 where "ELF_MAGIC = 0x464C457F"
definition ELF_PROG_LOAD :: u32 where "ELF_PROG_LOAD = 1"
definition MAXARG :: nat where "MAXARG = 32"
definition USERSTACK :: u64 where "USERSTACK = 2"

record elfhdr =
  elf_magic :: u32
  elf_entry :: u64
  elf_phoff :: u64
  elf_phnum :: u16

record proghdr =
  ph_type :: u32
  ph_flags :: u32
  ph_off :: u64
  ph_vaddr :: u64
  ph_filesz :: u64
  ph_memsz :: u64

definition elfhdr_get :: "byte list \<Rightarrow> elfhdr" where
  "elfhdr_get bs = \<lparr>elf_magic = get32 0 bs, elf_entry = le_word (take 8 (drop 24 bs)),
     elf_phoff = le_word (take 8 (drop 32 bs)), elf_phnum = get16 56 bs\<rparr>"

definition proghdr_get :: "byte list \<Rightarrow> proghdr" where
  "proghdr_get bs = \<lparr>ph_type = get32 0 bs, ph_flags = get32 4 bs, ph_off = le_word (take 8 (drop 8 bs)),
     ph_vaddr = le_word (take 8 (drop 16 bs)), ph_filesz = le_word (take 8 (drop 32 bs)),
     ph_memsz = le_word (take 8 (drop 40 bs))\<rparr>"

definition flags2perm :: "u32 \<Rightarrow> u64" where
  "flags2perm flags =
     (let perm = (if flags AND 1 \<noteq> 0 then PTE_X else 0)
      in if flags AND 2 \<noteq> 0 then perm OR PTE_W else perm)"

section \<open>Loading\<close>

primrec loadseg_from ::
  "nat list \<Rightarrow> addr \<Rightarrow> addr \<Rightarrow> nat \<Rightarrow> u32 \<Rightarrow> u32 \<Rightarrow> ('z fs_st_scheme, int) kernel" where
  "loadseg_from [] pagetable va ip off sz = ret 0"
| "loadseg_from (i # is) pagetable va ip off sz =
     bnd (walkaddr pagetable (va + of_nat i)) (\<lambda>pa.
     sq (unless_panic (pa \<noteq> 0) ''loadseg: address should exist'') (
     let n = (if sz - of_nat i < 4096 then sz - of_nat i else 4096) in
     bnd (readi ip False pa (off + of_nat i) n) (\<lambda>r.
     if r \<noteq> int (unat n) then ret (- 1)
     else loadseg_from is pagetable va ip off sz)))"

definition loadseg :: "addr \<Rightarrow> addr \<Rightarrow> nat \<Rightarrow> u32 \<Rightarrow> u32 \<Rightarrow> ('z fs_st_scheme, int) kernel" where
  "loadseg pagetable va ip off sz =
     loadseg_from (map (\<lambda>k. 4096 * k) [0..<(unat sz + 4095) div 4096]) pagetable va ip off sz"

text \<open>The loop over the program headers: whether it got through, and the size reached.\<close>

primrec exec_segments ::
  "nat list \<Rightarrow> addr \<Rightarrow> nat \<Rightarrow> u32 \<Rightarrow> u64 \<Rightarrow> ('z fs_st_scheme, bool \<times> u64) kernel" where
  "exec_segments [] pagetable ip off sz = ret (True, sz)"
| "exec_segments (i # is) pagetable ip off sz =
     bnd (get (\<lambda>s. frame s + 64)) (\<lambda>buf.
     bnd (readi ip False buf off 56) (\<lambda>r.
     if r \<noteq> 56 then ret (False, sz)
     else bnd (get (\<lambda>s. proghdr_get (mem_read (mem s) buf 56))) (\<lambda>ph.
     if ph_type ph \<noteq> ELF_PROG_LOAD then exec_segments is pagetable ip (off + 56) sz
     else if ph_memsz ph < ph_filesz ph then ret (False, sz)
     else if ph_vaddr ph + ph_memsz ph < ph_vaddr ph then ret (False, sz)
     else if ph_vaddr ph mod PGSIZE \<noteq> 0 then ret (False, sz)
     else bnd (uvmalloc pagetable sz (ph_vaddr ph + ph_memsz ph) (flags2perm (ph_flags ph))) (\<lambda>sz1.
          if sz1 = 0 then ret (False, sz)
          else bnd (loadseg pagetable (ph_vaddr ph) ip (ucast (ph_off ph)) (ucast (ph_filesz ph))) (\<lambda>r.
               if r < 0 then ret (False, sz1)
               else exec_segments is pagetable ip (off + 56) sz1)))))"

text \<open>
  The loop that copies the argument strings: the stack pointer and the pointers to the strings,
  or \<open>None\<close> when it jumps to \<^verbatim>\<open>bad\<close>.
\<close>

primrec exec_args ::
  "byte list list \<Rightarrow> addr \<Rightarrow> u64 \<Rightarrow> u64 \<Rightarrow> u64 list \<Rightarrow> ('z proc_st_scheme, (u64 \<times> u64 list) option) kernel" where
  "exec_args [] pagetable stackbase sp ustack = ret (Some (sp, ustack))"
| "exec_args (arg # args) pagetable stackbase sp ustack =
     (if length ustack \<ge> MAXARG then ret None
      else let sp = sp - (of_nat (length arg) + 1);
               sp = sp - sp mod 16
           in if sp < stackbase then ret None
              else bnd (copyout pagetable sp (arg @ [0])) (\<lambda>r.
                   if r < 0 then ret None
                   else exec_args args pagetable stackbase sp (ustack @ [sp])))"

definition exec_bad :: "addr \<Rightarrow> u64 \<Rightarrow> nat option \<Rightarrow> ('z fs_st_scheme, int) kernel" where
  "exec_bad pagetable sz ip =
     sq (whenk (pagetable \<noteq> 0) (proc_freepagetable pagetable sz)) (
     sq (case ip of None \<Rightarrow> ret () | Some ip \<Rightarrow> sq (iunlockput ip) end_op)
        (ret (- 1)))"

definition basename :: "byte list \<Rightarrow> byte list" where
  "basename path = rev (takeWhile (\<lambda>c. c \<noteq> slash) (rev path))"

text \<open>
  The second half of \<^verbatim>\<open>kexec\<close>, the executable being loaded: the stack and the switch to the
  new image.  A vector of \<open>MAXARG\<close> arguments leaves no room in \<^verbatim>\<open>ustack\<close> for the final null.
\<close>

definition exec_commit :: "byte list \<Rightarrow> byte list list \<Rightarrow> elfhdr \<Rightarrow> addr \<Rightarrow> u64 \<Rightarrow> ('z fs_st_scheme, int) kernel" where
  "exec_commit path argv elf pagetable sz =
     bnd myproc (\<lambda>p.
     bnd (pget p p_sz) (\<lambda>oldsz.
     let sz = PGROUNDUP sz in
     bnd (uvmalloc pagetable sz (sz + (USERSTACK + 1) * PGSIZE) PTE_W) (\<lambda>sz1.
     if sz1 = 0 then exec_bad pagetable sz None
     else
     sq (uvmclear pagetable (sz1 - (USERSTACK + 1) * PGSIZE)) (
     let stackbase = sz1 - USERSTACK * PGSIZE in
     bnd (exec_args argv pagetable stackbase sz1 []) (\<lambda>r.
     case r of
       None \<Rightarrow> exec_bad pagetable sz1 None
     | Some (sp, ustack) \<Rightarrow>
         let argc = length ustack in
         sq (unless_panic (argc < MAXARG) ''kexec: ustack overrun'') (
         let sp = sp - (of_nat argc + 1) * 8;
             sp = sp - sp mod 16
         in if sp < stackbase then exec_bad pagetable sz1 None
            else bnd (copyout pagetable sp (concat (map (le_bytes 8) (ustack @ [0])))) (\<lambda>r.
                 if r < 0 then exec_bad pagetable sz1 None
                 else
                 sq (pset p (\<lambda>k. k\<lparr>p_tf := (p_tf k)\<lparr>tf_a := (tf_a (p_tf k))[1 := sp]\<rparr>\<rparr>)) (
                 sq (pset p (\<lambda>k. k\<lparr>p_name := name_of (p_name k) (basename path)\<rparr>)) (
                 bnd (pget p p_pagetable) (\<lambda>oldpagetable.
                 sq (pset p (\<lambda>k. k\<lparr>p_pagetable := pagetable\<rparr>)) (
                 sq (pset p (\<lambda>k. k\<lparr>p_sz := sz1\<rparr>)) (
                 sq (pset p (\<lambda>k. k\<lparr>p_tf := (p_tf k)\<lparr>tf_epc := elf_entry elf\<rparr>\<rparr>)) (
                 sq (pset p (\<lambda>k. k\<lparr>p_tf := (p_tf k)\<lparr>tf_sp := sp\<rparr>\<rparr>)) (
                 sq (proc_freepagetable oldpagetable oldsz)
                    (ret (int argc))))))))))))))))"

definition kexec :: "byte list \<Rightarrow> byte list list \<Rightarrow> ('z fs_st_scheme, int) kernel" where
  "kexec path argv =
     bnd myproc (\<lambda>p.
     sq begin_op (
     bnd (namei path) (\<lambda>r.
     case r of
       None \<Rightarrow> sq end_op (ret (- 1))
     | Some ip \<Rightarrow>
         sq (ilock ip) (
         bnd (get frame) (\<lambda>buf.
         bnd (readi ip False buf 0 64) (\<lambda>r.
         if r \<noteq> 64 then exec_bad 0 0 (Some ip)
         else
         bnd (get (\<lambda>s. elfhdr_get (mem_read (mem s) buf 64))) (\<lambda>elf.
         if elf_magic elf \<noteq> ELF_MAGIC then exec_bad 0 0 (Some ip)
         else
         bnd (proc_pagetable p) (\<lambda>pagetable.
         if pagetable = 0 then exec_bad 0 0 (Some ip)
         else
         bnd (exec_segments [0..<unat (elf_phnum elf)] pagetable ip (ucast (elf_phoff elf)) 0) (\<lambda>(ok, sz).
         if \<not> ok then exec_bad pagetable sz (Some ip)
         else
         sq (iunlockput ip) (
         sq end_op
            (exec_commit path argv elf pagetable sz)))))))))))"

end
