(* ===== verification/Sysfile.thy ===== *)
theory Sysfile
  imports Exec
begin

text \<open>
  The arguments of system calls (\<^verbatim>\<open>kernel/syscall.c\<close>) and the system calls on files
  (\<^verbatim>\<open>kernel/sysfile.c\<close>).  A system call returns a 64-bit register; \<open>- 1\<close> reports failure.
\<close>

section \<open>Arguments\<close>

definition fetchaddr :: "addr \<Rightarrow> ('z proc_st_scheme, int \<times> u64) kernel" where
  "fetchaddr a =
     bnd myproc (\<lambda>p.
     bnd (pget p p_sz) (\<lambda>sz.
     if a \<ge> sz \<or> a + 8 > sz then ret (- 1, 0)
     else bnd (pget p p_pagetable) (\<lambda>pagetable.
          bnd (copyin pagetable a 8) (\<lambda>(r, bs).
          if r \<noteq> 0 then ret (- 1, 0) else ret (0, le_word bs)))))"

text \<open>The length of the string and its bytes before the null.\<close>

definition fetchstr :: "addr \<Rightarrow> nat \<Rightarrow> ('z proc_st_scheme, int \<times> byte list) kernel" where
  "fetchstr a mx =
     bnd myproc (\<lambda>p.
     bnd (pget p p_pagetable) (\<lambda>pagetable.
     bnd (copyinstr pagetable a mx) (\<lambda>(r, bs).
     if r < 0 then ret (- 1, [])
     else let str = takeWhile (\<lambda>c. c \<noteq> 0) bs in ret (int (length str), str))))"

definition argraw :: "nat \<Rightarrow> ('z proc_st_scheme, u64) kernel" where
  "argraw n =
     bnd myproc (\<lambda>p.
     if n \<le> 5 then pget p (\<lambda>k. tf_a (p_tf k) ! n) else panic ''argraw'')"

definition argint :: "nat \<Rightarrow> ('z proc_st_scheme, int) kernel" where
  "argint n = bnd (argraw n) (\<lambda>v. ret (sint (ucast v :: u32)))"

definition argaddr :: "nat \<Rightarrow> ('z proc_st_scheme, addr) kernel" where
  "argaddr n = argraw n"

definition argstr :: "nat \<Rightarrow> nat \<Rightarrow> ('z proc_st_scheme, int \<times> byte list) kernel" where
  "argstr n mx = bnd (argaddr n) (\<lambda>a. fetchstr a mx)"

section \<open>Descriptors\<close>

definition MAXPATH :: nat where "MAXPATH = 128"

definition argfd :: "nat \<Rightarrow> ('z proc_st_scheme, (nat \<times> nat) option) kernel" where
  "argfd n =
     bnd (argint n) (\<lambda>fd.
     if fd < 0 \<or> fd \<ge> int NOFILE then ret None
     else bnd myproc (\<lambda>p.
          bnd (pget p (\<lambda>k. p_ofile k ! nat fd)) (\<lambda>f.
          case f of None \<Rightarrow> ret None | Some f \<Rightarrow> ret (Some (nat fd, f)))))"

definition fdalloc :: "nat \<Rightarrow> ('z proc_st_scheme, nat option) kernel" where
  "fdalloc f =
     bnd myproc (\<lambda>p.
     bnd (pget p (\<lambda>k. find (\<lambda>fd. p_ofile k ! fd = None) [0..<NOFILE])) (\<lambda>r.
     case r of
       None \<Rightarrow> ret None
     | Some fd \<Rightarrow> sq (pset p (\<lambda>k. k\<lparr>p_ofile := (p_ofile k)[fd := Some f]\<rparr>)) (ret (Some fd))))"

definition sys_dup :: "('z file_st_scheme, u64) kernel" where
  "sys_dup =
     bnd (argfd 0) (\<lambda>a.
     case a of
       None \<Rightarrow> ret (- 1)
     | Some (_, f) \<Rightarrow>
         bnd (fdalloc f) (\<lambda>r.
         case r of
           None \<Rightarrow> ret (- 1)
         | Some fd \<Rightarrow> bnd (filedup f) (\<lambda>_. ret (of_nat fd))))"

definition sys_read :: "('z file_st_scheme, u64) kernel" where
  "sys_read =
     bnd (argaddr 1) (\<lambda>p.
     bnd (argint 2) (\<lambda>n.
     bnd (argfd 0) (\<lambda>a.
     case a of
       None \<Rightarrow> ret (- 1)
     | Some (_, f) \<Rightarrow> bnd (fileread f p n) (\<lambda>r. ret (word_of_int r)))))"

definition sys_write :: "('z file_st_scheme, u64) kernel" where
  "sys_write =
     bnd (argaddr 1) (\<lambda>p.
     bnd (argint 2) (\<lambda>n.
     bnd (argfd 0) (\<lambda>a.
     case a of
       None \<Rightarrow> ret (- 1)
     | Some (_, f) \<Rightarrow> bnd (filewrite f p n) (\<lambda>r. ret (word_of_int r)))))"

definition sys_close :: "('z file_st_scheme, u64) kernel" where
  "sys_close =
     bnd (argfd 0) (\<lambda>a.
     case a of
       None \<Rightarrow> ret (- 1)
     | Some (fd, f) \<Rightarrow>
         bnd myproc (\<lambda>p.
         sq (pset p (\<lambda>k. k\<lparr>p_ofile := (p_ofile k)[fd := None]\<rparr>)) (
         sq (fileclose f)
            (ret 0))))"

definition sys_fstat :: "('z file_st_scheme, u64) kernel" where
  "sys_fstat =
     bnd (argaddr 1) (\<lambda>st.
     bnd (argfd 0) (\<lambda>a.
     case a of
       None \<Rightarrow> ret (- 1)
     | Some (_, f) \<Rightarrow> bnd (filestat f st) (\<lambda>r. ret (word_of_int r))))"

section \<open>Links\<close>

text \<open>The error exit of \<^verbatim>\<open>sys_link\<close>.\<close>

definition link_bad :: "nat \<Rightarrow> ('z fs_st_scheme, u64) kernel" where
  "link_bad ip =
     sq (ilock ip) (
     sq (iset ip (\<lambda>k. k\<lparr>i_nlink := i_nlink k - 1\<rparr>)) (
     sq (iupdate ip) (
     sq (iunlockput ip) (
     sq end_op
        (ret (- 1))))))"

definition sys_link :: "('z fs_st_scheme, u64) kernel" where
  "sys_link =
     bnd (argstr 0 MAXPATH) (\<lambda>(r, old).
     if r < 0 then ret (- 1)
     else bnd (argstr 1 MAXPATH) (\<lambda>(r, new).
     if r < 0 then ret (- 1)
     else
     sq begin_op (
     bnd (namei old) (\<lambda>r.
     case r of
       None \<Rightarrow> sq end_op (ret (- 1))
     | Some ip \<Rightarrow>
         sq (ilock ip) (
         bnd (ifield ip i_type) (\<lambda>type.
         if type = T_DIR
         then sq (iunlockput ip) (sq end_op (ret (- 1)))
         else
         sq (iset ip (\<lambda>k. k\<lparr>i_nlink := i_nlink k + 1\<rparr>)) (
         sq (iupdate ip) (
         sq (iunlock ip) (
         bnd (nameiparent new (\<lambda>_. 0)) (\<lambda>(r, name).
         case r of
           None \<Rightarrow> link_bad ip
         | Some dp \<Rightarrow>
             sq (ilock dp) (
             bnd (ifield dp i_dev) (\<lambda>ddev.
             bnd (ifield ip i_dev) (\<lambda>dev.
             bnd (ifield ip i_inum) (\<lambda>inum.
             bnd (if ddev \<noteq> dev then ret (- 1) else dirlink dp name inum) (\<lambda>r.
             if r < 0 then sq (iunlockput dp) (link_bad ip)
             else
             sq (iunlockput dp) (
             sq (iput ip) (
             sq end_op
                (ret 0))))))))))))))))))"

primrec isdirempty_from :: "nat list \<Rightarrow> nat \<Rightarrow> ('z fs_st_scheme, bool) kernel" where
  "isdirempty_from [] dp = ret True"
| "isdirempty_from (off # offs) dp =
     bnd (read_dirent dp off ''isdirempty: readi'') (\<lambda>de.
     if de_inum de \<noteq> 0 then ret False else isdirempty_from offs dp)"

definition isdirempty :: "nat \<Rightarrow> ('z fs_st_scheme, bool) kernel" where
  "isdirempty dp = bnd (ifield dp i_size) (\<lambda>sz. isdirempty_from (drop 2 (dir_offsets sz)) dp)"

definition dot :: cstr where "dot = cstr_of [46]"
definition dotdot :: cstr where "dotdot = cstr_of [46, 46]"

definition unlink_bad :: "nat \<Rightarrow> ('z fs_st_scheme, u64) kernel" where
  "unlink_bad dp = sq (iunlockput dp) (sq end_op (ret (- 1)))"

definition sys_unlink :: "('z fs_st_scheme, u64) kernel" where
  "sys_unlink =
     bnd (argstr 0 MAXPATH) (\<lambda>(r, path).
     if r < 0 then ret (- 1)
     else
     sq begin_op (
     bnd (nameiparent path (\<lambda>_. 0)) (\<lambda>(r, name).
     case r of
       None \<Rightarrow> sq end_op (ret (- 1))
     | Some dp \<Rightarrow>
         sq (ilock dp) (
         if namecmp name dot = 0 \<or> namecmp name dotdot = 0 then unlink_bad dp
         else
         bnd (dirlookup dp name) (\<lambda>r.
         case r of
           None \<Rightarrow> unlink_bad dp
         | Some (ip, off) \<Rightarrow>
             sq (ilock ip) (
             bnd (ifield ip i_nlink) (\<lambda>nlink.
             sq (unless_panic (\<not> sint nlink < 1) ''unlink: nlink < 1'') (
             bnd (ifield ip i_type) (\<lambda>type.
             bnd (if type = T_DIR then isdirempty ip else ret True) (\<lambda>emp.
             if \<not> emp then sq (iunlockput ip) (unlink_bad dp)
             else
             bnd (get frame) (\<lambda>de.
             sq (upd (\<lambda>s. s\<lparr>mem := mem_write (mem s) de (replicate 16 0)\<rparr>)) (
             bnd (writei dp False de (of_nat off) 16) (\<lambda>r.
             sq (unless_panic (r = 16) ''unlink: writei'') (
             sq (whenk (type = T_DIR) (
                  sq (iset dp (\<lambda>k. k\<lparr>i_nlink := i_nlink k - 1\<rparr>))
                     (iupdate dp))) (
             sq (iunlockput dp) (
             sq (iset ip (\<lambda>k. k\<lparr>i_nlink := i_nlink k - 1\<rparr>)) (
             sq (iupdate ip) (
             sq (iunlockput ip) (
             sq end_op
                (ret 0))))))))))))))))))))"

section \<open>Creating and opening\<close>

text \<open>The exit \<^verbatim>\<open>fail\<close> of \<^verbatim>\<open>create\<close>.\<close>

definition create_fail :: "nat \<Rightarrow> nat \<Rightarrow> ('z fs_st_scheme, nat option) kernel" where
  "create_fail ip dp =
     sq (iset ip (\<lambda>k. k\<lparr>i_nlink := 0\<rparr>)) (
     sq (iupdate ip) (
     sq (iunlockput ip) (
     sq (iunlockput dp)
        (ret None))))"

definition create :: "byte list \<Rightarrow> u16 \<Rightarrow> u16 \<Rightarrow> u16 \<Rightarrow> ('z fs_st_scheme, nat option) kernel" where
  "create path type major minor =
     bnd (nameiparent path (\<lambda>_. 0)) (\<lambda>(r, name).
     case r of
       None \<Rightarrow> ret None
     | Some dp \<Rightarrow>
         sq (ilock dp) (
         bnd (dirlookup dp name) (\<lambda>r.
         case r of
           Some (ip, off) \<Rightarrow>
             sq (iunlockput dp) (
             sq (ilock ip) (
             bnd (ifield ip i_type) (\<lambda>itype.
             if type = T_FILE \<and> (itype = T_FILE \<or> itype = T_DEVICE) then ret (Some ip)
             else sq (iunlockput ip) (ret None))))
         | None \<Rightarrow>
             bnd (ifield dp i_dev) (\<lambda>dev.
             bnd (ialloc dev type) (\<lambda>r.
             case r of
               None \<Rightarrow> sq (iunlockput dp) (ret None)
             | Some ip \<Rightarrow>
                 sq (ilock ip) (
                 sq (iset ip (\<lambda>k. k\<lparr>i_major := major\<rparr>)) (
                 sq (iset ip (\<lambda>k. k\<lparr>i_minor := minor\<rparr>)) (
                 sq (iset ip (\<lambda>k. k\<lparr>i_nlink := 1\<rparr>)) (
                 sq (iupdate ip) (
                 bnd (ifield ip i_inum) (\<lambda>inum.
                 bnd (ifield dp i_inum) (\<lambda>dinum.
                 bnd (if type = T_DIR
                      then bnd (dirlink ip dot inum) (\<lambda>r.
                           if r < 0 then ret (- 1) else dirlink ip dotdot dinum)
                      else ret 0) (\<lambda>r.
                 if r < 0 then create_fail ip dp
                 else
                 bnd (dirlink dp name inum) (\<lambda>r.
                 if r < 0 then create_fail ip dp
                 else
                 sq (whenk (type = T_DIR) (
                      sq (iset dp (\<lambda>k. k\<lparr>i_nlink := i_nlink k + 1\<rparr>))
                         (iupdate dp))) (
                 sq (iunlockput dp)
                    (ret (Some ip)))))))))))))))))"

definition O_WRONLY :: u32 where "O_WRONLY = 1"
definition O_RDWR :: u32 where "O_RDWR = 2"
definition O_CREATE :: u32 where "O_CREATE = 0x200"
definition O_TRUNC :: u32 where "O_TRUNC = 0x400"

definition open_fail :: "nat \<Rightarrow> ('z fs_st_scheme, u64) kernel" where
  "open_fail ip = sq (iunlockput ip) (sq end_op (ret (- 1)))"

text \<open>\<^verbatim>\<open>sys_open\<close> from the point where it has the locked inode.\<close>

definition open_inode :: "nat \<Rightarrow> u32 \<Rightarrow> ('z file_st_scheme, u64) kernel" where
  "open_inode ip omode =
     bnd (ifield ip i_type) (\<lambda>type.
     bnd (ifield ip i_major) (\<lambda>major.
     if type = T_DEVICE \<and> (sint major < 0 \<or> sint major \<ge> int NDEV) then open_fail ip
     else
     bnd filealloc (\<lambda>r.
     case r of
       None \<Rightarrow> open_fail ip
     | Some f \<Rightarrow>
         bnd (fdalloc f) (\<lambda>r.
         case r of
           None \<Rightarrow> sq (fileclose f) (open_fail ip)
         | Some fd \<Rightarrow>
             sq (if type = T_DEVICE
                 then sq (fset f (\<lambda>k. k\<lparr>f_type := FD_DEVICE\<rparr>)) (fset f (\<lambda>k. k\<lparr>f_major := major\<rparr>))
                 else sq (fset f (\<lambda>k. k\<lparr>f_type := FD_INODE\<rparr>)) (fset f (\<lambda>k. k\<lparr>f_off := 0\<rparr>))) (
             sq (fset f (\<lambda>k. k\<lparr>f_ip := ip\<rparr>)) (
             sq (fset f (\<lambda>k. k\<lparr>f_readable := (omode AND O_WRONLY = 0)\<rparr>)) (
             sq (fset f (\<lambda>k. k\<lparr>f_writable := (omode AND O_WRONLY \<noteq> 0 \<or> omode AND O_RDWR \<noteq> 0)\<rparr>)) (
             sq (whenk (omode AND O_TRUNC \<noteq> 0 \<and> type = T_FILE) (itrunc ip)) (
             sq (iunlock ip) (
             sq end_op
                (ret (of_nat fd))))))))))))"

definition sys_open :: "('z file_st_scheme, u64) kernel" where
  "sys_open =
     bnd (argint 1) (\<lambda>m.
     let omode = word_of_int m :: u32 in
     bnd (argstr 0 MAXPATH) (\<lambda>(n, path).
     if n < 0 then ret (- 1)
     else
     sq begin_op (
     if omode AND O_CREATE \<noteq> 0
     then bnd (create path T_FILE 0 0) (\<lambda>r.
          case r of
            None \<Rightarrow> sq end_op (ret (- 1))
          | Some ip \<Rightarrow> open_inode ip omode)
     else bnd (namei path) (\<lambda>r.
          case r of
            None \<Rightarrow> sq end_op (ret (- 1))
          | Some ip \<Rightarrow>
              sq (ilock ip) (
              bnd (ifield ip i_type) (\<lambda>type.
              if type = T_DIR \<and> omode \<noteq> 0 then open_fail ip
              else open_inode ip omode))))))"

definition sys_mkdir :: "('z fs_st_scheme, u64) kernel" where
  "sys_mkdir =
     sq begin_op (
     bnd (argstr 0 MAXPATH) (\<lambda>(r, path).
     if r < 0 then sq end_op (ret (- 1))
     else bnd (create path T_DIR 0 0) (\<lambda>r.
          case r of
            None \<Rightarrow> sq end_op (ret (- 1))
          | Some ip \<Rightarrow> sq (iunlockput ip) (sq end_op (ret 0)))))"

definition sys_mknod :: "('z fs_st_scheme, u64) kernel" where
  "sys_mknod =
     sq begin_op (
     bnd (argint 1) (\<lambda>major.
     bnd (argint 2) (\<lambda>minor.
     bnd (argstr 0 MAXPATH) (\<lambda>(r, path).
     if r < 0 then sq end_op (ret (- 1))
     else bnd (create path T_DEVICE (word_of_int major) (word_of_int minor)) (\<lambda>r.
          case r of
            None \<Rightarrow> sq end_op (ret (- 1))
          | Some ip \<Rightarrow> sq (iunlockput ip) (sq end_op (ret 0)))))))"

definition sys_chdir :: "('z fs_st_scheme, u64) kernel" where
  "sys_chdir =
     bnd myproc (\<lambda>p.
     sq begin_op (
     bnd (argstr 0 MAXPATH) (\<lambda>(r, path).
     if r < 0 then sq end_op (ret (- 1))
     else bnd (namei path) (\<lambda>r.
     case r of
       None \<Rightarrow> sq end_op (ret (- 1))
     | Some ip \<Rightarrow>
         sq (ilock ip) (
         bnd (ifield ip i_type) (\<lambda>type.
         if type \<noteq> T_DIR then open_fail ip
         else
         sq (iunlock ip) (
         bnd (pget p p_cwd) (\<lambda>cwd.
         sq (case cwd of None \<Rightarrow> panic ''null cwd'' | Some c \<Rightarrow> iput c) (
         sq end_op (
         sq (pset p (\<lambda>k. k\<lparr>p_cwd := Some ip\<rparr>))
            (ret 0)))))))))))"

section \<open>Exec and pipe\<close>

text \<open>
  The loop of \<^verbatim>\<open>sys_exec\<close>, \<open>k\<close> slots of \<^verbatim>\<open>argv\<close> being left: the pages it filled with their
  strings, and whether it found the end of the user's vector.
\<close>

primrec exec_fetch ::
  "nat \<Rightarrow> nat \<Rightarrow> addr \<Rightarrow> (addr \<times> byte list) list \<Rightarrow> ('z proc_st_scheme, (addr \<times> byte list) list \<times> bool) kernel" where
  "exec_fetch 0 i uargv acc = ret (acc, False)"
| "exec_fetch (Suc k) i uargv acc =
     bnd (fetchaddr (uargv + 8 * of_nat i)) (\<lambda>(r, uarg).
     if r < 0 then ret (acc, False)
     else if uarg = 0 then ret (acc, True)
     else bnd kalloc (\<lambda>pg.
          if pg = 0 then ret (acc, False)
          else bnd (fetchstr uarg 4096) (\<lambda>(r, str).
               if r < 0 then ret (acc @ [(pg, [])], False)
               else sq (upd (\<lambda>s. s\<lparr>mem := mem_write (mem s) pg (str @ [0])\<rparr>))
                       (exec_fetch k (Suc i) uargv (acc @ [(pg, str)])))))"

definition sys_exec :: "('z fs_st_scheme, u64) kernel" where
  "sys_exec =
     bnd (argaddr 1) (\<lambda>uargv.
     bnd (argstr 0 MAXPATH) (\<lambda>(r, path).
     if r < 0 then ret (- 1)
     else bnd (exec_fetch MAXARG 0 uargv []) (\<lambda>(argv, ok).
          bnd (if ok then kexec path (map snd argv) else ret (- 1)) (\<lambda>v.
          sq (foreach (map fst argv) kfree)
             (ret (word_of_int v))))))"

definition int_bytes :: "nat \<Rightarrow> byte list" where
  "int_bytes fd = le_bytes 4 (of_nat fd :: u32)"

definition sys_pipe :: "('z file_st_scheme, u64) kernel" where
  "sys_pipe =
     bnd myproc (\<lambda>p.
     bnd (argaddr 0) (\<lambda>fdarray.
     bnd pipealloc (\<lambda>r.
     case r of
       None \<Rightarrow> ret (- 1)
     | Some (rf, wfl) \<Rightarrow>
         bnd (fdalloc rf) (\<lambda>r0.
         bnd (case r0 of None \<Rightarrow> ret None | Some _ \<Rightarrow> fdalloc wfl) (\<lambda>r1.
         case (r0, r1) of
           (Some fd0, Some fd1) \<Rightarrow>
             bnd (pget p p_pagetable) (\<lambda>pagetable.
             bnd (copyout pagetable fdarray (int_bytes fd0)) (\<lambda>r.
             bnd (if r < 0 then ret (- 1) else copyout pagetable (fdarray + 4) (int_bytes fd1)) (\<lambda>r.
             if r < 0
             then sq (pset p (\<lambda>k. k\<lparr>p_ofile := (p_ofile k)[fd0 := None]\<rparr>)) (
                  sq (pset p (\<lambda>k. k\<lparr>p_ofile := (p_ofile k)[fd1 := None]\<rparr>)) (
                  sq (fileclose rf) (
                  sq (fileclose wfl)
                     (ret (- 1)))))
             else ret 0)))
         | _ \<Rightarrow>
             sq (case r0 of
                   None \<Rightarrow> ret ()
                 | Some fd0 \<Rightarrow> pset p (\<lambda>k. k\<lparr>p_ofile := (p_ofile k)[fd0 := None]\<rparr>)) (
             sq (fileclose rf) (
             sq (fileclose wfl)
                (ret (- 1)))))))))"

end
