(* ===== verification/Syscall.thy ===== *)
theory Syscall
  imports Sysfile
begin

text \<open>
  \<^verbatim>\<open>kernel/sysproc.c\<close>, the dispatch of \<^verbatim>\<open>kernel/syscall.c\<close>, and \<^verbatim>\<open>kernel/trap.c\<close> with
  \<^verbatim>\<open>kernel/plic.c\<close>: how the kernel is entered and left.  The control registers of the
  processor are fields of the state; \<open>plic_pending\<close> lists the interrupts that the interrupt
  controller has to deliver, \<open>plic_wr\<close> what was written to its registers.
\<close>

section \<open>State\<close>

record k_st = kproc_st +
  cpu_id :: nat
  r_sstatus :: u64
  r_sepc :: u64
  r_scause :: u64
  r_stval :: u64
  r_stvec :: u64
  r_time :: u64
  r_stimecmp :: u64
  uservec_addr :: addr
  kernelvec_addr :: addr
  usertrap_addr :: addr
  plic_pending :: "nat list"
  plic_wr :: "(addr \<times> u32) list"

section \<open>System calls on processes\<close>

definition sys_exit :: "('z file_st_scheme, u64) kernel" where
  "sys_exit = bnd (argint 0) (\<lambda>n. kexit n)"

definition sys_getpid :: "('z proc_st_scheme, u64) kernel" where
  "sys_getpid = bnd myproc (\<lambda>p. bnd (pget p p_pid) (\<lambda>pid. ret (word_of_int pid)))"

definition sys_fork :: "('z kproc_st_scheme, u64) kernel" where
  "sys_fork = bnd kfork (\<lambda>r. ret (word_of_int r))"

definition sys_wait :: "('z vm_st_scheme, u64) kernel" where
  "sys_wait = bnd (argaddr 0) (\<lambda>p. bnd (kwait p) (\<lambda>r. ret (word_of_int r)))"

definition SBRK_EAGER :: int where "SBRK_EAGER = 1"

definition sys_sbrk :: "('z vm_st_scheme, u64) kernel" where
  "sys_sbrk =
     bnd (argint 0) (\<lambda>n.
     bnd (argint 1) (\<lambda>t.
     bnd myproc (\<lambda>p.
     bnd (pget p p_sz) (\<lambda>a.
     if t = SBRK_EAGER \<or> n < 0
     then bnd (growproc n) (\<lambda>r. if r < 0 then ret (- 1) else ret a)
     else if a + word_of_int n < a then ret (- 1)
     else sq (pset p (\<lambda>k. k\<lparr>p_sz := p_sz k + word_of_int n\<rparr>))
             (ret a)))))"

text \<open>\<^verbatim>\<open>ticks - ticks0 < n\<close> compares as unsigned 32-bit words.\<close>

definition pause_loop :: "u32 \<Rightarrow> u32 \<Rightarrow> ('z proc_st_scheme, u64) kernel" where
  "pause_loop ticks0 n =
     bnd (get (\<lambda>s. ticks s - ticks0 < n)) (\<lambda>early.
     if early
     then bnd myproc (\<lambda>p.
          bnd (killed p) (\<lambda>k.
          if k then sq (lock_release L_ticks) (ret (- 1))
          else sq (sleep Chan_ticks L_ticks) (ret (- 1))))
     else sq (lock_release L_ticks) (ret 0))"

definition sys_pause :: "('z proc_st_scheme, u64) kernel" where
  "sys_pause =
     bnd (argint 0) (\<lambda>n.
     let n = (if n < 0 then 0 else n) in
     sq (lock_acquire L_ticks) (
     bnd (get ticks) (\<lambda>ticks0.
     pause_loop ticks0 (word_of_int n))))"

definition sys_pause_resume :: "u32 \<Rightarrow> u32 \<Rightarrow> ('z proc_st_scheme, u64) kernel" where
  "sys_pause_resume ticks0 n = sq (sleep_resume L_ticks) (pause_loop ticks0 n)"

definition sys_kill :: "('z proc_st_scheme, u64) kernel" where
  "sys_kill = bnd (argint 0) (\<lambda>pid. bnd (kkill pid) (\<lambda>r. ret (word_of_int r)))"

definition sys_uptime :: "('z proc_st_scheme, u64) kernel" where
  "sys_uptime =
     sq (lock_acquire L_ticks) (
     bnd (get ticks) (\<lambda>xticks.
     sq (lock_release L_ticks)
        (ret (ucast xticks))))"

section \<open>Dispatch\<close>

definition syscalls :: "int \<Rightarrow> ('z kproc_st_scheme, u64) kernel option" where
  "syscalls num =
     (if num = 1 then Some sys_fork
      else if num = 2 then Some sys_exit
      else if num = 3 then Some sys_wait
      else if num = 4 then Some sys_pipe
      else if num = 5 then Some sys_read
      else if num = 6 then Some sys_kill
      else if num = 7 then Some sys_exec
      else if num = 8 then Some sys_fstat
      else if num = 9 then Some sys_chdir
      else if num = 10 then Some sys_dup
      else if num = 11 then Some sys_getpid
      else if num = 12 then Some sys_sbrk
      else if num = 13 then Some sys_pause
      else if num = 14 then Some sys_uptime
      else if num = 15 then Some sys_open
      else if num = 16 then Some sys_write
      else if num = 17 then Some sys_mknod
      else if num = 18 then Some sys_unlink
      else if num = 19 then Some sys_link
      else if num = 20 then Some sys_mkdir
      else if num = 21 then Some sys_close
      else None)"

definition syscall :: "('z kproc_st_scheme, unit) kernel" where
  "syscall =
     bnd myproc (\<lambda>p.
     bnd (pget p (\<lambda>k. sint (ucast (tf_a (p_tf k) ! 7) :: u32))) (\<lambda>num.
     case syscalls num of
       Some f \<Rightarrow>
         bnd f (\<lambda>v.
         pset p (\<lambda>k. k\<lparr>p_tf := set_a0 v (p_tf k)\<rparr>))
     | None \<Rightarrow>
         bnd (pget p id) (\<lambda>k.
         sq (kprintf (''%d %s: unknown sys call %d'' @ [CHR 0x0A])
               [Reg (word_of_int (p_pid k)), Ptr (Some (name_string (p_name k))), Reg (word_of_int num)])
            (pset p (\<lambda>k. k\<lparr>p_tf := set_a0 (- 1) (p_tf k)\<rparr>)))))"

section \<open>The interrupt controller\<close>

definition UART0_IRQ :: nat where "UART0_IRQ = 10"
definition VIRTIO0_IRQ :: nat where "VIRTIO0_IRQ = 1"

definition plic_write :: "addr \<Rightarrow> u32 \<Rightarrow> ('z k_st_scheme, unit) kernel" where
  "plic_write a v = upd (\<lambda>s. s\<lparr>plic_wr := plic_wr s @ [(a, v)]\<rparr>)"

definition plicinit :: "('z k_st_scheme, unit) kernel" where
  "plicinit =
     sq (plic_write (PLIC + of_nat UART0_IRQ * 4) 1)
        (plic_write (PLIC + of_nat VIRTIO0_IRQ * 4) 1)"

definition plicinithart :: "('z k_st_scheme, unit) kernel" where
  "plicinithart =
     bnd (get cpu_id) (\<lambda>hart.
     sq (plic_write (PLIC + 0x2080 + of_nat hart * 0x100) (push_bit UART0_IRQ 1 OR push_bit VIRTIO0_IRQ 1))
        (plic_write (PLIC + 0x201000 + of_nat hart * 0x2000) 0))"

definition plic_claim :: "('z k_st_scheme, nat) kernel" where
  "plic_claim =
     bnd (get plic_pending) (\<lambda>irqs.
     case irqs of
       [] \<Rightarrow> ret 0
     | irq # irqs \<Rightarrow> sq (upd (\<lambda>s. s\<lparr>plic_pending := irqs\<rparr>)) (ret irq))"

definition plic_complete :: "nat \<Rightarrow> ('z k_st_scheme, unit) kernel" where
  "plic_complete irq =
     bnd (get cpu_id) (\<lambda>hart.
     plic_write (PLIC + 0x201004 + of_nat hart * 0x2000) (of_nat irq))"

section \<open>Traps\<close>

definition SSTATUS_SPP :: u64 where "SSTATUS_SPP = push_bit 8 1"
definition SSTATUS_SPIE :: u64 where "SSTATUS_SPIE = push_bit 5 1"
definition SSTATUS_SIE :: u64 where "SSTATUS_SIE = push_bit 1 1"

definition trapinithart :: "('z k_st_scheme, unit) kernel" where
  "trapinithart = upd (\<lambda>s. s\<lparr>r_stvec := kernelvec_addr s\<rparr>)"

definition clockintr :: "('z k_st_scheme, unit) kernel" where
  "clockintr =
     bnd (get cpu_id) (\<lambda>c.
     sq (whenk (c = 0) (
          sq (lock_acquire L_ticks) (
          sq (upd (\<lambda>s. s\<lparr>ticks := ticks s + 1\<rparr>)) (
          sq (wakeup Chan_ticks)
             (lock_release L_ticks)))))
        (upd (\<lambda>s. s\<lparr>r_stimecmp := r_time s + 1000000\<rparr>)))"

definition devintr :: "('z k_st_scheme, nat) kernel" where
  "devintr =
     bnd (get r_scause) (\<lambda>scause.
     if scause = 0x8000000000000009
     then bnd plic_claim (\<lambda>irq.
          sq (if irq = UART0_IRQ then uartintr
              else if irq = VIRTIO0_IRQ then virtio_disk_intr
              else whenk (irq \<noteq> 0) (kprintf (''unexpected interrupt irq=%d'' @ [CHR 0x0A]) [Reg (of_nat irq)])) (
          sq (whenk (irq \<noteq> 0) (plic_complete irq))
             (ret 1)))
     else if scause = 0x8000000000000005
     then sq clockintr (ret 2)
     else ret 0)"

definition prepare_return :: "('z k_st_scheme, unit) kernel" where
  "prepare_return =
     bnd myproc (\<lambda>p.
     sq (upd (\<lambda>s. s\<lparr>r_sstatus := r_sstatus s AND NOT SSTATUS_SIE\<rparr>)) (
     sq (upd (\<lambda>s. s\<lparr>r_stvec := TRAMPOLINE + (uservec_addr s - trampoline s)\<rparr>)) (
     bnd (get satp) (\<lambda>ksatp.
     sq (pset p (\<lambda>k. k\<lparr>p_tf := (p_tf k)\<lparr>tf_kernel_satp := ksatp\<rparr>\<rparr>)) (
     sq (pset p (\<lambda>k. k\<lparr>p_tf := (p_tf k)\<lparr>tf_kernel_sp := p_kstack k + PGSIZE\<rparr>\<rparr>)) (
     bnd (get usertrap_addr) (\<lambda>ut.
     sq (pset p (\<lambda>k. k\<lparr>p_tf := (p_tf k)\<lparr>tf_kernel_trap := ut\<rparr>\<rparr>)) (
     bnd (get cpu_id) (\<lambda>c.
     sq (pset p (\<lambda>k. k\<lparr>p_tf := (p_tf k)\<lparr>tf_kernel_hartid := of_nat c\<rparr>\<rparr>)) (
     sq (upd (\<lambda>s. s\<lparr>r_sstatus := (r_sstatus s AND NOT SSTATUS_SPP) OR SSTATUS_SPIE\<rparr>)) (
     bnd (pget p (\<lambda>k. tf_epc (p_tf k))) (\<lambda>epc.
     upd (\<lambda>s. s\<lparr>r_sepc := epc\<rparr>)))))))))))))"

text \<open>\<^verbatim>\<open>usertrap\<close> returns the \<^verbatim>\<open>satp\<close> value of the user page table.\<close>

definition usertrap :: "('z k_st_scheme, u64) kernel" where
  "usertrap =
     bnd (get r_sstatus) (\<lambda>sstatus.
     sq (unless_panic (sstatus AND SSTATUS_SPP = 0) ''usertrap: not from user mode'') (
     sq (upd (\<lambda>s. s\<lparr>r_stvec := kernelvec_addr s\<rparr>)) (
     bnd myproc (\<lambda>p.
     bnd (get r_sepc) (\<lambda>sepc.
     sq (pset p (\<lambda>k. k\<lparr>p_tf := (p_tf k)\<lparr>tf_epc := sepc\<rparr>\<rparr>)) (
     bnd (get r_scause) (\<lambda>scause.
     bnd (if scause = 8
          then bnd (killed p) (\<lambda>dead.
               if dead then kexit (- 1)
               else
               sq (pset p (\<lambda>k. k\<lparr>p_tf := (p_tf k)\<lparr>tf_epc := tf_epc (p_tf k) + 4\<rparr>\<rparr>)) (
               sq (upd (\<lambda>s. s\<lparr>r_sstatus := r_sstatus s OR SSTATUS_SIE\<rparr>)) (
               sq syscall
                  (ret 0))))
          else bnd devintr (\<lambda>which_dev.
               if which_dev \<noteq> 0 then ret which_dev
               else
               bnd (get r_stval) (\<lambda>stval.
               bnd (pget p p_pagetable) (\<lambda>pagetable.
               bnd (if scause = 15 \<or> scause = 13 then vmfault pagetable stval else ret 0) (\<lambda>pa.
               if pa \<noteq> 0 then ret 0
               else
               bnd (pget p p_pid) (\<lambda>pid.
               sq (kprintf (''usertrap(): unexpected scause 0x%lx pid=%d'' @ [CHR 0x0A])
                     [Reg scause, Reg (word_of_int pid)]) (
               sq (kprintf (''            sepc=0x%lx stval=0x%lx'' @ [CHR 0x0A]) [Reg sepc, Reg stval]) (
               sq (setkilled p)
                  (ret 0))))))))) (\<lambda>which_dev.
     bnd (killed p) (\<lambda>dead.
     if dead then kexit (- 1)
     else
     sq (whenk (which_dev = 2) yield) (
     sq prepare_return (
     bnd (pget p p_pagetable) (\<lambda>pagetable.
     ret (MAKE_SATP pagetable)))))))))))))"

text \<open>Interrupts are off while a spin lock is held or the handler runs, \<^verbatim>\<open>intr_get\<close> reads it.\<close>

definition kerneltrap :: "('z k_st_scheme, unit) kernel" where
  "kerneltrap =
     bnd (get r_sepc) (\<lambda>sepc.
     bnd (get r_sstatus) (\<lambda>sstatus.
     bnd (get r_scause) (\<lambda>scause.
     sq (unless_panic (sstatus AND SSTATUS_SPP \<noteq> 0) ''kerneltrap: not from supervisor mode'') (
     sq (unless_panic (sstatus AND SSTATUS_SIE = 0) ''kerneltrap: interrupts enabled'') (
     bnd devintr (\<lambda>which_dev.
     if which_dev = 0
     then bnd (get r_stval) (\<lambda>stval.
          sq (kprintf (''scause=0x%lx sepc=0x%lx stval=0x%lx'' @ [CHR 0x0A]) [Reg scause, Reg sepc, Reg stval])
             (panic ''kerneltrap''))
     else
     bnd (get curproc) (\<lambda>me.
     sq (whenk (which_dev = 2 \<and> me \<noteq> None) yield) (
     sq (upd (\<lambda>s. s\<lparr>r_sepc := sepc\<rparr>))
        (upd (\<lambda>s. s\<lparr>r_sstatus := sstatus\<rparr>))))))))))"

section \<open>The first process and the boot\<close>

definition init_path :: "byte list" where
  "init_path = [47, 105, 110, 105, 116]"

definition forkret :: "('z k_st_scheme, u64) kernel" where
  "forkret =
     bnd myproc (\<lambda>p.
     sq (lock_release (L_proc p)) (
     bnd (get first_ret) (\<lambda>fst_time.
     sq (whenk fst_time (
          sq (fsinit ROOTDEV) (
          sq (upd (\<lambda>s. s\<lparr>first_ret := False\<rparr>)) (
          bnd (kexec init_path [init_path]) (\<lambda>r.
          sq (pset p (\<lambda>k. k\<lparr>p_tf := set_a0 (word_of_int r) (p_tf k)\<rparr>)) (
          bnd (pget p (\<lambda>k. tf_a (p_tf k) ! 0)) (\<lambda>a0.
          unless_panic (a0 \<noteq> - 1) ''exec''))))))) (
     sq prepare_return (
     bnd (pget p p_pagetable) (\<lambda>pagetable.
     ret (MAKE_SATP pagetable)))))))"

definition main_init :: "('z k_st_scheme, unit) kernel" where
  "main_init =
     sq consoleinit (
     sq (kprintf [CHR 0x0A] []) (
     sq (kprintf (''xv6 kernel is booting'' @ [CHR 0x0A]) []) (
     sq (kprintf [CHR 0x0A] []) (
     sq kinit (
     sq kvminit (
     sq kvminithart (
     sq procinit (
     sq trapinithart (
     sq plicinit (
     sq plicinithart (
     sq binit (
     sq iinit (
     sq virtio_disk_init
        userinit)))))))))))))"

definition main_other :: "('z k_st_scheme, unit) kernel" where
  "main_other =
     bnd (get cpu_id) (\<lambda>c.
     sq (kprintf (''hart %d starting'' @ [CHR 0x0A]) [Reg (of_nat c)]) (
     sq kvminithart (
     sq trapinithart
        plicinithart)))"

end
