(* ===== verification/Ring.thy ===== *)
theory Ring
  imports Prelude
begin

text \<open>
  Ring buffers as the kernel has them (\<^verbatim>\<open>struct pipe\<close>, the console's \<^verbatim>\<open>cons.buf\<close>): an array
  of \<open>N\<close> cells and two free-running 32-bit counters that are reduced modulo \<open>N\<close> only to index
  the array.  \<open>ring\<close> is the queue such a buffer holds; because \<open>N\<close> divides \<open>2 ^ 32\<close> the counters
  may wrap around.  The locale \<open>fifo\<close> is the contract of a bounded queue.
\<close>

section \<open>The content of a ring\<close>

definition ring :: "nat \<Rightarrow> 'a list \<Rightarrow> u32 \<Rightarrow> u32 \<Rightarrow> 'a list" where
  "ring N buf r w = map (\<lambda>i. buf ! (unat (r + of_nat i) mod N)) [0..<unat (w - r)]"

definition ring_size :: "nat \<Rightarrow> bool" where
  "ring_size N \<longleftrightarrow> 0 < N \<and> N dvd 2 ^ 32 \<and> N < 2 ^ 32"

lemma unat_u32_less: "unat (x :: u32) < 2 ^ 32"
proof -
  have "unat x < 2 ^ LENGTH(32)" by (rule unsigned_less)
  then show ?thesis by simp
qed

lemma length_ring [simp]: "length (ring N buf r w) = unat (w - r)"
  by (simp add: ring_def)

lemma ring_empty_iff: "ring N buf r w = [] \<longleftrightarrow> r = w"
  by (auto simp: ring_def unat_eq_zero)

lemma ring_same [simp]: "ring N buf r r = []"
  by (simp add: ring_def)

lemma mod_plus_u32: "ring_size N \<Longrightarrow> unat (r + of_nat i :: u32) mod N = (unat r + i) mod N"
proof -
  assume "ring_size N"
  then have d: "N dvd 2 ^ 32" by (simp add: ring_size_def)
  have "unat (r + of_nat i) = (unat r + i) mod 2 ^ 32"
    by (simp add: unat_word_ariths unat_of_nat take_bit_eq_mod mod_add_right_eq)
  then show ?thesis using d by (simp add: mod_mod_cancel)
qed

lemma ring_nth: "ring_size N \<Longrightarrow> i < unat (w - r) \<Longrightarrow> ring N buf r w ! i = buf ! ((unat r + i) mod N)"
  by (simp add: ring_def mod_plus_u32)

lemma unat_diff_Suc: "unat (w - r) < 2 ^ 32 - 1 \<Longrightarrow> unat (w + 1 - r) = Suc (unat (w - r))" for w r :: u32
proof -
  assume a: "unat (w - r) < 2 ^ 32 - 1"
  have "w + 1 - r = (w - r) + 1" by simp
  moreover have "unat ((w - r) + 1) = Suc (unat (w - r))"
    using a by (simp only: unat_word_ariths) simp
  ultimately show ?thesis by (simp only:)
qed

lemma unat_diff_next: "r \<noteq> w \<Longrightarrow> unat (w - r) = Suc (unat (w - (r + 1)))" for w r :: u32
proof -
  assume "r \<noteq> w"
  then have "w - r \<noteq> 0" by simp
  then have "unat (w - r - 1) = unat (w - r) - 1" "0 < unat (w - r)"
    by (simp_all add: unat_minus_one unat_gt_0)
  moreover have "w - (r + 1) = w - r - 1" by simp
  ultimately show ?thesis by (simp only: Suc_pred One_nat_def)
qed

lemma mod_near: "(a + i) mod N = (a + j) mod N \<Longrightarrow> i < N \<Longrightarrow> j < N \<Longrightarrow> i = j" for a i j N :: nat
proof (induction i j rule: linorder_wlog)
  case (le i j)
  then have "N dvd (a + j) - (a + i)" by (metis mod_eq_dvd_iff_nat add_le_cancel_left)
  then have "N dvd j - i" by simp
  moreover have "j - i < N" using le by simp
  ultimately have "j - i = 0" using nat_dvd_not_less by blast
  with le show ?case by simp
next
  case (sym i j)
  then show ?case by simp
qed

lemma ring_put:
  assumes N: "ring_size N" and len: "length buf = N" and room: "unat (w - r) < N"
  shows "ring N (buf[unat w mod N := c]) r (w + 1) = ring N buf r w @ [c]"
proof (rule nth_equalityI)
  have n: "unat (w + 1 - r) = Suc (unat (w - r))"
    using N room by (intro unat_diff_Suc) (simp add: ring_size_def)
  show "length (ring N (buf[unat w mod N := c]) r (w + 1)) = length (ring N buf r w @ [c])"
    by (simp add: n)
  have w: "unat w mod N = (unat r + unat (w - r)) mod N"
    using mod_plus_u32 [OF N, of r "unat (w - r)"] by simp
  fix i assume "i < length (ring N (buf[unat w mod N := c]) r (w + 1))"
  then have i: "i \<le> unat (w - r)" by (simp add: n)
  have pos: "(unat r + i) mod N < N" for i using N by (simp add: ring_size_def)
  show "ring N (buf[unat w mod N := c]) r (w + 1) ! i = (ring N buf r w @ [c]) ! i"
  proof (cases "i < unat (w - r)")
    case True
    then have "unat w mod N \<noteq> (unat r + i) mod N"
      unfolding w using mod_near [of "unat r" "unat (w - r)" N i] room by auto
    then show ?thesis using True N n by (simp add: ring_nth nth_append)
  next
    case False
    then have "i = unat (w - r)" using i by simp
    then show ?thesis using N n w pos len by (simp add: ring_nth nth_append)
  qed
qed

lemma ring_get:
  assumes "ring_size N" "r \<noteq> w"
  shows "ring N buf r w = buf ! (unat r mod N) # ring N buf (r + 1) w"
proof (rule nth_equalityI)
  show "length (ring N buf r w) = length (buf ! (unat r mod N) # ring N buf (r + 1) w)"
    using assms(2) by (simp add: unat_diff_next)
  fix i assume "i < length (ring N buf r w)"
  then have i: "i < unat (w - r)" by simp
  show "ring N buf r w ! i = (buf ! (unat r mod N) # ring N buf (r + 1) w) ! i"
  proof (cases i)
    case 0
    then show ?thesis using i by (simp add: ring_def)
  next
    case (Suc k)
    then have k: "k < unat (w - (r + 1))" using i assms(2) by (simp add: unat_diff_next)
    have "r + of_nat (Suc k) = r + 1 + of_nat k" by (simp add: add.assoc)
    then have "ring N buf r w ! Suc k = ring N buf (r + 1) w ! k"
      using i k Suc by (simp only: ring_def length_map length_upt nth_map nth_upt add_0 diff_zero)
    then show ?thesis using Suc by simp
  qed
qed

lemma ring_unput:
  assumes "r \<noteq> w"
  shows "ring N buf r (w - 1) = butlast (ring N buf r w)"
proof -
  have "w - 1 - r = w - r - 1" "w - r \<noteq> 0" using assms by simp_all
  then have "unat (w - 1 - r) = unat (w - r) - 1" by (metis unat_minus_one)
  moreover have "butlast [0..<n] = [0..<n - 1]" for n :: nat by (cases n) simp_all
  ultimately show ?thesis by (simp add: ring_def map_butlast [symmetric])
qed

lemma ring_last:
  assumes "r \<noteq> w"
  shows "last (ring N buf r w) = buf ! (unat (w - 1) mod N)"
proof -
  have "0 < unat (w - r)" using assms by (simp add: unat_gt_0)
  moreover have "r + of_nat (unat (w - r) - 1) = w - 1"
  proof -
    have "w - r \<noteq> 0" using assms by simp
    then have "unat (w - r) - 1 = unat (w - r - 1)" by (simp add: unat_minus_one)
    then show ?thesis by simp
  qed
  ultimately show ?thesis by (simp add: ring_def last_map last_conv_nth)
qed

text \<open>A middle counter splits the queue.\<close>

lemma ring_split:
  assumes "unat (w - r) + unat (e - w) < 2 ^ 32"
  shows "ring N buf r e = ring N buf r w @ ring N buf w e"
proof (rule nth_equalityI)
  have e: "e - r = (w - r) + (e - w)" by simp
  have len: "unat (e - r) = unat (w - r) + unat (e - w)"
    unfolding e using assms by (simp only: unat_word_ariths) simp
  then show "length (ring N buf r e) = length (ring N buf r w @ ring N buf w e)" by simp
  fix i assume "i < length (ring N buf r e)"
  then have i: "i < unat (w - r) + unat (e - w)" using len by simp
  show "ring N buf r e ! i = (ring N buf r w @ ring N buf w e) ! i"
  proof (cases "i < unat (w - r)")
    case True
    then show ?thesis using i len by (simp add: ring_def nth_append)
  next
    case False
    then have "r + of_nat i = w + of_nat (i - unat (w - r))"
      by (simp add: of_nat_diff)
    then have "ring N buf r e ! i = ring N buf w e ! (i - unat (w - r))"
      using i len False by (simp only: ring_def length_map length_upt nth_map nth_upt add_0 diff_zero) simp
    then show ?thesis using False by (simp add: nth_append)
  qed
qed

section \<open>Bounded queues\<close>

text \<open>
  What a component promises of a bounded queue: the queue of a good representation, how adding
  and taking change it, and that both keep the representation good.  Adding is allowed while
  the queue is shorter than the capacity, taking while it is not empty.
\<close>

locale fifo =
  fixes good :: "'q \<Rightarrow> bool" and items :: "'q \<Rightarrow> 'a list" and cap :: nat
    and put :: "'a \<Rightarrow> 'q \<Rightarrow> 'q" and get_item :: "'q \<Rightarrow> 'a \<times> 'q"
  assumes items_put: "good q \<Longrightarrow> length (items q) < cap \<Longrightarrow> items (put a q) = items q @ [a]"
    and good_put: "good q \<Longrightarrow> length (items q) < cap \<Longrightarrow> good (put a q)"
    and items_get: "good q \<Longrightarrow> items q \<noteq> [] \<Longrightarrow> items q = fst (get_item q) # items (snd (get_item q))"
    and good_get: "good q \<Longrightarrow> items q \<noteq> [] \<Longrightarrow> good (snd (get_item q))"
    and bounded: "good q \<Longrightarrow> length (items q) \<le> cap"
begin

text \<open>Any number of additions that fit, and any number of removals.\<close>

primrec puts :: "'a list \<Rightarrow> 'q \<Rightarrow> 'q" where
  "puts [] q = q"
| "puts (a # as) q = puts as (put a q)"

primrec takes :: "nat \<Rightarrow> 'q \<Rightarrow> 'a list \<times> 'q" where
  "takes 0 q = ([], q)"
| "takes (Suc n) q = (let (a, q') = get_item q; (as, q'') = takes n q' in (a # as, q''))"

lemma puts_items:
  "good q \<Longrightarrow> length (items q) + length as \<le> cap \<Longrightarrow> good (puts as q) \<and> items (puts as q) = items q @ as"
  by (induction as arbitrary: q) (simp_all add: items_put good_put)

lemma takes_items:
  "good q \<Longrightarrow> n \<le> length (items q) \<Longrightarrow>
     fst (takes n q) = take n (items q) \<and> good (snd (takes n q)) \<and> items (snd (takes n q)) = drop n (items q)"
proof (induction n arbitrary: q)
  case 0
  then show ?case by simp
next
  case (Suc n)
  obtain a q' where g: "get_item q = (a, q')" by fastforce
  have "items q \<noteq> []" using Suc.prems(2) by auto
  then have i: "items q = a # items q'" "good q'" using items_get good_get Suc.prems(1) g by force+
  obtain as q'' where t: "takes n q' = (as, q'')" by fastforce
  have "as = take n (items q') \<and> good q'' \<and> items q'' = drop n (items q')"
    using Suc.IH [of q'] i Suc.prems(2) t by simp
  then show ?case using g t i by simp
qed

end

end
