(* ===== verification/Uspace.thy ===== *)
theory Uspace
  imports VM
begin

text \<open>
  User memory as a process sees it.  \<open>mapped\<close> and \<open>upa\<close> are the translation of the hardware
  through the three levels of a page table; \<open>uspace m r P\<close> says that the table at \<open>r\<close> maps the
  pages \<open>P\<close> to frames of their own, apart from the entries the translation itself reads.  In
  such a space \<open>copyout\<close> and \<open>copyin\<close> write and read user memory, and nothing else.
\<close>

section \<open>Translation\<close>

definition slot2 :: "addr \<Rightarrow> addr \<Rightarrow> addr" where
  "slot2 r va = r + 8 * PX 2 va"

definition slot1 :: "memory \<Rightarrow> addr \<Rightarrow> addr \<Rightarrow> addr" where
  "slot1 m r va = PTE2PA (load64 m (slot2 r va)) + 8 * PX 1 va"

definition slot0 :: "memory \<Rightarrow> addr \<Rightarrow> addr \<Rightarrow> addr" where
  "slot0 m r va = PTE2PA (load64 m (slot1 m r va)) + 8 * PX 0 va"

definition slots :: "memory \<Rightarrow> addr \<Rightarrow> addr \<Rightarrow> addr set" where
  "slots m r va = region (slot2 r va) 8 \<union> region (slot1 m r va) 8 \<union> region (slot0 m r va) 8"

definition pte :: "memory \<Rightarrow> addr \<Rightarrow> addr \<Rightarrow> u64" where
  "pte m r va = load64 m (slot0 m r va)"

definition mapped :: "memory \<Rightarrow> addr \<Rightarrow> addr \<Rightarrow> bool" where
  "mapped m r va \<longleftrightarrow> va < MAXVA \<and>
     slot2 r va \<noteq> 0 \<and> load64 m (slot2 r va) AND PTE_V \<noteq> 0 \<and>
     slot1 m r va \<noteq> 0 \<and> load64 m (slot1 m r va) AND PTE_V \<noteq> 0 \<and>
     slot0 m r va \<noteq> 0 \<and> pte m r va AND PTE_V \<noteq> 0 \<and> pte m r va AND PTE_U \<noteq> 0 \<and> PTE2PA (pte m r va) \<noteq> 0"

definition ppage :: "memory \<Rightarrow> addr \<Rightarrow> addr \<Rightarrow> addr" where
  "ppage m r va = PTE2PA (pte m r va)"

definition upa :: "memory \<Rightarrow> addr \<Rightarrow> addr \<Rightarrow> addr" where
  "upa m r va = ppage m r (PGROUNDDOWN va) + (va - PGROUNDDOWN va)"

definition uread :: "memory \<Rightarrow> addr \<Rightarrow> addr \<Rightarrow> byte" where
  "uread m r va = m (upa m r va)"

definition uspace :: "memory \<Rightarrow> addr \<Rightarrow> addr set \<Rightarrow> bool" where
  "uspace m r P \<longleftrightarrow> (\<forall>v\<in>P. page_aligned v \<and> mapped m r v) \<and>
     (\<forall>v\<in>P. \<forall>w\<in>P. page (ppage m r v) \<inter> slots m r w = {}) \<and>
     (\<forall>v\<in>P. \<forall>w\<in>P. v \<noteq> w \<longrightarrow> page (ppage m r v) \<inter> page (ppage m r w) = {})"

definition uwritable :: "memory \<Rightarrow> addr \<Rightarrow> addr set \<Rightarrow> bool" where
  "uwritable m r P \<longleftrightarrow> (\<forall>v\<in>P. pte m r v AND PTE_W \<noteq> 0)"

definition pages_of :: "addr \<Rightarrow> nat \<Rightarrow> addr set" where
  "pages_of a n = (\<lambda>i. PGROUNDDOWN (a + of_nat i)) ` {..<n}"

lemma load64_cong: "(\<And>x. x \<in> region a 8 \<Longrightarrow> m x = m' x) \<Longrightarrow> load64 m a = load64 m' a"
  unfolding load64_def by (rule arg_cong [where f = le_word], rule mem_read_cong) auto

lemma slots_frame:
  assumes "\<And>x. x \<in> slots m r va \<Longrightarrow> m' x = m x"
  shows "slot1 m' r va = slot1 m r va" "slot0 m' r va = slot0 m r va" "pte m' r va = pte m r va"
    "slots m' r va = slots m r va" "mapped m' r va = mapped m r va" "ppage m' r va = ppage m r va"
proof -
  have e2: "load64 m' (slot2 r va) = load64 m (slot2 r va)"
    using assms by (intro load64_cong) (simp add: slots_def)
  then show s1: "slot1 m' r va = slot1 m r va" by (simp add: slot1_def)
  have e1: "load64 m' (slot1 m r va) = load64 m (slot1 m r va)"
    using assms by (intro load64_cong) (simp add: slots_def)
  then show s0: "slot0 m' r va = slot0 m r va" by (simp add: slot0_def s1)
  have "load64 m' (slot0 m r va) = load64 m (slot0 m r va)"
    using assms by (intro load64_cong) (simp add: slots_def)
  then show p: "pte m' r va = pte m r va" by (simp add: pte_def s0)
  show "slots m' r va = slots m r va" "mapped m' r va = mapped m r va" "ppage m' r va = ppage m r va"
    by (simp_all add: slots_def s0 s1 mapped_def e1 e2 p ppage_def)
qed

lemma rd64_run: "rd64 a s = (if a = 0 then Panic ''kerneltrap'' else Ok (load64 (mem s) a) s)"
  by (simp add: rd64_def sq_run)

lemma walk_mapped:
  assumes "mapped (mem s) r va"
  shows "walk r va False s = Ok (slot0 (mem s) r va) s"
  using assms unfolding mapped_def walk_def numeral_2_eq_2
  by (simp add: sq_run bnd_run rd64_run Let_def slot2_def slot1_def slot0_def numeral_2_eq_2 not_le)

lemma walkaddr_mapped: "mapped (mem s) r va \<Longrightarrow> walkaddr r va s = Ok (ppage (mem s) r va) s"
  using walk_mapped [of s r va]
  by (auto simp: walkaddr_def bnd_run rd64_run mapped_def pte_def ppage_def)

lemma user_page_mapped: "mapped (mem s) r va \<Longrightarrow> user_page r va s = Ok (ppage (mem s) r va) s"
  using walkaddr_mapped [of s r va] by (simp add: user_page_def bnd_run mapped_def ppage_def)

section \<open>Addresses within pages\<close>

lemma PGROUNDDOWN_plus:
  assumes "page_aligned v" "k < 4096"
  shows "PGROUNDDOWN (v + of_nat k) = v"
proof -
  from assms(1) obtain a where a: "unat v = 4096 * a" by (auto simp: page_aligned_unat mod_eq_0_iff_dvd dvd_def)
  have "a < 2 ^ 52" using a unat_addr_less [of v] by simp
  then have "unat (v + of_nat k) = 4096 * a + k"
    using a assms(2) by (simp add: unat_word_ariths unat_of_nat take_bit_eq_mod)
  then have "unat (PGROUNDDOWN (v + of_nat k)) = unat v" using a assms(2) by (simp add: unat_PGROUNDDOWN)
  then show ?thesis by (simp only: word_unat_eq_iff)
qed

definition poff :: "addr \<Rightarrow> nat" where
  "poff va = unat (va - PGROUNDDOWN va)"

lemma poff: "poff va < 4096" "va = PGROUNDDOWN va + of_nat (poff va)"
proof -
  have "PGROUNDDOWN va \<le> va" by (simp add: word_le_nat_alt unat_PGROUNDDOWN)
  then have "poff va = unat va - unat va div 4096 * 4096"
    by (simp add: poff_def unat_sub unat_PGROUNDDOWN)
  then show "poff va < 4096" using minus_div_mult_eq_mod [of "unat va" 4096] by simp
  show "va = PGROUNDDOWN va + of_nat (poff va)" by (simp add: poff_def)
qed

lemma poff_plus: "page_aligned v \<Longrightarrow> k < 4096 \<Longrightarrow> poff (v + of_nat k) = k"
  by (simp add: poff_def PGROUNDDOWN_plus unat_of_nat take_bit_eq_mod)

lemma poff_unique: "page_aligned v \<Longrightarrow> va = v + of_nat k \<Longrightarrow> k < 4096 \<Longrightarrow> PGROUNDDOWN va = v \<and> poff va = k"
  using PGROUNDDOWN_plus poff_plus by blast

lemma upa_page: "upa m r va \<in> page (ppage m r (PGROUNDDOWN va))"
  using poff(1) [of va] by (simp add: upa_def region_def poff_def)

lemma upa_poff: "upa m r va = ppage m r (PGROUNDDOWN va) + of_nat (poff va)"
  by (simp add: upa_def poff_def)

section \<open>One page\<close>

lemma unat_sub_of_nat: "k < 2 ^ 64 \<Longrightarrow> unat (d - of_nat k) = (if k \<le> unat d then unat d - k else unat d + 2 ^ 64 - k)" for d :: addr
proof -
  assume "k < 2 ^ 64"
  then have k: "unat (of_nat k :: addr) = k" by (simp add: unat_of_nat take_bit_eq_mod)
  show ?thesis unfolding unat_sub_if_size k by (simp add: word_size)
qed

lemma uspaceD:
  assumes "uspace m r P" "v \<in> P"
  shows "page_aligned v" "mapped m r v" "w \<in> P \<Longrightarrow> page (ppage m r v) \<inter> slots m r w = {}"
    "w \<in> P \<Longrightarrow> v \<noteq> w \<Longrightarrow> page (ppage m r v) \<inter> page (ppage m r w) = {}"
  using assms by (auto simp: uspace_def)

text \<open>Writing within the frame of a page of the space.\<close>

lemma write_page:
  assumes "uspace m r P" "v \<in> P" "off + length bs \<le> 4096"
  defines "m' \<equiv> mem_write m (ppage m r v + of_nat off) bs"
  shows "uspace m' r P" "\<And>w. w \<in> P \<Longrightarrow> ppage m' r w = ppage m r w" "\<And>w. w \<in> P \<Longrightarrow> pte m' r w = pte m r w"
    "\<And>x. x \<notin> page (ppage m r v) \<Longrightarrow> m' x = m x"
    "\<And>va. PGROUNDDOWN va \<in> P \<Longrightarrow> uread m' r va =
      (if PGROUNDDOWN va = v \<and> off \<le> poff va \<and> poff va < off + length bs then bs ! (poff va - off) else uread m r va)"
proof -
  have sub: "region (ppage m r v + of_nat off) (length bs) \<subseteq> page (ppage m r v)"
    using assms(3) by (intro region_offset) simp_all
  show out: "m' x = m x" if "x \<notin> page (ppage m r v)" for x
    unfolding m'_def using that sub by (intro mem_write_other) blast
  have keep: "m' x = m x" if "x \<in> slots m r w" "w \<in> P" for x w
    using uspaceD(3) [OF assms(1,2) that(2)] that(1) by (intro out) blast
  have fr: "pte m' r w = pte m r w" "ppage m' r w = ppage m r w" "slots m' r w = slots m r w"
      "mapped m' r w = mapped m r w" if "w \<in> P" for w
  proof -
    have k: "m' x = m x" if "x \<in> slots m r w" for x by (rule keep [OF that \<open>w \<in> P\<close>])
    show "pte m' r w = pte m r w" "ppage m' r w = ppage m r w" "slots m' r w = slots m r w"
      "mapped m' r w = mapped m r w"
      using slots_frame [of m r w m'] k by blast+
  qed
  show pp: "ppage m' r w = ppage m r w" "pte m' r w = pte m r w" if "w \<in> P" for w
    by (rule fr [OF that])+
  note sl = fr(3,4)
  show "uspace m' r P" using assms(1) unfolding uspace_def by (simp add: pp sl)
  show "uread m' r va =
      (if PGROUNDDOWN va = v \<and> off \<le> poff va \<and> poff va < off + length bs then bs ! (poff va - off) else uread m r va)"
    if "PGROUNDDOWN va \<in> P" for va
  proof -
    have u: "upa m' r va = upa m r va" by (simp add: upa_def pp that)
    show ?thesis
    proof (cases "PGROUNDDOWN va = v")
      case True
      have d: "upa m r va - (ppage m r v + of_nat off) = of_nat (poff va) - of_nat off"
        by (simp add: upa_poff True)
      define j where "j = unat (upa m r va - (ppage m r v + of_nat off))"
      have pv: "unat (of_nat (poff va) :: addr) = poff va"
        using poff(1) [of va] by (simp add: unat_of_nat take_bit_eq_mod)
      have j: "j = (if off \<le> poff va then poff va - off else poff va + 2 ^ 64 - off)"
        unfolding j_def d using assms(3) by (subst unat_sub_of_nat) (simp_all add: pv)
      have "uread m' r va = m' (upa m r va)" by (simp only: uread_def u)
      also have "\<dots> = (if j < length bs then bs ! j else uread m r va)"
        by (simp add: uread_def m'_def mem_write_def j_def)
      finally show ?thesis using True poff(1) [of va] assms(3) j by (cases "off \<le> poff va") auto
    next
      case False
      have "upa m r va \<notin> page (ppage m r v)"
        using uspaceD(4) [OF assms(1,2) that] upa_page [of m r va] False by blast
      then show ?thesis using False by (simp add: uread_def u out)
    qed
  qed
qed

section \<open>Copies\<close>

lemma PGROUNDDOWN_aligned [simp]: "page_aligned (PGROUNDDOWN va)"
  by (simp add: page_aligned_unat unat_PGROUNDDOWN)

lemma plus_poff: "a + of_nat j = PGROUNDDOWN a + of_nat (poff a + j)"
  using arg_cong [OF poff(2), of "\<lambda>x. x + of_nat j" a] by (simp only: of_nat_add add.assoc)

text \<open>The part of a transfer that lies on its first page.\<close>

lemma first_page:
  assumes "n \<le> 4096 - poff a"
  shows "PGROUNDDOWN va = PGROUNDDOWN a \<and> poff a \<le> poff va \<and> poff va < poff a + n \<longleftrightarrow> unat (va - a) < n" (is "?l = ?r")
    and "unat (va - a) < n \<Longrightarrow> poff va - poff a = unat (va - a)"
proof -
  have va: "va = PGROUNDDOWN a + of_nat (poff a + j) \<and> poff a + j < 4096" if "unat (va - a) < n" "j = unat (va - a)" for j
  proof -
    have "va = a + of_nat j" using that(2) by simp
    then have "va = PGROUNDDOWN a + of_nat (poff a + j)" by (rule trans) (rule plus_poff)
    moreover have "j < 4096 - poff a" using assms that by (simp only: order.strict_trans2)
    ultimately show ?thesis by (simp only: less_diff_conv add.commute simp_thms)
  qed
  have off: "unat (va - a) = poff va - poff a" if ?l
  proof -
    have "PGROUNDDOWN a + of_nat (poff a + (poff va - poff a)) = PGROUNDDOWN va + of_nat (poff va)"
      using that by simp
    then have "va = a + of_nat (poff va - poff a)"
      by (rule trans [OF poff(2) trans [OF sym plus_poff [symmetric]]])
    moreover have "poff va - poff a < 2 ^ 64" using poff(1) [of va] by simp
    ultimately show ?thesis using eq_offset_iff by blast
  qed
  have in_page: "PGROUNDDOWN va = PGROUNDDOWN a \<and> poff va = poff a + unat (va - a)" if ?r
    using va [OF that refl] poff_unique [of "PGROUNDDOWN a" va "poff a + unat (va - a)"] by simp
  show "?l = ?r" using off in_page by (metis add_less_cancel_left le_add1 le_add_diff_inverse)
  show "poff va - poff a = unat (va - a)" if ?r using in_page [OF that] by simp
qed

lemma page_room: "unat (PGSIZE - (a - PGROUNDDOWN a)) = 4096 - poff a"
  using poff(1) [of a] by (simp add: PGSIZE_def poff_def unat_sub_if_size word_size)

lemma next_page: "PGROUNDDOWN a + PGSIZE = a + of_nat (4096 - poff a)"
proof -
  have "a + of_nat (4096 - poff a) = PGROUNDDOWN a + of_nat (poff a + (4096 - poff a))"
    by (rule plus_poff)
  then show ?thesis using poff(1) [of a] by (simp add: PGSIZE_def)
qed

lemma pages_of_first: "0 < n \<Longrightarrow> PGROUNDDOWN a \<in> pages_of a n"
  by (auto simp: pages_of_def image_iff intro!: bexI [of _ 0])

lemma pages_of_rest: "pages_of (a + of_nat k) (n - k) \<subseteq> pages_of a n"
proof
  fix v assume "v \<in> pages_of (a + of_nat k) (n - k)"
  then obtain i where "i < n - k" "v = PGROUNDDOWN (a + of_nat (k + i))"
    by (auto simp: pages_of_def add.assoc)
  then show "v \<in> pages_of a n" unfolding pages_of_def by (intro image_eqI [of _ _ "k + i"]) auto
qed

lemma rest_offset:
  fixes a va :: addr
  assumes "n \<le> 2 ^ 64" "k < n"
  shows "unat (va - a) < n \<longleftrightarrow> unat (va - a) < k \<or> unat (va - (a + of_nat k)) < n - k"
    and "\<not> unat (va - a) < k \<Longrightarrow> unat (va - (a + of_nat k)) = unat (va - a) - k"
    and "unat (va - a) < k \<Longrightarrow> \<not> unat (va - (a + of_nat k)) < n - k"
proof -
  define d where "d = va - a"
  have eq: "va - (a + of_nat k) = d - of_nat k" by (simp add: d_def)
  have "unat (va - (a + of_nat k)) = (if k \<le> unat d then unat d - k else unat d + 2 ^ 64 - k)"
    unfolding eq using assms by (intro unat_sub_of_nat) simp
  then show "unat (va - a) < n \<longleftrightarrow> unat (va - a) < k \<or> unat (va - (a + of_nat k)) < n - k"
    "\<not> unat (va - a) < k \<Longrightarrow> unat (va - (a + of_nat k)) = unat (va - a) - k"
    "unat (va - a) < k \<Longrightarrow> \<not> unat (va - (a + of_nat k)) < n - k"
    unfolding d_def [symmetric] using assms by (auto split: if_splits)
qed

text \<open>\<open>copyout\<close> on a space that maps the destination writably.\<close>

definition user_range :: "memory \<Rightarrow> addr \<Rightarrow> addr set \<Rightarrow> addr \<Rightarrow> nat \<Rightarrow> bool" where
  "user_range m r P a n \<longleftrightarrow> uspace m r P \<and> n < 2 ^ 64 \<and> pages_of a n \<subseteq> P"

definition written :: "memory \<Rightarrow> memory \<Rightarrow> addr \<Rightarrow> addr set \<Rightarrow> addr \<Rightarrow> byte list \<Rightarrow> bool" where
  "written m m' r P a bs \<longleftrightarrow> uspace m' r P \<and>
     (\<forall>w\<in>P. pte m' r w = pte m r w) \<and>
     (\<forall>va. PGROUNDDOWN va \<in> P \<longrightarrow>
        uread m' r va = (if unat (va - a) < length bs then bs ! unat (va - a) else uread m r va)) \<and>
     (\<forall>x. (\<forall>v\<in>pages_of a (length bs). x \<notin> page (ppage m r v)) \<longrightarrow> m' x = m x)"

lemma written_Nil: "uspace m r P \<Longrightarrow> written m m r P a []"
  by (simp add: written_def)

lemma written_page:
  assumes "uspace m r P" "PGROUNDDOWN a \<in> P" "bs \<noteq> []" "length bs \<le> 4096 - poff a"
  shows "written m (mem_write m (ppage m r (PGROUNDDOWN a) + (a - PGROUNDDOWN a)) bs) r P a bs"
proof -
  have off: "a - PGROUNDDOWN a = of_nat (poff a)" by (simp add: poff_def)
  have le: "poff a + length bs \<le> 4096" using assms(4) poff(1) [of a] by linarith
  note w = write_page [OF assms(1,2) le]
  show ?thesis unfolding written_def off
  proof (intro conjI ballI allI impI)
    show "uspace (mem_write m (ppage m r (PGROUNDDOWN a) + of_nat (poff a)) bs) r P" by (rule w)
    fix v assume "v \<in> P"
    then show "pte (mem_write m (ppage m r (PGROUNDDOWN a) + of_nat (poff a)) bs) r v = pte m r v" by (rule w)
  next
    fix va assume "PGROUNDDOWN va \<in> P"
    then show "uread (mem_write m (ppage m r (PGROUNDDOWN a) + of_nat (poff a)) bs) r va =
        (if unat (va - a) < length bs then bs ! unat (va - a) else uread m r va)"
      using w(5) [of va] first_page [OF assms(4), of va] by presburger
  next
    fix x assume "\<forall>v\<in>pages_of a (length bs). x \<notin> page (ppage m r v)"
    then have "x \<notin> page (ppage m r (PGROUNDDOWN a))" using assms(3) pages_of_first [of "length bs" a] by simp
    then show "mem_write m (ppage m r (PGROUNDDOWN a) + of_nat (poff a)) bs x = m x" by (rule w)
  qed
qed

lemma written_ppage: "written m m' r P a bs \<Longrightarrow> v \<in> P \<Longrightarrow> ppage m' r v = ppage m r v"
  by (simp add: written_def ppage_def)

lemma pages_of_mono: "k \<le> n \<Longrightarrow> pages_of a k \<subseteq> pages_of a n"
  by (auto simp: pages_of_def)

lemma written_append:
  assumes w1: "written m m1 r P a xs" and w2: "written m1 m2 r P (a + of_nat (length xs)) ys"
    and len: "length xs + length ys < 2 ^ 64" "ys \<noteq> []" and P: "pages_of a (length (xs @ ys)) \<subseteq> P"
  shows "written m m2 r P a (xs @ ys)"
  unfolding written_def
proof (intro conjI ballI allI impI)
  show "uspace m2 r P" using w2 by (simp add: written_def)
  show "pte m2 r v = pte m r v" if "v \<in> P" for v using w1 w2 that by (simp add: written_def)
next
  fix va assume "PGROUNDDOWN va \<in> P"
  then have r: "uread m1 r va = (if unat (va - a) < length xs then xs ! unat (va - a) else uread m r va)"
      "uread m2 r va = (if unat (va - (a + of_nat (length xs))) < length ys
         then ys ! unat (va - (a + of_nat (length xs))) else uread m1 r va)"
    using w1 w2 by (simp_all add: written_def)
  have k: "length (xs @ ys) \<le> 2 ^ 64" "length xs < length (xs @ ys)" using len by simp_all
  note o = rest_offset [OF k, of va a]
  show "uread m2 r va = (if unat (va - a) < length (xs @ ys) then (xs @ ys) ! unat (va - a) else uread m r va)"
  proof (cases "unat (va - a) < length xs")
    case True
    then show ?thesis using o(3) r by (simp add: nth_append)
  next
    case False
    then show ?thesis using o(1,2) r by (simp add: nth_append)
  qed
next
  fix x assume x: "\<forall>v\<in>pages_of a (length (xs @ ys)). x \<notin> page (ppage m r v)"
  have "\<forall>v\<in>pages_of a (length xs). x \<notin> page (ppage m r v)"
    using x pages_of_mono [of "length xs" "length (xs @ ys)" a] by auto
  then have "m1 x = m x" using w1 unfolding written_def by blast
  moreover have "x \<notin> page (ppage m1 r v)" if "v \<in> pages_of (a + of_nat (length xs)) (length ys)" for v
  proof -
    have "v \<in> pages_of a (length (xs @ ys))"
      using pages_of_rest [of a "length xs" "length (xs @ ys)"] that by auto
    with x P written_ppage [OF w1] show ?thesis by auto
  qed
  then have "m2 x = m1 x" using w2 by (auto simp: written_def)
  ultimately show "m2 x = m x" by simp
qed

lemma copyout_spec:
  assumes "user_range (mem s) r P a (length src)" "uwritable (mem s) r (pages_of a (length src))"
  shows "\<exists>m'. copyout r a src s = Ok 0 (s\<lparr>mem := m'\<rparr>) \<and> written (mem s) m' r P a src"
  using assms
proof (induction "length src" arbitrary: a src s rule: less_induct)
  case less
  show ?case
  proof (cases "src = []")
    case True
    then have "written (mem s) (mem s) r P a src"
      using less.prems(1) by (simp add: user_range_def written_Nil)
    then show ?thesis using True by (intro exI [of _ "mem s"]) (simp add: copyout.simps)
  next
    case False
    define v where "v = PGROUNDDOWN a"
    define n where "n = min (4096 - poff a) (length src)"
    define m1 where "m1 = mem_write (mem s) (ppage (mem s) r v + (a - v)) (take n src)"
    have us: "uspace (mem s) r P" and P: "pages_of a (length src) \<subseteq> P" and len: "length src < 2 ^ 64"
      using less.prems(1) by (simp_all add: user_range_def)
    have vp: "v \<in> pages_of a (length src)" using False pages_of_first unfolding v_def by simp
    then have v: "v \<in> P" and mp: "mapped (mem s) r v" and wv: "pte (mem s) r v AND PTE_W \<noteq> 0"
      using P us less.prems(2) by (auto simp: uspace_def uwritable_def)
    have n: "0 < n" "n \<le> 4096 - poff a" "n \<le> length src" using False poff(1) [of a] by (auto simp: n_def)
    have w1: "written (mem s) m1 r P a (take n src)"
      unfolding m1_def v_def using us v n False by (intro written_page) (auto simp: v_def)
    have step: "copyout r a src s = copyout r (v + PGSIZE) (drop n src) (s\<lparr>mem := m1\<rparr>)"
    proof -
      have "\<not> MAXVA \<le> v" "ppage (mem s) r v \<noteq> 0" "slot0 (mem s) r v \<noteq> 0"
        using mp by (auto simp: mapped_def ppage_def)
      moreover have "min (unat (PGSIZE - (a - v))) (length src) = n"
        unfolding n_def v_def page_room by (rule refl)
      ultimately show ?thesis using wv n(1) False mp
        by (subst copyout.simps)
          (simp add: Let_def bnd_run sq_run user_page_mapped walk_mapped rd64_run v_def [symmetric]
            m1_def pte_def [symmetric] del: PGSIZE_def)
    qed
    show ?thesis
    proof (cases "n = length src")
      case True
      then have "copyout r a src s = Ok 0 (s\<lparr>mem := m1\<rparr>)" using step by (simp add: copyout.simps)
      then show ?thesis using w1 True by auto
    next
      case F2: False
      then have nv: "v + PGSIZE = a + of_nat n" and n': "n < length src"
        using n next_page [of a] by (auto simp: n_def v_def min_def split: if_splits)
      have sub: "pages_of (a + of_nat n) (length (drop n src)) \<subseteq> pages_of a (length src)"
        using pages_of_rest [of a n "length src"] by simp
      have ur: "user_range (mem (s\<lparr>mem := m1\<rparr>)) r P (v + PGSIZE) (length (drop n src))"
        unfolding nv using w1 P sub len by (auto simp: user_range_def written_def)
      have uw: "uwritable (mem (s\<lparr>mem := m1\<rparr>)) r (pages_of (v + PGSIZE) (length (drop n src)))"
      proof -
        have "\<forall>w\<in>P. pte m1 r w = pte (mem s) r w" using w1 by (simp add: written_def)
        then show ?thesis unfolding nv using P sub less.prems(2) by (simp add: uwritable_def subset_iff)
      qed
      have "length (drop n src) < length src" using n n' by simp
      from less.hyps [OF this ur uw] obtain m2 where m2:
        "copyout r (v + PGSIZE) (drop n src) (s\<lparr>mem := m1\<rparr>) = Ok 0 (s\<lparr>mem := m2\<rparr>)"
        "written m1 m2 r P (a + of_nat n) (drop n src)" unfolding nv by auto
      have "written (mem s) m2 r P a (take n src @ drop n src)"
        using w1 m2(2) n' len P by (intro written_append [of _ m1]) auto
      then show ?thesis using step m2(1) by auto
    qed
  qed
qed

definition uread_list :: "memory \<Rightarrow> addr \<Rightarrow> addr \<Rightarrow> nat \<Rightarrow> byte list" where
  "uread_list m r a n = map (\<lambda>i. uread m r (a + of_nat i)) [0..<n]"

lemma uread_list_append:
  "uread_list m r a (k + n) = uread_list m r a k @ uread_list m r (a + of_nat k) n"
proof -
  have "uread_list m r a (k + n) ! i = (uread_list m r a k @ uread_list m r (a + of_nat k) n) ! i" if "i < k + n" for i
  proof (cases "i < k")
    case False
    then have "a + of_nat k + of_nat (i - k) = a + (of_nat i :: addr)"
      by (simp only: add.assoc of_nat_add [symmetric] not_less le_add_diff_inverse)
    then show ?thesis using that False by (simp add: uread_list_def nth_append)
  qed (use that in \<open>simp add: uread_list_def nth_append\<close>)
  then show ?thesis by (intro nth_equalityI) (simp_all add: uread_list_def)
qed

lemma mem_read_page:
  assumes "n \<le> 4096 - poff a"
  shows "mem_read m (ppage m r (PGROUNDDOWN a) + (a - PGROUNDDOWN a)) n = uread_list m r a n"
proof (rule nth_equalityI)
  fix i assume "i < length (mem_read m (ppage m r (PGROUNDDOWN a) + (a - PGROUNDDOWN a)) n)"
  then have i: "i < n" by simp
  then have "poff a + i < 4096" using assms by linarith
  then have "PGROUNDDOWN (a + of_nat i) = PGROUNDDOWN a" "poff (a + of_nat i) = poff a + i"
    using poff_unique [OF PGROUNDDOWN_aligned plus_poff] by blast+
  then show "mem_read m (ppage m r (PGROUNDDOWN a) + (a - PGROUNDDOWN a)) n ! i = uread_list m r a n ! i"
    using i by (simp add: uread_list_def uread_def upa_poff poff_def [of a] add.assoc)
qed (simp add: uread_list_def)

lemma copyin_spec:
  assumes "user_range (mem s) r P a n"
  shows "copyin r a n s = Ok (0, uread_list (mem s) r a n) s"
  using assms
proof (induction n arbitrary: a rule: less_induct)
  case (less n)
  show ?case
  proof (cases "n = 0")
    case True
    then show ?thesis by (simp add: copyin.simps uread_list_def)
  next
    case False
    define v where "v = PGROUNDDOWN a"
    define k where "k = min (4096 - poff a) n"
    have us: "uspace (mem s) r P" and P: "pages_of a n \<subseteq> P" and len: "n < 2 ^ 64"
      using less.prems by (simp_all add: user_range_def)
    have "v \<in> P" using False pages_of_first [of n a] P unfolding v_def by auto
    then have mp: "mapped (mem s) r v" using us by (simp add: uspace_def)
    then have pp: "ppage (mem s) r v \<noteq> 0" by (simp add: mapped_def ppage_def)
    have k: "0 < k" "k \<le> 4096 - poff a" "k \<le> n" using False poff(1) [of a] by (auto simp: k_def)
    have room: "min (unat (PGSIZE - (a - v))) n = k" unfolding k_def v_def page_room by (rule refl)
    have rest: "copyin r (v + PGSIZE) (n - k) s = Ok (0, uread_list (mem s) r (a + of_nat k) (n - k)) s"
    proof (cases "k = n")
      case True
      then show ?thesis by (simp add: copyin.simps uread_list_def)
    next
      case F2: False
      then have nv: "v + PGSIZE = a + of_nat k"
        using k next_page [of a] by (auto simp: k_def v_def min_def split: if_splits)
      have "user_range (mem s) r P (a + of_nat k) (n - k)"
        using us P len pages_of_rest [of a k n] by (auto simp: user_range_def)
      then show ?thesis unfolding nv using less.IH [of "n - k"] k by simp
    qed
    have "copyin r a n s = Ok (0, uread_list (mem s) r a k @ uread_list (mem s) r (a + of_nat k) (n - k)) s"
      using False room k(1) mp pp rest mem_read_page [OF k(2), of "mem s" r]
      by (subst copyin.simps)
        (simp add: Let_def bnd_run user_page_mapped v_def [symmetric] del: PGSIZE_def)
    then show ?thesis using uread_list_append [of "mem s" r a k "n - k"] k by simp
  qed
qed

lemma uread_list_written:
  assumes "written m m' r P a bs" "pages_of a (length bs) \<subseteq> P" "length bs < 2 ^ 64"
  shows "uread_list m' r a (length bs) = bs"
proof (rule nth_equalityI)
  fix i assume "i < length (uread_list m' r a (length bs))"
  then have i: "i < length bs" by (simp add: uread_list_def)
  then have "PGROUNDDOWN (a + of_nat i) \<in> P" using assms(2) by (auto simp: pages_of_def)
  moreover have "unat (a + of_nat i - a) = i" using i assms(3) by (simp add: unat_of_nat take_bit_eq_mod)
  ultimately show "uread_list m' r a (length bs) ! i = bs ! i"
    using assms(1) i unfolding written_def uread_list_def by simp
qed (simp add: uread_list_def)

section \<open>Transfers byte by byte\<close>

lemma user_range_byte:
  "user_range m r P a n \<Longrightarrow> i < n \<Longrightarrow> user_range m r P (a + of_nat i) 1"
proof -
  assume a: "user_range m r P a n" "i < n"
  moreover have "pages_of (a + of_nat i) 1 = {PGROUNDDOWN (a + of_nat i)}"
    by (simp add: pages_of_def lessThan_Suc)
  moreover have "PGROUNDDOWN (a + of_nat i) \<in> pages_of a n"
    unfolding pages_of_def using a(2) by (intro image_eqI [of _ _ i]) auto
  ultimately show ?thesis by (simp add: user_range_def subset_iff)
qed

lemma uread_list_1: "uread_list m r a 1 = [uread m r a]"
  by (simp add: uread_list_def)

lemma uread_list_Suc: "uread_list m r a (Suc n) = uread m r a # uread_list m r (a + 1) n"
  using uread_list_append [of m r a 1 n] by (simp add: uread_list_def)

lemma length_uread_list [simp]: "length (uread_list m r a n) = n"
  by (simp add: uread_list_def)

lemma take_uread_list: "j \<le> n \<Longrightarrow> take j (uread_list m r a n) = uread_list m r a j"
  by (simp add: uread_list_def take_map)

text \<open>A space that a transfer may be written to.\<close>

definition user_dest :: "memory \<Rightarrow> addr \<Rightarrow> addr set \<Rightarrow> addr \<Rightarrow> nat \<Rightarrow> bool" where
  "user_dest m r P a n \<longleftrightarrow> user_range m r P a n \<and> uwritable m r (pages_of a n)"

lemma user_dest_first: "user_dest m r P a (Suc n) \<Longrightarrow> user_dest m r P a 1"
  using user_range_byte [of m r P a "Suc n" 0] pages_of_mono [of 1 "Suc n" a]
  by (auto simp: user_dest_def uwritable_def)

lemma user_dest_next:
  assumes "user_dest m r P a (Suc n)" "written m m' r P a [c]"
  shows "user_dest m' r P (a + 1) n"
proof -
  have sub: "pages_of (a + 1) n \<subseteq> pages_of a (Suc n)" using pages_of_rest [of a 1 "Suc n"] by simp
  have P: "pages_of a (Suc n) \<subseteq> P" and n: "Suc n < 2 ^ 64" and w: "uwritable m r (pages_of a (Suc n))"
    using assms(1) by (simp_all add: user_dest_def user_range_def)
  have u: "uspace m' r P" and e: "\<forall>v\<in>P. pte m' r v = pte m r v" using assms(2) by (simp_all add: written_def)
  have "uwritable m' r (pages_of (a + 1) n)" unfolding uwritable_def
  proof
    fix v assume "v \<in> pages_of (a + 1) n"
    then have v: "v \<in> pages_of a (Suc n)" using sub by blast
    then have "pte m' r v = pte m r v" using P e by blast
    then show "pte m' r v AND PTE_W \<noteq> 0" using w v by (simp add: uwritable_def)
  qed
  then show ?thesis using u sub P n by (simp add: user_dest_def user_range_def)
qed

lemma written_Cons:
  assumes "written m m1 r P a [c]" "written m1 m2 r P (a + 1) cs" "pages_of a (Suc (length cs)) \<subseteq> P"
    and "Suc (length cs) < 2 ^ 64"
  shows "written m m2 r P a (c # cs)"
proof (cases "cs = []")
  case True
  have "PGROUNDDOWN va \<in> P \<Longrightarrow> uread m2 r va = uread m1 r va" for va using assms(2) True by (simp add: written_def)
  moreover have "m2 = m1" using assms(2) True by (auto simp: written_def pages_of_def)
  ultimately show ?thesis using assms(1) True by simp
next
  case False
  then show ?thesis using written_append [of m m1 r P a "[c]" m2 cs] assms by simp
qed

lemma written_step:
  assumes "user_dest m r P a (Suc n)" "written m m1 r P a [c]" "written m1 m2 r P (a + 1) cs" "length cs \<le> n"
  shows "written m m2 r P a (c # cs)"
proof (rule written_Cons [OF assms(2,3)])
  have P: "pages_of a (Suc n) \<subseteq> P" "Suc n < 2 ^ 64"
    using assms(1) by (simp_all add: user_dest_def user_range_def)
  show "pages_of a (Suc (length cs)) \<subseteq> P"
    by (rule subset_trans [OF pages_of_mono P(1)]) (simp add: assms(4))
  show "Suc (length cs) < 2 ^ 64" using P(2) assms(4) by linarith
qed

section \<open>Properties\<close>

text \<open>
  Property C28: bytes copied out to a user range that is mapped writably are read back by
  \<open>copyin\<close>; both return success, every other byte the process sees is unchanged, and physical
  memory outside the frames of the range (other processes, the page tables, the kernel) is
  untouched.
\<close>

theorem copyout_copyin:
  assumes "user_range (mem s) r P a (length src)"
    and "uwritable (mem s) r (pages_of a (length src))"
  shows "\<exists>m'. copyout r a src s = Ok 0 (s\<lparr>mem := m'\<rparr>) \<and>
    copyin r a (length src) (s\<lparr>mem := m'\<rparr>) = Ok (0, src) (s\<lparr>mem := m'\<rparr>) \<and>
    (\<forall>va. PGROUNDDOWN va \<in> P \<longrightarrow> \<not> unat (va - a) < length src \<longrightarrow> uread m' r va = uread (mem s) r va) \<and>
    (\<forall>x. (\<forall>v\<in>pages_of a (length src). x \<notin> page (ppage (mem s) r v)) \<longrightarrow> m' x = mem s x)"
proof -
  obtain m' where m': "copyout r a src s = Ok 0 (s\<lparr>mem := m'\<rparr>)" "written (mem s) m' r P a src"
    using copyout_spec [OF assms] by blast
  have ur: "user_range m' r P a (length src)" using assms(1) m'(2) by (simp add: user_range_def written_def)
  have P: "pages_of a (length src) \<subseteq> P" "length src < 2 ^ 64" using assms(1) by (simp_all add: user_range_def)
  have "copyin r a (length src) (s\<lparr>mem := m'\<rparr>) = Ok (0, src) (s\<lparr>mem := m'\<rparr>)"
    using copyin_spec [of "s\<lparr>mem := m'\<rparr>" r P a "length src"] ur uread_list_written [OF m'(2) P] by simp
  with m' show ?thesis unfolding written_def by (intro exI [of _ m']) simp
qed

text \<open>A page table of three levels that maps two pages.\<close>

lemma region_iff:
  assumes "unat a + n \<le> 2 ^ 64"
  shows "x \<in> region a n \<longleftrightarrow> unat a \<le> unat x \<and> unat x < unat a + n"
proof -
  have "unat (x - a) = (if unat a \<le> unat x then unat x - unat a else unat x + 2 ^ 64 - unat a)"
    unfolding unat_sub_if_size by (simp add: word_size)
  then show ?thesis using assms unat_addr_less [of x] unfolding region_def by auto
qed

lemma region_disjoint:
  "unat a + n \<le> unat b \<or> unat b + k \<le> unat a \<Longrightarrow> unat a + n \<le> 2 ^ 64 \<Longrightarrow> unat b + k \<le> 2 ^ 64 \<Longrightarrow>
     region a n \<inter> region b k = {}"
  by (auto simp: region_iff)

definition demo_mem :: memory where
  "demo_mem =
     store64 (store64 (store64 (store64 (\<lambda>_. 0) 0x80001000 (PA2PTE 0x80002000 OR PTE_V))
       0x80002000 (PA2PTE 0x80003000 OR PTE_V)) 0x80003000 (PA2PTE 0x80004000 OR 0x17))
       0x80003008 (PA2PTE 0x80005000 OR 0x17)"

lemma demo_loads:
  "load64 demo_mem 0x80001000 = PA2PTE 0x80002000 OR PTE_V"
  "load64 demo_mem 0x80002000 = PA2PTE 0x80003000 OR PTE_V"
  "load64 demo_mem 0x80003000 = PA2PTE 0x80004000 OR 0x17"
  "load64 demo_mem 0x80003008 = PA2PTE 0x80005000 OR 0x17"
  unfolding demo_mem_def by (simp_all add: load64_store64_disjoint region_disjoint)

lemma demo_slots:
  "slot2 0x80001000 0 = 0x80001000" "slot2 0x80001000 4096 = 0x80001000"
  "slot1 demo_mem 0x80001000 0 = 0x80002000" "slot1 demo_mem 0x80001000 4096 = 0x80002000"
  "slot0 demo_mem 0x80001000 0 = 0x80003000" "slot0 demo_mem 0x80001000 4096 = 0x80003008"
  "pte demo_mem 0x80001000 0 = PA2PTE 0x80004000 OR 0x17" "pte demo_mem 0x80001000 4096 = PA2PTE 0x80005000 OR 0x17"
proof -
  have px: "8 * PX 2 0 = 0" "8 * PX 2 4096 = 0" "8 * PX (Suc 0) 0 = 0" "8 * PX (Suc 0) 4096 = 0" "8 * PX 0 0 = 0" "8 * PX 0 4096 = 8"
    "PTE2PA (PA2PTE 0x80002000 OR PTE_V) = 0x80002000" "PTE2PA (PA2PTE 0x80003000 OR PTE_V) = 0x80003000"
    by (code_simp+)
  show s2: "slot2 0x80001000 0 = 0x80001000" "slot2 0x80001000 4096 = 0x80001000" by (simp_all add: slot2_def px)
  show s1: "slot1 demo_mem 0x80001000 0 = 0x80002000" "slot1 demo_mem 0x80001000 4096 = 0x80002000"
    by (simp_all add: slot1_def s2 demo_loads px)
  show s0: "slot0 demo_mem 0x80001000 0 = 0x80003000" "slot0 demo_mem 0x80001000 4096 = 0x80003008"
    by (simp_all add: slot0_def s1 demo_loads px)
  show "pte demo_mem 0x80001000 0 = PA2PTE 0x80004000 OR 0x17" "pte demo_mem 0x80001000 4096 = PA2PTE 0x80005000 OR 0x17"
    by (simp_all add: pte_def s0 demo_loads)
qed

lemma demo_ppage: "ppage demo_mem 0x80001000 0 = 0x80004000" "ppage demo_mem 0x80001000 4096 = 0x80005000"
proof -
  have "PTE2PA (PA2PTE 0x80004000 OR 0x17) = 0x80004000" "PTE2PA (PA2PTE 0x80005000 OR 0x17) = 0x80005000"
    by (code_simp+)
  then show "ppage demo_mem 0x80001000 0 = 0x80004000" "ppage demo_mem 0x80001000 4096 = 0x80005000"
    by (simp_all add: ppage_def demo_slots)
qed

lemma demo_mapped: "mapped demo_mem 0x80001000 0" "mapped demo_mem 0x80001000 4096"
proof -
  have f: "(PA2PTE 0x80002000 OR PTE_V) AND PTE_V \<noteq> 0" "(PA2PTE 0x80003000 OR PTE_V) AND PTE_V \<noteq> 0"
    "(PA2PTE 0x80004000 OR 0x17) AND PTE_V \<noteq> 0" "(PA2PTE 0x80005000 OR 0x17) AND PTE_V \<noteq> 0"
    "(PA2PTE 0x80004000 OR 0x17) AND PTE_U \<noteq> 0" "(PA2PTE 0x80005000 OR 0x17) AND PTE_U \<noteq> 0"
    "PTE_V \<noteq> 0" "0 < MAXVA" "4096 < MAXVA" by (code_simp+)
  show "mapped demo_mem 0x80001000 0" "mapped demo_mem 0x80001000 4096"
    using demo_ppage by (simp_all add: mapped_def demo_slots demo_loads f ppage_def)
qed

lemma demo_space: "uspace demo_mem 0x80001000 {0, 4096}"
  unfolding uspace_def slots_def
  by (simp add: demo_mapped demo_slots demo_ppage Int_Un_distrib region_disjoint page_aligned_unat)

lemma demo_pages: "pages_of 4094 4 = {0, 4096}"
proof -
  have "PGROUNDDOWN 4094 = 0" "PGROUNDDOWN 4095 = 0" "PGROUNDDOWN 4096 = 4096" "PGROUNDDOWN 4097 = 4096"
    by (code_simp+)
  moreover have "{..<4} = {0, 1, 2, 3 :: nat}" by auto
  ultimately show ?thesis by (auto simp: pages_of_def)
qed

lemma demo_dest: "user_dest demo_mem 0x80001000 {0, 4096} 4094 4"
proof -
  have "pte demo_mem 0x80001000 0 AND PTE_W \<noteq> 0" "pte demo_mem 0x80001000 4096 AND PTE_W \<noteq> 0"
    unfolding demo_slots by (code_simp+)
  then show ?thesis unfolding user_dest_def user_range_def uwritable_def demo_pages using demo_space by simp
qed

theorem copyout_copyin_witness:
  "\<exists>m'. copyout 0x80001000 4094 [1, 2, 3, 4] (demo_st\<lparr>mem := demo_mem\<rparr>) = Ok 0 (demo_st\<lparr>mem := m'\<rparr>) \<and>
     copyin 0x80001000 4094 4 (demo_st\<lparr>mem := m'\<rparr>) = Ok (0, [1, 2, 3, 4]) (demo_st\<lparr>mem := m'\<rparr>)"
proof -
  have "pte demo_mem 0x80001000 0 AND PTE_W \<noteq> 0" "pte demo_mem 0x80001000 4096 AND PTE_W \<noteq> 0"
    unfolding demo_slots by (code_simp+)
  moreover have len: "length [1, 2, 3, 4 :: byte] = 4" by simp
  ultimately have "uwritable (mem (demo_st\<lparr>mem := demo_mem\<rparr>)) 0x80001000 (pages_of 4094 (length [1, 2, 3, 4 :: byte]))"
    unfolding len demo_pages by (simp add: uwritable_def)
  moreover have "user_range (mem (demo_st\<lparr>mem := demo_mem\<rparr>)) 0x80001000 {0, 4096} 4094 (length [1, 2, 3, 4 :: byte])"
    unfolding len user_range_def demo_pages using demo_space by simp
  ultimately obtain m' where
    "copyout 0x80001000 4094 [1, 2, 3, 4] (demo_st\<lparr>mem := demo_mem\<rparr>) = Ok 0 (demo_st\<lparr>mem := demo_mem, mem := m'\<rparr>)"
    "copyin 0x80001000 4094 (length [1, 2, 3, 4 :: byte]) (demo_st\<lparr>mem := demo_mem, mem := m'\<rparr>) =
       Ok (0, [1, 2, 3, 4]) (demo_st\<lparr>mem := demo_mem, mem := m'\<rparr>)"
    using copyout_copyin [where s = "demo_st\<lparr>mem := demo_mem\<rparr>" and src = "[1, 2, 3, 4]"] by blast
  then show ?thesis unfolding len by (intro exI [of _ m']) simp
qed

end
