(* ===== verification/Pipe.thy ===== *)
theory Pipe
  imports File Ring Uspace
begin

text \<open>
  Pipes are first-in first-out queues of at most \<open>PIPESIZE\<close> bytes between processes.  The ring
  buffer of \<^verbatim>\<open>struct pipe\<close> is an instance of the contract \<open>fifo\<close>; \<open>pipewrite\<close> and
  \<open>piperead\<close> move bytes between that queue and the memories of the calling processes.
\<close>

section \<open>The queue in a pipe\<close>

definition pipe_ok :: "pipe \<Rightarrow> bool" where
  "pipe_ok k \<longleftrightarrow> length (pi_data k) = PIPESIZE \<and> unat (pi_nwrite k - pi_nread k) \<le> PIPESIZE"

definition pipe_items :: "pipe \<Rightarrow> byte list" where
  "pipe_items k = ring PIPESIZE (pi_data k) (pi_nread k) (pi_nwrite k)"

lemma ring_size_pipe: "ring_size PIPESIZE"
  by (simp add: ring_size_def PIPESIZE_def)

lemma pipe_full_iff:
  assumes "pipe_ok k"
  shows "pi_nwrite k = pi_nread k + of_nat PIPESIZE \<longleftrightarrow> length (pipe_items k) = PIPESIZE"
proof -
  have "pi_nwrite k = pi_nread k + of_nat PIPESIZE \<longleftrightarrow> pi_nwrite k - pi_nread k = of_nat PIPESIZE"
    by (auto simp: algebra_simps)
  also have "\<dots> \<longleftrightarrow> unat (pi_nwrite k - pi_nread k) = unat (of_nat PIPESIZE :: u32)"
    by (rule word_unat_eq_iff)
  finally show ?thesis by (simp add: pipe_items_def PIPESIZE_def)
qed

lemma pipe_empty_iff: "pi_nread k = pi_nwrite k \<longleftrightarrow> pipe_items k = []"
  by (simp add: pipe_items_def ring_empty_iff)

interpretation pq: fifo pipe_ok pipe_items PIPESIZE pipe_put pipe_get
proof
  fix k :: pipe and a :: byte
  assume ok: "pipe_ok k"
  then show "length (pipe_items k) \<le> PIPESIZE" by (simp add: pipe_ok_def pipe_items_def)
  {
    assume "length (pipe_items k) < PIPESIZE"
    then have room: "unat (pi_nwrite k - pi_nread k) < PIPESIZE" by (simp add: pipe_items_def)
    then show "pipe_items (pipe_put a k) = pipe_items k @ [a]"
      using ok ring_size_pipe by (simp add: pipe_items_def pipe_put_def pipe_ok_def ring_put)
    have "unat (pi_nwrite k + 1 - pi_nread k) = Suc (unat (pi_nwrite k - pi_nread k))"
      using room by (intro unat_diff_Suc) (simp add: PIPESIZE_def)
    then show "pipe_ok (pipe_put a k)" using ok room by (simp add: pipe_put_def pipe_ok_def)
  next
    assume "pipe_items k \<noteq> []"
    then have ne: "pi_nread k \<noteq> pi_nwrite k" by (simp add: pipe_empty_iff)
    then show "pipe_items k = fst (pipe_get k) # pipe_items (snd (pipe_get k))"
      using ring_size_pipe by (simp add: pipe_items_def pipe_get_def ring_get)
    show "pipe_ok (snd (pipe_get k))"
      using ok ne by (simp add: pipe_get_def pipe_ok_def unat_diff_next)
  }
qed

section \<open>Writing and reading\<close>

text \<open>The state in which a process works on a pipe: it runs, and holds the pipe's lock alone.\<close>

definition pipe_ready :: "addr \<Rightarrow> nat \<Rightarrow> 'z file_st_scheme \<Rightarrow> bool" where
  "pipe_ready p pr s \<longleftrightarrow> held s = [L_pipe p] \<and> curproc s = Some pr \<and> pr < NPROC \<and>
     length (procs s) = NPROC \<and> pipe_ok (pipes s p)"

abbreviation pagetable_of :: "nat \<Rightarrow> 'z file_st_scheme \<Rightarrow> addr" where
  "pagetable_of pr s \<equiv> p_pagetable (procs s ! pr)"

lemma pipe_ready_upd [simp]:
  "pipe_ready p pr s \<Longrightarrow> pipe_ok k \<Longrightarrow> pipe_ready p pr (s\<lparr>pipes := (pipes s)(p := k)\<rparr>)"
  "pipe_ready p pr s \<Longrightarrow> pipe_ready p pr (s\<lparr>mem := m\<rparr>)"
  by (simp_all add: pipe_ready_def)

lemma pipe_ready_wakeup:
  "pipe_ready p pr s \<Longrightarrow> wakeup c s = Ok () (s\<lparr>procs := awake_procs c (Some pr) (procs s)\<rparr>)"
  by (simp add: pipe_ready_def wakeup_run)

lemma pifield_run [kernel_run, simp]: "pifield p g s = Ok (g (pipes s p)) s"
  and piset_run [kernel_run, simp]: "piset p h s = Ok () (s\<lparr>pipes := (pipes s)(p := h (pipes s p))\<rparr>)"
  by (simp_all add: pifield_def piset_def)

text \<open>
  The writing loop in closed form, for a reader that is there and a writer that lives: it adds
  what fits, and either returns or goes to sleep on the writers' channel with the queue full.
\<close>

lemma pipewrite_loop_run:
  assumes "pipe_ready p pr s" "pi_readopen (pipes s p)" "\<not> p_killed (procs s ! pr)"
    and "user_range (mem s) (pagetable_of pr s) P (a + of_nat i) k"
  defines "q \<equiv> pipes s p"
    and "bs \<equiv> uread_list (mem s) (pagetable_of pr s) (a + of_nat i) k"
    and "ps \<equiv> awake_procs (Chan_nread p) (Some pr) (procs s)"
  shows "pipewrite_loop k p a i s =
    (if k \<le> PIPESIZE - length (pipe_items q)
     then Ok (int (i + k)) (s\<lparr>held := [], procs := ps, pipes := (pipes s)(p := pq.puts bs q)\<rparr>)
     else Sleep (Chan_nwrite p) (s\<lparr>held := [L_proc pr],
       procs := ps[pr := (ps ! pr)\<lparr>p_chan := Chan_nwrite p, p_state := SLEEPING\<rparr>],
       pipes := (pipes s)(p := pq.puts (take (PIPESIZE - length (pipe_items q)) bs) q)\<rparr>))"
  using assms(1-4) unfolding q_def bs_def ps_def
proof (induction k arbitrary: i s)
  case 0
  have "pipe_ready p pr s" by fact
  then show ?case
    by (simp add: sq_run pipe_ready_wakeup) (simp add: pipe_ready_def uread_list_def)
next
  case (Suc k)
  note rdy = Suc.prems(1)
  have ok: "pipe_ok (pipes s p)" and cur: "curproc s = Some pr" and pr: "pr < length (procs s)"
    and h: "held s = [L_pipe p]"
    using rdy by (simp_all add: pipe_ready_def)
  show ?case
  proof (cases "length (pipe_items (pipes s p)) = PIPESIZE")
    case True
    then have full: "pi_nwrite (pipes s p) = pi_nread (pipes s p) + of_nat PIPESIZE"
      using pipe_full_iff [OF ok] by simp
    have "sleep (Chan_nwrite p) (L_pipe p) (s\<lparr>procs := awake_procs (Chan_nread p) (Some pr) (procs s)\<rparr>) =
        Sleep (Chan_nwrite p) (s\<lparr>held := [L_proc pr], procs := (awake_procs (Chan_nread p) (Some pr) (procs s))
          [pr := (awake_procs (Chan_nread p) (Some pr) (procs s) ! pr)\<lparr>p_chan := Chan_nwrite p, p_state := SLEEPING\<rparr>]\<rparr>)"
      using cur pr h by (subst sleep_run [where p = pr]) simp_all
    then show ?thesis
      using Suc.prems True full cur h by (simp add: bnd_run sq_run pipe_ready_wakeup)
  next
    case False
    then have room: "length (pipe_items (pipes s p)) < PIPESIZE" using pq.bounded [OF ok] by simp
    then have nf: "pi_nwrite (pipes s p) \<noteq> pi_nread (pipes s p) + of_nat PIPESIZE"
      using pipe_full_iff [OF ok] by simp
    let ?r = "pagetable_of pr s" and ?c = "uread (mem s) (pagetable_of pr s) (a + of_nat i)"
    let ?s = "s\<lparr>pipes := (pipes s)(p := pipe_put ?c (pipes s p))\<rparr>"
    have "user_range (mem s) ?r P (a + of_nat i) 1"
      using user_range_byte [OF Suc.prems(4), of 0] by simp
    then have ci: "copyin ?r (a + of_nat i) 1 s = Ok (0, [?c]) s"
      using copyin_spec [of s ?r P "a + of_nat i" 1] by (simp add: uread_list_1 [simplified])
    have step: "pipewrite_loop (Suc k) p a i s = pipewrite_loop k p a (Suc i) ?s"
      using Suc.prems(2,3) nf cur h ci by (simp add: bnd_run sq_run)
    have items: "pipe_items (pipe_put ?c (pipes s p)) = pipe_items (pipes s p) @ [?c]"
      and ok': "pipe_ok (pipe_put ?c (pipes s p))"
      using pq.items_put [OF ok room] pq.good_put [OF ok room] by blast+
    have nx: "a + of_nat (Suc i) = a + of_nat i + (1 :: addr)" by (simp add: algebra_simps)
    have "pages_of (a + of_nat i + of_nat 1) (Suc k - 1) \<subseteq> pages_of (a + of_nat i) (Suc k)"
      by (rule pages_of_rest)
    then have ur: "user_range (mem ?s) (pagetable_of pr ?s) P (a + of_nat (Suc i)) k"
      using Suc.prems(4) unfolding nx by (auto simp: user_range_def)
    have IH: "pipewrite_loop k p a (Suc i) ?s =
      (if k \<le> PIPESIZE - length (pipe_items (pipes ?s p))
       then Ok (int (Suc i + k)) (?s\<lparr>held := [], procs := awake_procs (Chan_nread p) (Some pr) (procs ?s),
         pipes := (pipes ?s)(p := pq.puts (uread_list (mem ?s) (pagetable_of pr ?s) (a + of_nat (Suc i)) k) (pipes ?s p))\<rparr>)
       else Sleep (Chan_nwrite p) (?s\<lparr>held := [L_proc pr],
         procs := (awake_procs (Chan_nread p) (Some pr) (procs ?s))
           [pr := (awake_procs (Chan_nread p) (Some pr) (procs ?s) ! pr)\<lparr>p_chan := Chan_nwrite p, p_state := SLEEPING\<rparr>],
         pipes := (pipes ?s)(p := pq.puts (take (PIPESIZE - length (pipe_items (pipes ?s p)))
           (uread_list (mem ?s) (pagetable_of pr ?s) (a + of_nat (Suc i)) k)) (pipes ?s p))\<rparr>))"
      using rdy ok' Suc.prems(2,3) ur by (intro Suc.IH) (simp_all add: pipe_put_def)
    have sz: "PIPESIZE - length (pipe_items (pipes s p)) = Suc (PIPESIZE - Suc (length (pipe_items (pipes s p))))"
      using room by simp
    show ?thesis unfolding step IH nx uread_list_Suc by (simp add: items sz fun_upd_same del: fun_upd_apply)
  qed
qed

lemma piperead_copy_run:
  assumes "pipe_ready p pr s" "user_dest (mem s) (pagetable_of pr s) P (a + of_nat i) k"
  defines "n \<equiv> min k (length (pipe_items (pipes s p)))"
  shows "\<exists>m'. piperead_copy k p a i s =
      Ok (int (i + n)) (s\<lparr>held := [], mem := m', procs := awake_procs (Chan_nwrite p) (Some pr) (procs s),
        pipes := (pipes s)(p := snd (pq.takes n (pipes s p)))\<rparr>) \<and>
    written (mem s) m' (pagetable_of pr s) P (a + of_nat i) (take n (pipe_items (pipes s p)))"
  using assms(1,2) unfolding n_def
proof (induction k arbitrary: i s)
  case 0
  have "written (mem s) (mem s) (pagetable_of pr s) P (a + of_nat i) []"
    using 0 by (intro written_Nil) (simp add: user_dest_def user_range_def)
  with 0 show ?case
    by (intro exI [of _ "mem s"]) (simp add: sq_run pipe_ready_wakeup, simp add: pipe_ready_def)
next
  case (Suc k)
  note rdy = Suc.prems(1)
  have ok: "pipe_ok (pipes s p)" and cur: "curproc s = Some pr" and h: "held s = [L_pipe p]"
    using rdy by (simp_all add: pipe_ready_def)
  let ?r = "pagetable_of pr s" and ?q = "pipes s p"
  show ?case
  proof (cases "pipe_items ?q = []")
    case True
    have "written (mem s) (mem s) ?r P (a + of_nat i) []"
      using Suc.prems by (intro written_Nil) (simp add: user_dest_def user_range_def)
    with True show ?thesis using rdy h
      by (intro exI [of _ "mem s"])
        (simp add: bnd_run sq_run pipe_empty_iff pipe_ready_wakeup)
  next
    case False
    obtain c q' where g: "pipe_get ?q = (c, q')" by fastforce
    then have items: "pipe_items ?q = c # pipe_items q'" and ok': "pipe_ok q'"
      using pq.items_get [OF ok False] pq.good_get [OF ok False] by simp_all
    have d1: "user_dest (mem s) ?r P (a + of_nat i) 1" using Suc.prems(2) by (rule user_dest_first)
    let ?s1 = "s\<lparr>pipes := (pipes s)(p := q')\<rparr>"
    obtain m1 where m1: "copyout ?r (a + of_nat i) [c] ?s1 = Ok 0 (?s1\<lparr>mem := m1\<rparr>)"
        "written (mem s) m1 ?r P (a + of_nat i) [c]"
      using copyout_spec [of ?s1 ?r P "a + of_nat i" "[c]"] d1 by (auto simp: user_dest_def)
    let ?s2 = "?s1\<lparr>mem := m1\<rparr>"
    have step: "piperead_copy (Suc k) p a i s = piperead_copy k p a (Suc i) ?s2"
      using False cur m1(1) g by (simp add: bnd_run sq_run pipe_empty_iff)
    have nx: "a + of_nat (Suc i) = a + of_nat i + (1 :: addr)" by (simp add: algebra_simps)
    have d2: "user_dest (mem ?s2) (pagetable_of pr ?s2) P (a + of_nat (Suc i)) k"
      unfolding nx using user_dest_next [OF Suc.prems(2) m1(2)] by simp
    have r2: "pipe_ready p pr ?s2" using rdy ok' by simp
    let ?n = "min k (length (pipe_items q'))"
    have q2: "pipes ?s2 p = q'" by simp
    from Suc.IH [OF r2 d2] obtain m2 where "piperead_copy k p a (Suc i) ?s2 =
        Ok (int (Suc i + ?n)) (?s2\<lparr>held := [], mem := m2, procs := awake_procs (Chan_nwrite p) (Some pr) (procs ?s2),
          pipes := (pipes ?s2)(p := snd (pq.takes ?n q'))\<rparr>)"
        "written (mem ?s2) m2 (pagetable_of pr ?s2) P (a + of_nat i + 1) (take ?n (pipe_items q'))"
      unfolding nx q2 by blast
    then have m2: "piperead_copy k p a (Suc i) ?s2 =
        Ok (int (Suc i + ?n)) (s\<lparr>held := [], mem := m2, procs := awake_procs (Chan_nwrite p) (Some pr) (procs s),
          pipes := (pipes s)(p := snd (pq.takes ?n q'))\<rparr>)"
        "written m1 m2 ?r P (a + of_nat i + 1) (take ?n (pipe_items q'))"
      by simp_all
    have w: "written (mem s) m2 ?r P (a + of_nat i) (c # take ?n (pipe_items q'))"
      by (rule written_step [OF Suc.prems(2) m1(2) m2(2)]) simp
    have tk: "snd (pq.takes (Suc ?n) ?q) = snd (pq.takes ?n q')" using g by (simp add: case_prod_beta)
    have e: "min (Suc k) (length (pipe_items ?q)) = Suc ?n" by (simp add: items)
    have e2: "take (Suc ?n) (pipe_items ?q) = c # take ?n (pipe_items q')" by (simp add: items)
    show ?thesis unfolding e e2 step m2(1) tk by (intro exI [of _ m2] conjI, simp only: add_Suc add_Suc_right) (rule w)
  qed
qed

section \<open>Calls\<close>

text \<open>A process enters the kernel with no lock held, and is resumed with its own lock held.\<close>

definition pipe_caller :: "addr \<Rightarrow> nat \<Rightarrow> 'z file_st_scheme \<Rightarrow> bool" where
  "pipe_caller p pr s \<longleftrightarrow> held s = [] \<and> curproc s = Some pr \<and> pr < NPROC \<and>
     length (procs s) = NPROC \<and> pipe_ok (pipes s p)"

definition pipe_resumer :: "addr \<Rightarrow> nat \<Rightarrow> 'z file_st_scheme \<Rightarrow> bool" where
  "pipe_resumer p pr s \<longleftrightarrow> held s = [L_proc pr] \<and> curproc s = Some pr \<and> pr < NPROC \<and>
     length (procs s) = NPROC \<and> pipe_ok (pipes s p)"

lemma pipe_caller_ready: "pipe_caller p pr s \<Longrightarrow> pipe_ready p pr (s\<lparr>held := [L_pipe p]\<rparr>)"
  by (simp add: pipe_caller_def pipe_ready_def)

lemma pipewrite_run: "pipe_caller p pr s \<Longrightarrow> pipewrite p a (int k) s = pipewrite_loop k p a 0 (s\<lparr>held := [L_pipe p]\<rparr>)"
  by (simp add: pipewrite_def sq_run pipe_caller_def)

lemma pipewrite_resume_run:
  "pipe_resumer p pr s \<Longrightarrow> pipewrite_resume k p a i s =
     pipewrite_loop k p a i (s\<lparr>held := [L_pipe p], procs := (procs s)[pr := (procs s ! pr)\<lparr>p_chan := Chan_none\<rparr>]\<rparr>)"
  by (simp add: pipewrite_resume_def sq_run pipe_resumer_def sleep_resume_run)

lemma pipe_resumer_ready:
  "pipe_resumer p pr s \<Longrightarrow>
     pipe_ready p pr (s\<lparr>held := [L_pipe p], procs := (procs s)[pr := (procs s ! pr)\<lparr>p_chan := Chan_none\<rparr>]\<rparr>)"
  by (simp add: pipe_resumer_def pipe_ready_def)

lemma piperead_run:
  assumes "pipe_caller p pr s"
  shows "piperead p a (int k) s =
     (if pipe_items (pipes s p) = [] \<and> pi_writeopen (pipes s p)
      then if p_killed (procs s ! pr) then Ok (- 1) s
           else Sleep (Chan_nread p) (s\<lparr>held := [L_proc pr],
             procs := (procs s)[pr := (procs s ! pr)\<lparr>p_chan := Chan_nread p, p_state := SLEEPING\<rparr>]\<rparr>)
      else piperead_copy k p a 0 (s\<lparr>held := [L_pipe p]\<rparr>))"
proof -
  have h: "held s = []" "curproc s = Some pr" "pr < length (procs s)" using assms by (simp_all add: pipe_caller_def)
  have "sleep (Chan_nread p) (L_pipe p) (s\<lparr>held := [L_pipe p]\<rparr>) = Sleep (Chan_nread p) (s\<lparr>held := [L_proc pr],
             procs := (procs s)[pr := (procs s ! pr)\<lparr>p_chan := Chan_nread p, p_state := SLEEPING\<rparr>]\<rparr>)"
    using h by (subst sleep_run [where p = pr]) simp_all
  moreover have "s\<lparr>held := []\<rparr> = s" using h(1) by simp
  ultimately show ?thesis using h
    by (simp add: piperead_def piperead_wait_def sq_run bnd_run pipe_empty_iff)
qed

section \<open>Histories\<close>

text \<open>
  What a write makes of the state: a first call or the continuation of one that slept, by a
  process \<open>pr\<close> that is not killed, with a reader there; \<open>k\<close> bytes from \<open>a + i\<close> of its memory are
  still to be written.
\<close>

definition writes ::
  "addr \<Rightarrow> nat \<Rightarrow> addr \<Rightarrow> nat \<Rightarrow> nat \<Rightarrow> addr set \<Rightarrow> 'z file_st_scheme \<Rightarrow> ('z file_st_scheme, int) res \<Rightarrow> bool" where
  "writes p pr a i k P s r \<longleftrightarrow> pi_readopen (pipes s p) \<and> \<not> p_killed (procs s ! pr) \<and>
     user_range (mem s) (pagetable_of pr s) P (a + of_nat i) k \<and>
     (i = 0 \<and> pipe_caller p pr s \<and> r = pipewrite p a (int k) s \<or>
      pipe_resumer p pr s \<and> r = pipewrite_resume k p a i s)"

text \<open>
  The histories of a pipe: the bytes \<open>ins\<close> that writers had in their memories and the bytes
  \<open>outs\<close> that readers found in theirs, in the order in which the calls ended or blocked.
  Between calls anything may happen that leaves this pipe's structure alone.
\<close>

inductive pipe_hist :: "addr \<Rightarrow> 'z file_st_scheme \<Rightarrow> byte list \<Rightarrow> byte list \<Rightarrow> bool" for p where
  hist_start: "pipe_ok (pipes s p) \<Longrightarrow> pipe_items (pipes s p) = [] \<Longrightarrow> pipe_hist p s [] []"
| hist_other: "pipe_hist p s ins outs \<Longrightarrow> pipes t p = pipes s p \<Longrightarrow> pipe_hist p t ins outs"
| hist_write: "pipe_hist p s ins outs \<Longrightarrow> writes p pr a i k P s (Ok r t) \<Longrightarrow>
    pipe_hist p t (ins @ uread_list (mem s) (pagetable_of pr s) (a + of_nat i) (nat r - i)) outs"
| hist_block: "pipe_hist p s ins outs \<Longrightarrow> writes p pr a i k P s (Sleep c t) \<Longrightarrow>
    j = length (pipe_items (pipes t p)) - length (pipe_items (pipes s p)) \<Longrightarrow>
    pipe_hist p t (ins @ uread_list (mem s) (pagetable_of pr s) (a + of_nat i) j) outs"
| hist_read: "pipe_hist p s ins outs \<Longrightarrow> pipe_caller p pr s \<Longrightarrow> user_dest (mem s) (pagetable_of pr s) P a k \<Longrightarrow>
    piperead p a (int k) s = Ok r t \<Longrightarrow> 0 \<le> r \<Longrightarrow>
    pipe_hist p t ins (outs @ uread_list (mem t) (pagetable_of pr t) a (nat r))"

lemma writes_spec:
  assumes "writes p pr a i k P s res"
  defines "bs \<equiv> uread_list (mem s) (pagetable_of pr s) (a + of_nat i) k"
    and "free \<equiv> PIPESIZE - length (pipe_items (pipes s p))"
  shows "pipe_ok (pipes s p)"
    and "k \<le> free \<Longrightarrow> \<exists>t. res = Ok (int (i + k)) t \<and> held t = [] \<and> mem t = mem s \<and> pipe_ok (pipes t p) \<and>
      pipe_items (pipes t p) = pipe_items (pipes s p) @ bs"
    and "\<not> k \<le> free \<Longrightarrow> \<exists>t. res = Sleep (Chan_nwrite p) t \<and> held t = [L_proc pr] \<and> mem t = mem s \<and>
      pipe_ok (pipes t p) \<and> pipe_items (pipes t p) = pipe_items (pipes s p) @ take free bs \<and>
      length (pipe_items (pipes t p)) = PIPESIZE"
proof -
  obtain s1 where s1: "res = pipewrite_loop k p a i s1" "pipe_ready p pr s1" "pipes s1 = pipes s" "mem s1 = mem s"
      "\<not> p_killed (procs s1 ! pr)" "pagetable_of pr s1 = pagetable_of pr s"
  proof (cases "i = 0 \<and> pipe_caller p pr s \<and> res = pipewrite p a (int k) s")
    case True
    then have c: "pipe_caller p pr s" by simp
    show ?thesis
      using that [of "s\<lparr>held := [L_pipe p]\<rparr>"] pipewrite_run [OF c] pipe_caller_ready [OF c] assms(1) True
      by (simp add: writes_def)
  next
    case False
    then have r: "pipe_resumer p pr s" "res = pipewrite_resume k p a i s" "\<not> p_killed (procs s ! pr)"
      using assms(1) by (auto simp: writes_def)
    then have "pr < length (procs s)" by (simp add: pipe_resumer_def)
    then show ?thesis
      using that [of "s\<lparr>held := [L_pipe p], procs := (procs s)[pr := (procs s ! pr)\<lparr>p_chan := Chan_none\<rparr>]\<rparr>"]
        pipewrite_resume_run [OF r(1)] pipe_resumer_ready [OF r(1)] r by simp
  qed
  have w: "pi_readopen (pipes s1 p)" "user_range (mem s1) (pagetable_of pr s1) P (a + of_nat i) k"
    using assms(1) s1 by (simp_all add: writes_def)
  show ok: "pipe_ok (pipes s p)" using s1(2,3) by (simp add: pipe_ready_def)
  have len: "length bs = k" by (simp add: bs_def)
  note run = pipewrite_loop_run [OF s1(2) w(1) s1(5) w(2), folded s1(1), unfolded s1(3,4,6), folded bs_def free_def]
  show "k \<le> free \<Longrightarrow> \<exists>t. res = Ok (int (i + k)) t \<and> held t = [] \<and> mem t = mem s \<and> pipe_ok (pipes t p) \<and>
      pipe_items (pipes t p) = pipe_items (pipes s p) @ bs"
    using run pq.puts_items [OF ok, of bs] pq.bounded [OF ok] len s1(4) by (simp add: free_def)
  show "\<exists>t. res = Sleep (Chan_nwrite p) t \<and> held t = [L_proc pr] \<and> mem t = mem s \<and>
      pipe_ok (pipes t p) \<and> pipe_items (pipes t p) = pipe_items (pipes s p) @ take free bs \<and>
      length (pipe_items (pipes t p)) = PIPESIZE" if "\<not> k \<le> free"
    using run pq.puts_items [OF ok, of "take free bs"] pq.bounded [OF ok] len that s1(4) by (simp add: free_def)
qed

lemma piperead_spec:
  assumes "pipe_caller p pr s" "user_dest (mem s) (pagetable_of pr s) P a k"
    and "pipe_items (pipes s p) \<noteq> [] \<or> \<not> pi_writeopen (pipes s p)"
  defines "n \<equiv> min k (length (pipe_items (pipes s p)))"
  shows "\<exists>t. piperead p a (int k) s = Ok (int n) t \<and> held t = [] \<and> pipe_ok (pipes t p) \<and>
    pagetable_of pr t = pagetable_of pr s \<and>
    pipe_items (pipes t p) = drop n (pipe_items (pipes s p)) \<and>
    uread_list (mem t) (pagetable_of pr t) a n = take n (pipe_items (pipes s p))"
proof -
  let ?s = "s\<lparr>held := [L_pipe p]\<rparr>"
  have ok: "pipe_ok (pipes s p)" and pr: "pr < length (procs s)" using assms(1) by (simp_all add: pipe_caller_def)
  have d: "user_dest (mem ?s) (pagetable_of pr ?s) P (a + of_nat 0) k" using assms(2) by simp
  obtain m' where m': "piperead_copy k p a 0 ?s =
      Ok (int n) (?s\<lparr>held := [], mem := m', procs := awake_procs (Chan_nwrite p) (Some pr) (procs s),
        pipes := (pipes s)(p := snd (pq.takes n (pipes s p)))\<rparr>)"
      "written (mem s) m' (pagetable_of pr s) P a (take n (pipe_items (pipes s p)))"
    using piperead_copy_run [OF pipe_caller_ready [OF assms(1)] d] by (auto simp: n_def)
  have n: "n \<le> length (pipe_items (pipes s p))" "n \<le> k" by (simp_all add: n_def)
  have P: "pages_of a n \<subseteq> P" "n < 2 ^ 64"
    using assms(2) n pages_of_mono [of n k a] by (auto simp: user_dest_def user_range_def)
  have "uread_list m' (pagetable_of pr s) a n = take n (pipe_items (pipes s p))"
    using uread_list_written [OF m'(2)] P n by simp
  moreover have "piperead p a (int k) s = piperead_copy k p a 0 ?s"
    using assms(3) piperead_run [OF assms(1)] by auto
  ultimately show ?thesis using m'(1) pq.takes_items [OF ok n(1)] pr by simp
qed

section \<open>Properties\<close>

text \<open>
  Property C29: a pipe is a first-in first-out channel between processes, whatever the
  interleaving of writers, readers and the rest of the kernel.  The bytes the writers had in
  their memories, in the order of their calls, are the bytes the readers have received so far
  followed by those in the pipe; the pipe never holds more than \<open>PIPESIZE\<close> of them.  The
  readers' buffers are valid; a reader that slept calls again.
\<close>

theorem pipe_fifo:
  assumes "pipe_hist p s ins outs"
  shows "ins = outs @ pipe_items (pipes s p) \<and> length (pipe_items (pipes s p)) \<le> PIPESIZE"
proof -
  have "ins = outs @ pipe_items (pipes s p) \<and> pipe_ok (pipes s p)"
    using assms
  proof induction
    case (hist_write s ins outs pr a i k P r t)
    note w = writes_spec [OF hist_write.hyps(2)]
    show ?case
    proof (cases "k \<le> PIPESIZE - length (pipe_items (pipes s p))")
      case True
      then obtain t' where t': "Ok r t = Ok (int (i + k)) t'" "pipe_ok (pipes t' p)"
        "pipe_items (pipes t' p) = pipe_items (pipes s p) @ uread_list (mem s) (pagetable_of pr s) (a + of_nat i) k"
        using w(2) by blast
      then have "nat r - i = k" by (simp only: res.inject nat_int diff_add_inverse)
      then show ?thesis using t' hist_write.IH by simp
    qed (use w(3) in auto)
  next
    case (hist_block s ins outs pr a i k P c t j)
    note w = writes_spec [OF hist_block.hyps(2)]
    let ?free = "PIPESIZE - length (pipe_items (pipes s p))"
    show ?case
    proof (cases "k \<le> ?free")
      case False
      then obtain t' where t': "Sleep c t = Sleep (Chan_nwrite p) t'" "pipe_ok (pipes t' p)"
        "pipe_items (pipes t' p) = pipe_items (pipes s p) @ take ?free (uread_list (mem s) (pagetable_of pr s) (a + of_nat i) k)"
        using w(3) by blast
      then have "j = ?free" using hist_block.hyps(3) False by simp
      then show ?thesis using t' hist_block.IH False by (simp add: take_uread_list)
    qed (use w(2) in auto)
  next
    case (hist_read s ins outs pr P a k r t)
    then have "pipe_items (pipes s p) \<noteq> [] \<or> \<not> pi_writeopen (pipes s p)"
      using piperead_run [OF hist_read.hyps(2), of a k] by (auto split: if_splits)
    then show ?case using piperead_spec [OF hist_read.hyps(2,3)] hist_read.hyps(4) hist_read.IH by auto
  qed simp_all
  then show ?thesis using pq.bounded by blast
qed

text \<open>An empty pipe and a process whose memory is that of \<open>demo_mem\<close>.\<close>

definition demo_pipe :: pipe where
  "demo_pipe = \<lparr>pi_data = replicate PIPESIZE 0, pi_nread = 0xFFFFFFFE, pi_nwrite = 0xFFFFFFFE,
     pi_readopen = True, pi_writeopen = True\<rparr>"

definition demo_user :: "file_st \<Rightarrow> file_st" where
  "demo_user s = s\<lparr>held := [], mem := demo_mem, curproc := Some 1,
     procs := (replicate NPROC proc0)[1 := proc0\<lparr>p_state := RUNNING, p_pagetable := 0x80001000\<rparr>],
     pipes := (\<lambda>_. demo_pipe)\<rparr>"

lemma demo_pipe_ok: "pipe_ok demo_pipe" "pipe_items demo_pipe = []"
  by (simp_all add: pipe_ok_def pipe_items_def demo_pipe_def)

lemma demo_user_caller: "pipe_caller p 1 (demo_user s)"
  by (simp add: pipe_caller_def demo_user_def demo_pipe_ok NPROC_def)

lemma demo_user_simps [simp]:
  "mem (demo_user s) = demo_mem" "pagetable_of (Suc 0) (demo_user s) = 0x80001000" "pipes (demo_user s) p = demo_pipe"
  "\<not> p_killed (procs (demo_user s) ! Suc 0)"
  by (simp_all add: demo_user_def NPROC_def proc0_def)

theorem pipe_fifo_witness:
  "\<forall>s. \<exists>t. pipe_hist 0x80006000 t (uread_list demo_mem 0x80001000 4094 4) [] \<and>
     writes 0x80006000 1 4094 0 4 {0, 4096} (demo_user s) (Ok 4 t) \<and>
     uread_list demo_mem 0x80001000 4094 4 = pipe_items (pipes t 0x80006000)"
proof
  fix s :: file_st
  let ?p = "0x80006000 :: addr"
  have start: "pipe_hist ?p (demo_user s) [] []" by (rule hist_start) (simp_all add: demo_pipe_ok)
  have w: "writes ?p 1 4094 0 4 {0, 4096} (demo_user s) (pipewrite ?p 4094 (int 4) (demo_user s))"
    using demo_user_caller [of ?p s] demo_dest by (simp add: writes_def user_dest_def demo_pipe_def)
  have "(4 :: nat) \<le> PIPESIZE - length (pipe_items (pipes (demo_user s) ?p))"
    by (simp add: demo_pipe_ok PIPESIZE_def)
  then obtain t where t: "pipewrite ?p 4094 (int 4) (demo_user s) = Ok 4 t"
    using writes_spec(2) [OF w] by auto
  have "pipe_hist ?p t ([] @ uread_list (mem (demo_user s)) (pagetable_of 1 (demo_user s)) (4094 + of_nat 0) (nat 4 - 0)) []"
    by (rule hist_write [OF start w [unfolded t]])
  then have h: "pipe_hist ?p t (uread_list demo_mem 0x80001000 4094 4) []" by simp
  then show "\<exists>t. pipe_hist ?p t (uread_list demo_mem 0x80001000 4094 4) [] \<and>
     writes ?p 1 4094 0 4 {0, 4096} (demo_user s) (Ok 4 t) \<and>
     uread_list demo_mem 0x80001000 4094 4 = pipe_items (pipes t ?p)"
    using pipe_fifo [OF h] w t by auto
qed

text \<open>
  Property C30: how much a call moves and when it blocks.  A writer whose bytes fit returns
  their number; otherwise it fills the pipe and sleeps on the writers' channel.  A reader returns at once whenever the pipe has bytes, with as many as it asked
  for and there are, or when the writers are gone, then with 0 at the end of the data; it sleeps
  only on an empty pipe that may still be written.
\<close>

theorem pipe_calls:
  assumes "pipe_caller p pr s" "\<not> p_killed (procs s ! pr)"
    and "user_dest (mem s) (pagetable_of pr s) P a k"
  shows "(pi_readopen (pipes s p) \<longrightarrow>
      (if k \<le> PIPESIZE - length (pipe_items (pipes s p))
       then \<exists>t. pipewrite p a (int k) s = Ok (int k) t \<and> held t = [] \<and>
         pipe_items (pipes t p) = pipe_items (pipes s p) @ uread_list (mem s) (pagetable_of pr s) a k
       else \<exists>t. pipewrite p a (int k) s = Sleep (Chan_nwrite p) t \<and> length (pipe_items (pipes t p)) = PIPESIZE)) \<and>
      (if pipe_items (pipes s p) = [] \<and> pi_writeopen (pipes s p)
       then \<exists>t. piperead p a (int k) s = Sleep (Chan_nread p) t \<and> pipes t = pipes s \<and> mem t = mem s
       else \<exists>t. piperead p a (int k) s = Ok (int (min k (length (pipe_items (pipes s p))))) t \<and> held t = [] \<and>
         pipe_items (pipes t p) = drop k (pipe_items (pipes s p)) \<and>
         uread_list (mem t) (pagetable_of pr t) a (min k (length (pipe_items (pipes s p)))) = take k (pipe_items (pipes s p)))"
proof
  show "pi_readopen (pipes s p) \<longrightarrow>
      (if k \<le> PIPESIZE - length (pipe_items (pipes s p))
       then \<exists>t. pipewrite p a (int k) s = Ok (int k) t \<and> held t = [] \<and>
         pipe_items (pipes t p) = pipe_items (pipes s p) @ uread_list (mem s) (pagetable_of pr s) a k
       else \<exists>t. pipewrite p a (int k) s = Sleep (Chan_nwrite p) t \<and> length (pipe_items (pipes t p)) = PIPESIZE)"
  proof
    assume "pi_readopen (pipes s p)"
    then have w: "writes p pr a 0 k P s (pipewrite p a (int k) s)"
      using assms by (simp add: writes_def user_dest_def)
    show "if k \<le> PIPESIZE - length (pipe_items (pipes s p))
       then \<exists>t. pipewrite p a (int k) s = Ok (int k) t \<and> held t = [] \<and>
         pipe_items (pipes t p) = pipe_items (pipes s p) @ uread_list (mem s) (pagetable_of pr s) a k
       else \<exists>t. pipewrite p a (int k) s = Sleep (Chan_nwrite p) t \<and> length (pipe_items (pipes t p)) = PIPESIZE"
      using writes_spec(2,3) [OF w] by auto
  qed
  show "if pipe_items (pipes s p) = [] \<and> pi_writeopen (pipes s p)
       then \<exists>t. piperead p a (int k) s = Sleep (Chan_nread p) t \<and> pipes t = pipes s \<and> mem t = mem s
       else \<exists>t. piperead p a (int k) s = Ok (int (min k (length (pipe_items (pipes s p))))) t \<and> held t = [] \<and>
         pipe_items (pipes t p) = drop k (pipe_items (pipes s p)) \<and>
         uread_list (mem t) (pagetable_of pr t) a (min k (length (pipe_items (pipes s p)))) = take k (pipe_items (pipes s p))"
  proof (cases "pipe_items (pipes s p) = [] \<and> pi_writeopen (pipes s p)")
    case True
    then show ?thesis using piperead_run [OF assms(1), of a k] assms(2) by simp
  next
    case False
    have "drop (min k (length xs)) xs = drop k xs" "take (min k (length xs)) xs = take k xs" for xs :: "byte list"
      by (simp_all add: min_def)
    then show ?thesis using piperead_spec [OF assms(1,3)] False by auto
  qed
qed

theorem pipe_calls_witness:
  "\<forall>s. \<exists>t u. pipewrite 0x80006000 4094 (int 4) (demo_user s) = Ok (int 4) t \<and>
     piperead 0x80006000 4094 (int 4) (demo_user s) = Sleep (Chan_nread 0x80006000) u"
proof
  fix s :: file_st
  note c = pipe_calls [OF demo_user_caller [of "0x80006000" s], of "{0, 4096}" 4094 4]
  show "\<exists>t u. pipewrite 0x80006000 4094 (int 4) (demo_user s) = Ok (int 4) t \<and>
     piperead 0x80006000 4094 (int 4) (demo_user s) = Sleep (Chan_nread 0x80006000) u"
    using c demo_dest by (simp add: demo_pipe_ok PIPESIZE_def) (auto simp: demo_pipe_def)
qed

end
