(* ===== verification/Tty.thy ===== *)
theory Tty
  imports Console Ring Uspace
begin

text \<open>
  The console as a line discipline.  The ring buffer \<^verbatim>\<open>cons.buf\<close> with its three counters holds
  two queues, the lines that readers may take and the line being edited.  \<open>tty_input\<close> is what
  a typed character means for them; \<open>consoleintr\<close> implements it, and \<open>consoleread\<close> hands out
  the finished lines.
\<close>

section \<open>The specification\<close>

record tty =
  ready :: "byte list"
  edit :: "byte list"
  echo :: "byte list"

definition rubout :: "byte list" where "rubout = [8, 32, 8]"

definition tty_input :: "byte \<Rightarrow> tty \<Rightarrow> tty" where
  "tty_input c t =
     (if c = CTRL_P then t
      else if c = CTRL_U
      then t\<lparr>edit := [], echo := echo t @ concat (replicate (length (edit t)) rubout)\<rparr>
      else if c = CTRL_H \<or> c = DEL
      then if edit t = [] then t else t\<lparr>edit := butlast (edit t), echo := echo t @ rubout\<rparr>
      else if c = 0 \<or> length (ready t) + length (edit t) \<ge> 128 then t
      else let c = (if c = CR then NL else c); line = edit t @ [c] in
           if c = NL \<or> c = CTRL_D \<or> length (ready t) + length line = 128
           then t\<lparr>ready := ready t @ line, edit := [], echo := echo t @ [c]\<rparr>
           else t\<lparr>edit := line, echo := echo t @ [c]\<rparr>)"

section \<open>The representation\<close>

definition tty_of :: "'z cons_st_scheme \<Rightarrow> tty" where
  "tty_of s = \<lparr>ready = ring 128 (cons_buf s) (cons_r s) (cons_w s),
     edit = ring 128 (cons_buf s) (cons_w s) (cons_e s), echo = uart_out s\<rparr>"

definition cons_ok :: "'z cons_st_scheme \<Rightarrow> bool" where
  "cons_ok s \<longleftrightarrow> length (cons_buf s) = 128 \<and>
     unat (cons_w s - cons_r s) + unat (cons_e s - cons_w s) \<le> 128 \<and>
     NL \<notin> set (edit (tty_of s))"

lemma ring_size_cons: "ring_size 128"
  by (simp add: ring_size_def)

lemma unat_mod_INPUT: "unat (i mod INPUT_BUF_SIZE) = unat i mod 128"
  by (simp add: INPUT_BUF_SIZE_def unat_mod)

lemma cons_total: "unat (w - r) + unat (e - w) \<le> 128 \<Longrightarrow> unat (e - r) = unat (w - r) + unat (e - w)" for e w r :: u32
proof -
  assume a: "unat (w - r) + unat (e - w) \<le> 128"
  have e: "e - r = (w - r) + (e - w)" by simp
  show ?thesis unfolding e using a by (simp only: unat_word_ariths) simp
qed

lemma cons_at_last:
  "cons_e s \<noteq> cons_w s \<Longrightarrow> cons_at (cons_e s - 1) s = last (edit (tty_of s))"
  by (simp add: cons_at_def tty_of_def unat_mod_INPUT ring_last)

lemma edit_empty: "edit (tty_of s) = [] \<longleftrightarrow> cons_e s = cons_w s"
  by (auto simp: tty_of_def ring_empty_iff)

text \<open>Erasing one character, the body of the loop and of the backspace case.\<close>

definition erase :: "'z cons_st_scheme \<Rightarrow> 'z cons_st_scheme" where
  "erase s = s\<lparr>cons_e := cons_e s - 1, uart_out := uart_out s @ rubout\<rparr>"

lemma consputc_rubout: "consputc BACKSPACE s = Ok () (s\<lparr>uart_out := uart_out s @ rubout\<rparr>)"
  by (simp add: consputc_def uartputc_sync_def send_def sq_run rubout_def)

lemma erase_tty:
  assumes "cons_e s \<noteq> cons_w s"
  shows "tty_of (erase s) = (tty_of s)\<lparr>edit := butlast (edit (tty_of s)), echo := echo (tty_of s) @ rubout\<rparr>"
  using assms by (simp add: erase_def tty_of_def ring_unput)

lemma erase_ok:
  assumes "cons_ok s" "cons_e s \<noteq> cons_w s"
  shows "cons_ok (erase s)"
proof -
  have "unat (cons_e s - 1 - cons_w s) = unat (cons_e s - cons_w s) - 1"
    using length_ring [of 128 "cons_buf s" "cons_w s" "cons_e s - 1"] ring_unput [of "cons_w s" "cons_e s" 128 "cons_buf s"] assms(2)
    by simp
  then show ?thesis
    using assms erase_tty [OF assms(2)] by (auto simp: cons_ok_def erase_def dest: in_set_butlastD)
qed

lemma kill_line_run:
  assumes "cons_ok s" "n = unat (cons_e s - cons_w s)"
  shows "\<exists>e out. kill_line n s = Ok () (s\<lparr>cons_e := e, uart_out := out\<rparr>) \<and>
    cons_ok (s\<lparr>cons_e := e, uart_out := out\<rparr>) \<and>
    tty_of (s\<lparr>cons_e := e, uart_out := out\<rparr>) = (tty_of s)\<lparr>edit := [], echo := echo (tty_of s) @ concat (replicate n rubout)\<rparr>"
  using assms
proof (induction n arbitrary: s)
  case 0
  then have "cons_e s = cons_w s" using unat_eq_zero [of "cons_e s - cons_w s"] by simp
  then have "tty_of s = (tty_of s)\<lparr>edit := [], echo := echo (tty_of s) @ concat (replicate 0 rubout)\<rparr>"
    by (simp add: tty_of_def)
  moreover have id: "s\<lparr>cons_e := cons_e s, uart_out := uart_out s\<rparr> = s" by simp
  ultimately show ?case
    by (intro exI [of _ "cons_e s"] exI [of _ "uart_out s"]) (unfold id, simp add: 0(1))
next
  case (Suc n)
  then have ne: "cons_e s \<noteq> cons_w s" by auto
  then have "edit (tty_of s) \<noteq> []" by (simp add: edit_empty)
  then have "cons_at (cons_e s - 1) s \<noteq> NL"
    using cons_at_last [OF ne] Suc.prems(1) by (auto simp: cons_ok_def dest: last_in_set)
  then have step: "kill_line (Suc n) s = kill_line n (erase s)"
    using ne by (simp add: bnd_run sq_run consputc_rubout erase_def)
  have "length (edit (tty_of (erase s))) = n"
    using erase_tty [OF ne] Suc.prems(2) by (simp add: tty_of_def)
  then have "n = unat (cons_e (erase s) - cons_w (erase s))" by (simp add: tty_of_def)
  from Suc.IH [OF erase_ok [OF Suc.prems(1) ne] this] obtain e out where
    "kill_line n (erase s) = Ok () ((erase s)\<lparr>cons_e := e, uart_out := out\<rparr>)"
    "cons_ok ((erase s)\<lparr>cons_e := e, uart_out := out\<rparr>)"
    "tty_of ((erase s)\<lparr>cons_e := e, uart_out := out\<rparr>) =
       (tty_of (erase s))\<lparr>edit := [], echo := echo (tty_of (erase s)) @ concat (replicate n rubout)\<rparr>" by blast
  then show ?case using step erase_tty [OF ne]
    by (intro exI [of _ e] exI [of _ out]) (simp add: erase_def)
qed

lemma foreach_logs:
  assumes "\<And>i s. \<exists>k. f i s = Ok () (s\<lparr>klog := k\<rparr>)"
  shows "\<exists>k. foreach is f s = Ok () (s\<lparr>klog := k\<rparr>)"
proof (induction "is" arbitrary: s)
  case Nil
  show ?case by (intro exI [of _ "klog s"]) simp
next
  case (Cons i "is")
  obtain k where k: "f i s = Ok () (s\<lparr>klog := k\<rparr>)" using assms by blast
  obtain k' where "foreach is f (s\<lparr>klog := k\<rparr>) = Ok () (s\<lparr>klog := k, klog := k'\<rparr>)" using Cons.IH by blast
  then show ?case using k by (intro exI [of _ k']) (simp add: sq_run)
qed

lemma procdump_run:
  fixes s :: "'z proc_st_scheme"
  shows "\<exists>k. procdump s = Ok () (s\<lparr>klog := k\<rparr>)"
proof -
  have nl: "k_printf [CHR 0x0A] [] = Some [CHR 0x0A]" by (simp add: k_printf_def)
  have some: "\<exists>out. k_printf ''%d %s %s'' [Reg w, Ptr a, Ptr b] = Some out" for w a b
    by (simp add: k_printf_def conversion_def Let_def)
  define body :: "nat \<Rightarrow> ('z proc_st_scheme, unit) kernel" where
    "body = (\<lambda>i. bnd (pget i id) (\<lambda>p. if p_state p = UNUSED then ret ()
       else sq (kprintf ''%d %s %s'' [Reg (word_of_int (p_pid p)), Ptr (Some (state_name (p_state p))),
                   Ptr (Some (name_string (p_name p)))]) (kprintf [CHR 0x0A] [])))"
  have one: "\<exists>k. body i s = Ok () (s\<lparr>klog := k\<rparr>)"
    for i and s :: "'z proc_st_scheme"
  proof (cases "p_state (procs s ! i) = UNUSED")
    case True
    then show ?thesis by (intro exI [of _ "klog s"]) (simp add: bnd_run body_def)
  next
    case False
    obtain out where "k_printf ''%d %s %s'' [Reg (word_of_int (p_pid (procs s ! i))), Ptr (Some (state_name (p_state (procs s ! i)))),
                       Ptr (Some (name_string (p_name (procs s ! i))))] = Some out" using some by blast
    then show ?thesis using False
      by (intro exI [of _ "klog s @ [out, [CHR 0x0A]]"]) (simp add: bnd_run sq_run kprintf_def nl body_def)
  qed
  obtain k where "foreach [0..<NPROC] body (s\<lparr>klog := klog s @ [[CHR 0x0A]]\<rparr>) =
      Ok () (s\<lparr>klog := klog s @ [[CHR 0x0A]], klog := k\<rparr>)"
    using foreach_logs [of body "[0..<NPROC]" "s\<lparr>klog := klog s @ [[CHR 0x0A]]\<rparr>"] one by blast
  then show ?thesis unfolding procdump_def body_def [symmetric]
    by (intro exI [of _ k]) (simp add: sq_run kprintf_def nl)
qed

section \<open>Input\<close>

text \<open>The processor that takes the interrupt holds no process lock, or only that of its process.\<close>

definition intr_ready :: "'z cons_st_scheme \<Rightarrow> bool" where
  "intr_ready s \<longleftrightarrow> L_cons \<notin> set (held s) \<and> length (procs s) = NPROC \<and>
     (\<forall>i<NPROC. L_proc i \<in> set (held s) \<longrightarrow> curproc s = Some i)"

text \<open>Storing a character.\<close>

definition store_char :: "byte \<Rightarrow> 'z cons_st_scheme \<Rightarrow> 'z cons_st_scheme" where
  "store_char c s = s\<lparr>uart_out := uart_out s @ [c],
     cons_buf := (cons_buf s)[unat (cons_e s) mod 128 := c], cons_e := cons_e s + 1\<rparr>"

lemma consputc_char: "consputc (uint c) s = Ok () (s\<lparr>uart_out := uart_out s @ [c]\<rparr>)"
proof -
  have "uint c < 2 ^ 8" using uint_lt2p [of c] by simp
  then show ?thesis by (simp add: consputc_def BACKSPACE_def uartputc_sync_def send_def)
qed

lemma store_char_tty:
  assumes "cons_ok s" "unat (cons_e s - cons_r s) < 128"
  shows "tty_of (store_char c s) = (tty_of s)\<lparr>edit := edit (tty_of s) @ [c], echo := echo (tty_of s) @ [c]\<rparr>"
    and "unat (cons_e s + 1 - cons_w s) = Suc (unat (cons_e s - cons_w s))"
    and "unat (cons_e s + 1 - cons_r s) = Suc (unat (cons_e s - cons_r s))"
proof -
  have len: "length (cons_buf s) = 128" and le: "unat (cons_w s - cons_r s) + unat (cons_e s - cons_w s) \<le> 128"
    using assms(1) by (simp_all add: cons_ok_def)
  have tot: "unat (cons_e s - cons_r s) = unat (cons_w s - cons_r s) + unat (cons_e s - cons_w s)"
    by (rule cons_total [OF le])
  show e: "unat (cons_e s + 1 - cons_w s) = Suc (unat (cons_e s - cons_w s))"
    using assms(2) tot by (intro unat_diff_Suc) simp
  show "unat (cons_e s + 1 - cons_r s) = Suc (unat (cons_e s - cons_r s))"
    using assms(2) by (intro unat_diff_Suc) simp
  let ?b = "(cons_buf s)[unat (cons_e s) mod 128 := c]"
  have ed: "ring 128 ?b (cons_w s) (cons_e s + 1) = ring 128 (cons_buf s) (cons_w s) (cons_e s) @ [c]"
    using assms(2) tot len by (intro ring_put) (simp_all add: ring_size_cons)
  have "ring 128 ?b (cons_r s) (cons_e s + 1) = ring 128 (cons_buf s) (cons_r s) (cons_e s) @ [c]"
    using assms(2) len by (intro ring_put) (simp_all add: ring_size_cons)
  moreover have "ring 128 ?b (cons_r s) (cons_e s + 1) =
      ring 128 ?b (cons_r s) (cons_w s) @ ring 128 ?b (cons_w s) (cons_e s + 1)"
    using e le by (intro ring_split) simp
  moreover have "ring 128 (cons_buf s) (cons_r s) (cons_e s) =
      ring 128 (cons_buf s) (cons_r s) (cons_w s) @ ring 128 (cons_buf s) (cons_w s) (cons_e s)"
    using le by (intro ring_split) simp
  ultimately have "ring 128 ?b (cons_r s) (cons_w s) = ring 128 (cons_buf s) (cons_r s) (cons_w s)"
    using ed by simp
  then show "tty_of (store_char c s) = (tty_of s)\<lparr>edit := edit (tty_of s) @ [c], echo := echo (tty_of s) @ [c]\<rparr>"
    using ed by (simp add: tty_of_def store_char_def)
qed

text \<open>Finishing the line.\<close>

lemma commit_line_tty:
  assumes "unat (cons_w s - cons_r s) + unat (cons_e s - cons_w s) \<le> 128" "length (cons_buf s) = 128"
  shows "tty_of (s\<lparr>cons_w := cons_e s\<rparr>) = (tty_of s)\<lparr>ready := ready (tty_of s) @ edit (tty_of s), edit := []\<rparr>"
    and "cons_ok (s\<lparr>cons_w := cons_e s\<rparr>)"
proof -
  have "ring 128 (cons_buf s) (cons_r s) (cons_e s) =
      ring 128 (cons_buf s) (cons_r s) (cons_w s) @ ring 128 (cons_buf s) (cons_w s) (cons_e s)"
    using assms by (intro ring_split) simp
  then show "tty_of (s\<lparr>cons_w := cons_e s\<rparr>) = (tty_of s)\<lparr>ready := ready (tty_of s) @ edit (tty_of s), edit := []\<rparr>"
    by (simp add: tty_of_def)
  show "cons_ok (s\<lparr>cons_w := cons_e s\<rparr>)"
    using assms cons_total [OF assms(1)] by (simp add: cons_ok_def tty_of_def)
qed

lemma tty_lengths: "length (ready (tty_of s)) = unat (cons_w s - cons_r s)" "length (edit (tty_of s)) = unat (cons_e s - cons_w s)"
  by (simp_all add: tty_of_def)

text \<open>The default case of the switch, for a character that is stored.\<close>

lemma consoleintr_store:
  fixes s :: "'z cons_st_scheme"
  assumes ok: "cons_ok s" and rdy: "intr_ready s"
    and c: "c \<noteq> CTRL_P" "c \<noteq> CTRL_U" "c \<noteq> CTRL_H" "c \<noteq> DEL" "c \<noteq> 0" and room: "unat (cons_e s - cons_r s) < 128"
  defines "c' \<equiv> if c = CR then NL else c"
  shows "\<exists>t ps. consoleintr c s = Ok () (t\<lparr>procs := ps\<rparr>) \<and> held t = held s \<and> cons_ok t \<and> tty_of t = tty_input c (tty_of s) \<and>
    ps = (if ready (tty_of t) = ready (tty_of s) then procs s else awake_procs Chan_cons (curproc s) (procs s)) \<and>
    curproc t = curproc s"
proof -
  let ?h = "L_cons # held s"
  let ?s = "store_char c' s"
  note st = store_char_tty(1) [OF ok room, of c'] store_char_tty(2,3) [OF ok room]
  have le: "unat (cons_w s - cons_r s) + unat (cons_e s - cons_w s) \<le> 128" and len: "length (cons_buf s) = 128"
    and nl: "NL \<notin> set (edit (tty_of s))"
    using ok by (simp_all add: cons_ok_def)
  have tot: "unat (cons_e s - cons_r s) = unat (cons_w s - cons_r s) + unat (cons_e s - cons_w s)"
    by (rule cons_total [OF le])
  have lt: "cons_e s - cons_r s < INPUT_BUF_SIZE" using room by (simp add: word_less_nat_alt INPUT_BUF_SIZE_def)
  have full: "cons_e s + 1 - cons_r s = INPUT_BUF_SIZE \<longleftrightarrow> length (ready (tty_of s)) + length (edit (tty_of s) @ [c']) = 128"
    unfolding tty_lengths length_append word_unat_eq_iff st(3) tot by (simp add: INPUT_BUF_SIZE_def)
  have spec: "tty_input c (tty_of s) =
      (if c' = NL \<or> c' = CTRL_D \<or> length (ready (tty_of s)) + length (edit (tty_of s) @ [c']) = 128
       then (tty_of s)\<lparr>ready := ready (tty_of s) @ edit (tty_of s) @ [c'], edit := [], echo := echo (tty_of s) @ [c']\<rparr>
       else (tty_of s)\<lparr>edit := edit (tty_of s) @ [c'], echo := echo (tty_of s) @ [c']\<rparr>)"
    using c room tot by (simp add: tty_input_def Let_def c'_def tty_lengths)
  have run: "consoleintr c s =
      (if c' = NL \<or> c' = CTRL_D \<or> cons_e s + 1 - cons_r s = INPUT_BUF_SIZE
       then Ok () (?s\<lparr>cons_w := cons_e s + 1, procs := awake_procs Chan_cons (curproc s) (procs s)\<rparr>)
       else Ok () ?s)"
  proof -
    have w: "wakeup Chan_cons x = Ok () (x\<lparr>procs := awake_procs Chan_cons (curproc s) (procs s)\<rparr>)"
      if "held x = ?h" "procs x = procs s" "curproc x = curproc s" for x :: "'z cons_st_scheme"
      using rdy that by (subst wakeup_run) (auto simp: intr_ready_def)
    show ?thesis
      using rdy c lt w
      by (simp add: consoleintr_def intr_ready_def sq_run bnd_run Let_def c'_def [symmetric] consputc_char unat_mod_INPUT)
        (simp add: store_char_def)
  qed
  show ?thesis
  proof (cases "c' = NL \<or> c' = CTRL_D \<or> cons_e s + 1 - cons_r s = INPUT_BUF_SIZE")
    case True
    have "tty_of (?s\<lparr>cons_w := cons_e ?s\<rparr>) = (tty_of ?s)\<lparr>ready := ready (tty_of ?s) @ edit (tty_of ?s), edit := []\<rparr>"
      and "cons_ok (?s\<lparr>cons_w := cons_e ?s\<rparr>)"
      using le len st(2) tot room by (intro commit_line_tty; simp add: store_char_def)+
    then have "tty_of (?s\<lparr>cons_w := cons_e ?s\<rparr>) = tty_input c (tty_of s)" "cons_ok (?s\<lparr>cons_w := cons_e ?s\<rparr>)"
      using spec True full st(1) by simp_all
    then show ?thesis using run True spec full
      by (intro exI [of _ "?s\<lparr>cons_w := cons_e ?s\<rparr>"] exI [of _ "awake_procs Chan_cons (curproc s) (procs s)"])
        (simp add: store_char_def)
  next
    case False
    have "cons_ok ?s" using False nl le len st tot room by (simp add: cons_ok_def) (auto simp: store_char_def)
    moreover have "tty_of ?s = tty_input c (tty_of s)" using spec False full st(1) by simp
    ultimately show ?thesis using run False spec full
      by (intro exI [of _ ?s] exI [of _ "procs s"]) (simp add: store_char_def)
  qed
qed

lemma consoleintr_spec:
  fixes s :: "'z cons_st_scheme"
  assumes ok: "cons_ok s" and rdy: "intr_ready s"
  shows "\<exists>t. consoleintr c s = Ok () t \<and> cons_ok t \<and> intr_ready t \<and> held t = held s \<and> curproc t = curproc s \<and>
    tty_of t = tty_input c (tty_of s) \<and>
    procs t = (if ready (tty_of t) = ready (tty_of s) then procs s else awake_procs Chan_cons (curproc s) (procs s))"
proof -
  have h: "L_cons \<notin> set (held s)" using rdy by (simp add: intr_ready_def)
  have le: "unat (cons_w s - cons_r s) + unat (cons_e s - cons_w s) \<le> 128" using ok by (simp add: cons_ok_def)
  consider (dump) "c = CTRL_P" | (kill) "c = CTRL_U" | (rub) "c = CTRL_H \<or> c = DEL"
    | (drop) "c \<noteq> CTRL_P" "c \<noteq> CTRL_U" "c \<noteq> CTRL_H" "c \<noteq> DEL" "c = 0 \<or> 128 \<le> unat (cons_e s - cons_r s)"
    | (keep) "c \<noteq> CTRL_P" "c \<noteq> CTRL_U" "c \<noteq> CTRL_H" "c \<noteq> DEL" "c \<noteq> 0" "unat (cons_e s - cons_r s) < 128"
    by linarith
  then show ?thesis
  proof cases
    case dump
    obtain k where "procdump (s\<lparr>held := L_cons # held s\<rparr>) = Ok () (s\<lparr>held := L_cons # held s, klog := k\<rparr>)"
      using procdump_run by blast
    then show ?thesis using dump h ok rdy
      by (simp add: consoleintr_def sq_run tty_input_def) (simp add: cons_ok_def tty_of_def intr_ready_def)
  next
    case kill
    let ?s = "s\<lparr>held := L_cons # held s\<rparr>"
    have "cons_ok ?s" "tty_of ?s = tty_of s" using ok by (simp_all add: cons_ok_def tty_of_def)
    then obtain e out where "kill_line (unat (cons_e s - cons_w s)) ?s = Ok () (?s\<lparr>cons_e := e, uart_out := out\<rparr>)"
      "cons_ok (?s\<lparr>cons_e := e, uart_out := out\<rparr>)"
      "tty_of (?s\<lparr>cons_e := e, uart_out := out\<rparr>) = (tty_of s)\<lparr>edit := [],
         echo := echo (tty_of s) @ concat (replicate (unat (cons_e s - cons_w s)) rubout)\<rparr>"
      using kill_line_run [of ?s "unat (cons_e s - cons_w s)"] by auto
    then show ?thesis using kill h rdy
      by (simp add: consoleintr_def sq_run bnd_run tty_input_def CTRL_U_def CTRL_P_def tty_lengths)
        (simp add: cons_ok_def tty_of_def intr_ready_def)
  next
    case rub
    show ?thesis
    proof (cases "cons_e s = cons_w s")
      case True
      then show ?thesis using rub h ok rdy edit_empty [of s]
        by (auto simp: consoleintr_def sq_run bnd_run tty_input_def CTRL_U_def CTRL_P_def CTRL_H_def DEL_def)
    next
      case False
      have "consoleintr c s = Ok () (erase s)" using rub h False
        by (auto simp: consoleintr_def sq_run bnd_run consputc_rubout erase_def CTRL_U_def CTRL_P_def CTRL_H_def DEL_def)
      moreover have "ready (tty_of (erase s)) = ready (tty_of s)" by (simp add: erase_def tty_of_def)
      ultimately show ?thesis using erase_ok [OF ok False] erase_tty [OF False] rub False rdy edit_empty [of s]
        by (auto simp: tty_input_def CTRL_U_def CTRL_P_def CTRL_H_def DEL_def) (simp_all add: erase_def intr_ready_def)
    qed
  next
    case drop
    have "\<not> (c \<noteq> 0 \<and> cons_e s - cons_r s < INPUT_BUF_SIZE)"
      using drop by (auto simp: word_less_nat_alt INPUT_BUF_SIZE_def)
    moreover have "c = 0 \<or> 128 \<le> length (ready (tty_of s)) + length (edit (tty_of s))"
      using drop cons_total [OF le] by (simp add: tty_lengths)
    ultimately show ?thesis using drop h ok rdy
      by (auto simp: consoleintr_def sq_run bnd_run tty_input_def)
  next
    case keep
    then obtain t ps where t: "consoleintr c s = Ok () (t\<lparr>procs := ps\<rparr>)" "held t = held s" "cons_ok t"
      "tty_of t = tty_input c (tty_of s)"
      "ps = (if ready (tty_of t) = ready (tty_of s) then procs s else awake_procs Chan_cons (curproc s) (procs s))"
      "curproc t = curproc s"
      using consoleintr_store [OF ok rdy] by blast
    have "cons_ok (t\<lparr>procs := ps\<rparr>)" "tty_of (t\<lparr>procs := ps\<rparr>) = tty_of t"
      using t(3) by (simp_all add: cons_ok_def tty_of_def)
    moreover have "length ps = NPROC" using t(5) rdy by (simp add: intr_ready_def)
    ultimately show ?thesis using t rdy
      by (intro exI [of _ "t\<lparr>procs := ps\<rparr>"]) (simp add: intr_ready_def)
  qed
qed

text \<open>
  Property C31: the console's interrupt handler implements the line discipline, one character at
  a time, and so for every sequence of typed characters: the finished lines, the line being
  edited and the echo are those of \<open>tty_input\<close>, no character beyond the 128 the buffer has room
  for is stored, nothing panics, and the locks are left as they were.
\<close>

theorem consoleintr_refines_tty:
  fixes s :: "'z cons_st_scheme"
  assumes "cons_ok s" "intr_ready s"
  shows "\<exists>t. foreach cs consoleintr s = Ok () t \<and> cons_ok t \<and> held t = held s \<and>
    tty_of t = fold tty_input cs (tty_of s)"
  using assms
proof (induction cs arbitrary: s)
  case Nil
  then show ?case by simp
next
  case (Cons c cs)
  obtain t where t: "consoleintr c s = Ok () t" "cons_ok t" "intr_ready t" "held t = held s"
    "tty_of t = tty_input c (tty_of s)"
    using consoleintr_spec [OF Cons.prems] by blast
  then show ?case using Cons.IH [OF t(2,3)] by (auto simp: sq_run)
qed

section \<open>Reading lines\<close>

text \<open>
  What a read of at most \<open>n\<close> more bytes takes from the finished input: the bytes delivered, what
  is left, and whether the read ends.  A line feed ends it and is delivered; an end-of-file
  character ends it, and is left for the next read if this one has delivered something.
\<close>

fun tty_read :: "nat \<Rightarrow> nat \<Rightarrow> byte list \<Rightarrow> byte list \<times> byte list \<times> bool" where
  "tty_read 0 target q = ([], q, True)"
| "tty_read (Suc n) target [] = ([], [], False)"
| "tty_read (Suc n) target (c # q) =
     (if c = CTRL_D then ([], if Suc n < target then c # q else q, True)
      else if c = NL then ([c], q, True)
      else case tty_read n target q of (d, rest, fin) \<Rightarrow> (c # d, rest, fin))"

lemma tty_read_split: "tty_read n target q = (d, rest, fin) \<Longrightarrow>
    length d \<le> n \<and> (q = d @ rest \<or> (\<exists>r. q = d @ CTRL_D # r \<and> rest = r \<and> \<not> n - length d < target))"
proof (induction n target q arbitrary: d rest rule: tty_read.induct)
  case (3 n target c q)
  then show ?case by (cases "c = CTRL_D \<or> c = NL") (auto split: prod.splits if_splits)
qed auto

definition read_ready :: "nat \<Rightarrow> 'z cons_st_scheme \<Rightarrow> bool" where
  "read_ready pr s \<longleftrightarrow> held s = [L_cons] \<and> curproc s = Some pr \<and> pr < length (procs s) \<and> cons_ok s"

lemma tty_get:
  assumes "cons_ok s" "ready (tty_of s) = c # q"
  shows "cons_r s \<noteq> cons_w s" "cons_at (cons_r s) s = c" "cons_ok (s\<lparr>cons_r := cons_r s + 1\<rparr>)"
    "tty_of (s\<lparr>cons_r := cons_r s + 1\<rparr>) = (tty_of s)\<lparr>ready := q\<rparr>"
proof -
  show ne: "cons_r s \<noteq> cons_w s" using assms(2) by (auto simp: tty_of_def)
  have g: "ring 128 (cons_buf s) (cons_r s) (cons_w s) =
      cons_buf s ! (unat (cons_r s) mod 128) # ring 128 (cons_buf s) (cons_r s + 1) (cons_w s)"
    using ne by (intro ring_get ring_size_cons)
  then show "cons_at (cons_r s) s = c" and t: "tty_of (s\<lparr>cons_r := cons_r s + 1\<rparr>) = (tty_of s)\<lparr>ready := q\<rparr>"
    using assms(2) by (simp_all add: cons_at_def unat_mod_INPUT tty_of_def)
  show "cons_ok (s\<lparr>cons_r := cons_r s + 1\<rparr>)"
    using assms(1) unat_diff_next [OF ne] t by (simp add: cons_ok_def)
qed

lemma consoleread_loop_run:
  fixes s :: "'z cons_st_scheme"
  assumes "read_ready pr s" "\<not> p_killed (procs s ! pr)"
    and "user_dest (mem s) (p_pagetable (procs s ! pr)) P dst n"
    and "tty_read n target (ready (tty_of s)) = (d, rest, fin)" "n \<le> target"
  shows "\<exists>t. (if fin then consoleread_loop n True dst target s = Ok (int (target - n + length d)) t \<and> held t = []
       else consoleread_loop n True dst target s = Sleep Chan_cons t \<and> held t = [L_proc pr]) \<and>
     tty_of t = (tty_of s)\<lparr>ready := rest\<rparr> \<and> cons_ok t \<and>
     written (mem s) (mem t) (p_pagetable (procs s ! pr)) P dst d"
  using assms
proof (induction n arbitrary: s dst d rest)
  case 0
  have "written (mem s) (mem s) (p_pagetable (procs s ! pr)) P dst []"
    using 0 by (intro written_Nil) (simp add: user_dest_def user_range_def)
  then show ?case using 0
    by (intro exI [of _ "s\<lparr>held := []\<rparr>"]) (auto simp: sq_run read_ready_def tty_of_def cons_ok_def)
next
  case (Suc n)
  note rdy = Suc.prems(1)
  have ok: "cons_ok s" and h: "held s = [L_cons]" "curproc s = Some pr" "pr < length (procs s)"
    using rdy by (simp_all add: read_ready_def)
  let ?r = "p_pagetable (procs s ! pr)"
  have w0: "written (mem s) (mem s) ?r P dst []"
    using Suc.prems(3) by (intro written_Nil) (simp add: user_dest_def user_range_def)
  show ?case
  proof (cases "ready (tty_of s)")
    case Nil
    then have "cons_r s = cons_w s" by (simp add: tty_of_def ring_empty_iff)
    moreover have "sleep Chan_cons L_cons s = Sleep Chan_cons (s\<lparr>held := [L_proc pr],
        procs := (procs s)[pr := (procs s ! pr)\<lparr>p_chan := Chan_cons, p_state := SLEEPING\<rparr>]\<rparr>)"
      using h by (intro sleep_run) simp_all
    ultimately show ?thesis using Nil Suc.prems(2,4) h w0 ok
      by (intro exI [of _ "s\<lparr>held := [L_proc pr],
        procs := (procs s)[pr := (procs s ! pr)\<lparr>p_chan := Chan_cons, p_state := SLEEPING\<rparr>]\<rparr>"])
        (auto simp: bnd_run sq_run tty_of_def cons_ok_def)
  next
    case (Cons c q)
    note g = tty_get [OF ok Cons]
    let ?s1 = "s\<lparr>cons_r := cons_r s + 1\<rparr>"
    show ?thesis
    proof (cases "c = CTRL_D")
      case True
      let ?t = "if Suc n < target then s\<lparr>held := []\<rparr> else ?s1\<lparr>held := []\<rparr>"
      have "consoleread_loop (Suc n) True dst target s = Ok (int target - int (Suc n)) ?t"
        using g(1,2) True h by (simp add: bnd_run sq_run)
      moreover have "d = []" "rest = (if Suc n < target then c # q else q)" "fin"
        using Suc.prems(4) True Cons by auto
      moreover have "tty_of ?t = (tty_of s)\<lparr>ready := if Suc n < target then c # q else q\<rparr>" "cons_ok ?t"
        using g(3,4) Cons ok by (simp_all add: tty_of_def cons_ok_def)
      ultimately show ?thesis using w0 Suc.prems(5)
        by (intro exI [of _ ?t]) (simp add: of_nat_diff)
    next
      case False
      have "user_dest (mem s) ?r P dst 1" using Suc.prems(3) by (rule user_dest_first)
      then obtain m1 where m1: "copyout ?r dst [c] ?s1 = Ok 0 (?s1\<lparr>mem := m1\<rparr>)" "written (mem s) m1 ?r P dst [c]"
        using copyout_spec [of ?s1 ?r P dst "[c]"] by (auto simp: user_dest_def)
      let ?s2 = "?s1\<lparr>mem := m1\<rparr>"
      have ty: "tty_of ?s2 = (tty_of s)\<lparr>ready := q\<rparr>" "cons_ok ?s2"
        using g(3,4) by (simp_all add: tty_of_def cons_ok_def)
      show ?thesis
      proof (cases "c = NL")
        case True
        have "consoleread_loop (Suc n) True dst target s = Ok (int target - int n) (?s2\<lparr>held := []\<rparr>)"
          using g(1,2) True False h m1(1) by (simp add: bnd_run sq_run either_copyout_def NL_def CTRL_D_def)
        moreover have "d = [c]" "rest = q" "fin" using Suc.prems(4) True False Cons by auto
        moreover have "tty_of (?s2\<lparr>held := []\<rparr>) = tty_of ?s2" "cons_ok (?s2\<lparr>held := []\<rparr>)"
          using ty(2) by (simp_all add: tty_of_def cons_ok_def)
        ultimately show ?thesis using m1(2) ty(1) Suc.prems(5)
          by (intro exI [of _ "?s2\<lparr>held := []\<rparr>"]) (simp add: of_nat_diff)
      next
        case F2: False
        have step: "consoleread_loop (Suc n) True dst target s = consoleread_loop n True (dst + 1) target ?s2"
          using g(1,2) F2 False h m1(1) by (simp add: bnd_run sq_run either_copyout_def)
        obtain d' where d': "d = c # d'" "tty_read n target q = (d', rest, fin)"
          using Suc.prems(4) F2 False Cons by (auto split: prod.splits)
        have "read_ready pr ?s2" using rdy ty(2) by (simp add: read_ready_def)
        moreover have "user_dest (mem ?s2) (p_pagetable (procs ?s2 ! pr)) P (dst + 1) n"
          using user_dest_next [OF Suc.prems(3) m1(2)] by simp
        moreover have "tty_read n target (ready (tty_of ?s2)) = (d', rest, fin)" using d' ty by simp
        ultimately obtain t where t: "if fin then consoleread_loop n True (dst + 1) target ?s2 = Ok (int (target - n + length d')) t \<and> held t = []
            else consoleread_loop n True (dst + 1) target ?s2 = Sleep Chan_cons t \<and> held t = [L_proc pr]"
          "tty_of t = (tty_of ?s2)\<lparr>ready := rest\<rparr>" "cons_ok t" "written m1 (mem t) ?r P (dst + 1) d'"
          using Suc.IH [of ?s2 "dst + 1" d' rest] Suc.prems(2,5) by auto
        have len: "length d' \<le> n" using tty_read_split [OF d'(2)] by simp
        have "written (mem s) (mem t) ?r P dst d"
          unfolding d'(1) by (rule written_step [OF Suc.prems(3) m1(2) t(4) len])
        moreover have "target - Suc n + length d = target - n + length d'" using Suc.prems(5) d'(1) by simp
        ultimately show ?thesis using t step ty(1) by (intro exI [of _ t]) simp
      qed
    qed
  qed
qed

text \<open>
  Property C32: \<open>consoleread\<close> delivers finished input as \<open>tty_read\<close> says: whole lines, no more than
  asked for, end-of-file characters as empty reads.  It returns the number of bytes it has put
  into the caller's buffer, and sleeps exactly when the finished input runs out first; the line
  being edited is not touched.
\<close>

theorem consoleread_lines:
  fixes s :: "'z cons_st_scheme"
  assumes "cons_ok s" "held s = []" "curproc s = Some pr" "pr < length (procs s)" "\<not> p_killed (procs s ! pr)"
    and "user_dest (mem s) (p_pagetable (procs s ! pr)) P dst n" "0 < n"
    and "tty_read n n (ready (tty_of s)) = (d, rest, fin)"
  shows "\<exists>t. consoleread True dst (int n) s = (if fin then Ok (int (length d)) t else Sleep Chan_cons t) \<and>
     tty_of t = (tty_of s)\<lparr>ready := rest\<rparr> \<and> cons_ok t \<and>
     uread_list (mem t) (p_pagetable (procs s ! pr)) dst (length d) = d"
proof -
  let ?s = "s\<lparr>held := [L_cons]\<rparr>" and ?r = "p_pagetable (procs s ! pr)"
  have "read_ready pr ?s" using assms by (simp add: read_ready_def cons_ok_def tty_of_def)
  moreover have ty: "tty_of ?s = tty_of s" by (simp add: tty_of_def)
  ultimately obtain t where t: "if fin then consoleread_loop n True dst n ?s = Ok (int (n - n + length d)) t \<and> held t = []
       else consoleread_loop n True dst n ?s = Sleep Chan_cons t \<and> held t = [L_proc pr]"
     "tty_of t = (tty_of s)\<lparr>ready := rest\<rparr>" "cons_ok t" "written (mem s) (mem t) ?r P dst d"
    using consoleread_loop_run [of pr ?s P dst n n d rest fin] assms by auto
  have run: "consoleread True dst (int n) s = consoleread_loop n True dst n ?s"
    using assms(2,7) by (simp add: consoleread_def sq_run)
  have d: "length d \<le> n" using tty_read_split [OF assms(8)] by simp
  have P: "pages_of dst n \<subseteq> P" "n < 2 ^ 64" using assms(6) by (simp_all add: user_dest_def user_range_def)
  have "uread_list (mem t) ?r dst (length d) = d"
    using subset_trans [OF pages_of_mono [OF d] P(1)] order.strict_trans1 [OF d P(2)]
    by (rule uread_list_written [OF t(4)])
  then show ?thesis using t run by (intro exI [of _ t]) simp
qed

text \<open>A console whose counters are about to wrap around.\<close>

definition demo_cons :: "cons_st \<Rightarrow> cons_st" where
  "demo_cons s = s\<lparr>held := [], mem := demo_mem, curproc := Some 1,
     procs := (replicate NPROC proc0)[1 := proc0\<lparr>p_state := RUNNING, p_pagetable := 0x80001000\<rparr>],
     uart_out := [], cons_buf := replicate 128 0, cons_r := - 1, cons_w := - 1, cons_e := - 1\<rparr>"

lemma demo_cons_ok: "cons_ok (demo_cons s)" "intr_ready (demo_cons s)"
  by (simp_all add: demo_cons_def cons_ok_def tty_of_def intr_ready_def)

theorem consoleintr_refines_tty_witness:
  "\<forall>s. \<exists>t. foreach [97, 98, 127, 99, 13, 100] consoleintr (demo_cons s) = Ok () t \<and>
     ready (tty_of t) = [97, 99, 10] \<and> edit (tty_of t) = [100]"
proof
  fix s :: cons_st
  have e: "fold tty_input [97, 98, 127, 99, 13, 100] \<lparr>ready = [], edit = [], echo = []\<rparr> =
      \<lparr>ready = [97, 99, 10], edit = [100], echo = [97, 98, 8, 32, 8, 99, 10, 100]\<rparr>"
    by code_simp
  have "tty_of (demo_cons s) = \<lparr>ready = [], edit = [], echo = []\<rparr>" by (simp add: demo_cons_def tty_of_def)
  then show "\<exists>t. foreach [97, 98, 127, 99, 13, 100] consoleintr (demo_cons s) = Ok () t \<and>
     ready (tty_of t) = [97, 99, 10] \<and> edit (tty_of t) = [100]"
    using consoleintr_refines_tty [OF demo_cons_ok [of s], of "[97, 98, 127, 99, 13, 100]"] e by auto
qed

definition demo_lines :: "cons_st \<Rightarrow> cons_st" where
  "demo_lines s = (demo_cons s)\<lparr>cons_buf := [97, 10, 98, 99] @ replicate 124 0, cons_r := 0, cons_w := 4, cons_e := 4\<rparr>"

theorem consoleread_lines_witness:
  "\<forall>s. \<exists>t. consoleread True 4094 (int 4) (demo_lines s) = Ok (int 2) t \<and> ready (tty_of t) = [98, 99]"
proof
  fix s :: cons_st
  have "[0..<4] = [0, 1, 2, 3 :: nat]" by (simp add: upt_rec)
  then have r: "ready (tty_of (demo_lines s)) = [97, 10, 98, 99]"
    by (simp add: tty_of_def demo_lines_def ring_def)
  have rd: "tty_read 4 4 [97, 10, 98, 99] = ([97, 10], [98, 99], True)"
    by code_simp
  have ok: "cons_ok (demo_lines s)" by (simp add: cons_ok_def demo_lines_def tty_of_def)
  have h: "held (demo_lines s) = []" "curproc (demo_lines s) = Some 1" "1 < length (procs (demo_lines s))"
    "\<not> p_killed (procs (demo_lines s) ! 1)" "mem (demo_lines s) = demo_mem"
    "p_pagetable (procs (demo_lines s) ! 1) = 0x80001000"
    by (simp_all add: demo_lines_def demo_cons_def NPROC_def proc0_def)
  show "\<exists>t. consoleread True 4094 (int 4) (demo_lines s) = Ok (int 2) t \<and> ready (tty_of t) = [98, 99]"
    using consoleread_lines [OF ok h(1-4), of "{0, 4096}" 4094 4 "[97, 10]" "[98, 99]" True, unfolded r rd h(5,6)]
      demo_dest by auto
qed

end
