(* ===== verification/Txn.thy ===== *)
theory Txn
  imports FS
begin

text \<open>
  What a system call sees of the disk inside a transaction.  \<open>blk s n\<close> is the current content of
  block \<open>n\<close>; \<open>tx s H D\<close> says that the thread holds the buffers of the blocks \<open>H\<close> and no one else holds
  any, that it has changed the blocks \<open>D\<close> of them without logging them yet, and that the blocks
  that differ from the disk otherwise are in the log header.  The rules below
  give the effect of the four operations of the block layer on this view.
\<close>

section \<open>The view\<close>

abbreviation blk :: "'z log_st_scheme \<Rightarrow> nat \<Rightarrow> block" where
  "blk s \<equiv> vcont (bview s)"

definition logged :: "'z log_st_scheme \<Rightarrow> nat set" where
  "logged s = set (take (nat (lh_n s)) (lh_block s))"

definition tx :: "'z log_st_scheme \<Rightarrow> nat set \<Rightarrow> nat set \<Rightarrow> bool" where
  "tx s H D \<longleftrightarrow> bc_inv s \<and> L_log \<notin> set (held s) \<and>
     0 \<le> lh_n s \<and> lh_n s \<le> int LOGBLOCKS \<and> length (lh_block s) = LOGBLOCKS \<and>
     distinct (take (nat (lh_n s)) (lh_block s)) \<and> finite H \<and> D \<subseteq> H \<and>
     (\<forall>n. vlock (bview s) n = (if n \<in> H then Some (mypid s) else None)) \<and>
     (\<forall>n. vrefs (bview s) n = (if n \<in> H then 1 else 0) + (if n \<in> logged s then 1 else 0)) \<and>
     vfree (bview s) + card (H \<union> logged s) = NBUF \<and>
     (\<forall>n. n \<notin> logged s \<union> D \<longrightarrow> vcont (bview s) n = vdisk (bview s) n)"

text \<open>What the operations leave alone: everything but the cache, the log header and wakeups.\<close>

definition tframe :: "'z log_st_scheme \<Rightarrow> 'z log_st_scheme \<Rightarrow> bool" where
  "tframe s t \<longleftrightarrow> (\<exists>kl ps sl bs d tr n bl. same_procs (procs s) ps \<and>
     t = s\<lparr>klog := kl, procs := ps, slocks := sl, bufs := bs, disk := d, disk_trace := tr, lh_n := n, lh_block := bl\<rparr>)"

lemma bframe_tframe: "bframe s t \<Longrightarrow> tframe s t"
proof -
  assume "bframe s t"
  then obtain kl ps sl bs d tr where *: "same_procs (procs s) ps"
    "t = s\<lparr>klog := kl, procs := ps, slocks := sl, bufs := bs, disk := d, disk_trace := tr\<rparr>"
    unfolding bframe_def by blast
  show ?thesis unfolding tframe_def *(2)
    by (intro exI [of _ kl] exI [of _ ps] exI [of _ sl] exI [of _ bs] exI [of _ d] exI [of _ tr]
        exI [of _ "lh_n s"] exI [of _ "lh_block s"]) (simp add: *(1))
qed

lemma tframe_refl [simp]: "tframe s s"
  by (rule bframe_tframe) simp

lemma tframe_trans: "tframe s t \<Longrightarrow> tframe t u \<Longrightarrow> tframe s u"
  unfolding tframe_def by (elim exE conjE) (simp, blast intro: same_procs_trans)

lemma tframe_lh: "tframe s (s\<lparr>lh_n := n, lh_block := bl\<rparr>)"
  unfolding tframe_def
  by (intro exI [of _ "klog s"] exI [of _ "procs s"] exI [of _ "slocks s"] exI [of _ "bufs s"] exI [of _ "disk s"]
      exI [of _ "disk_trace s"] exI [of _ n] exI [of _ bl]) simp

lemma tframe_fields:
  assumes "tframe s t"
  shows "held t = held s" "curproc t = curproc s" "mem t = mem s" "log_outstanding t = log_outstanding s"
    "same_procs (procs s) (procs t)"
  using assms by (auto simp: tframe_def)

lemma card_logged: "tx s H D \<Longrightarrow> card (logged s) = nat (lh_n s)"
  by (auto simp: tx_def logged_def distinct_card)

lemma finite_logged [simp]: "finite (logged s)"
  by (simp add: logged_def)

lemma txD:
  assumes "tx s H D"
  shows "bc_inv s" "finite H" "D \<subseteq> H" "vlock (bview s) n = (if n \<in> H then Some (mypid s) else None)"
    "vrefs (bview s) n = (if n \<in> H then 1 else 0) + (if n \<in> logged s then 1 else 0)"
    "vfree (bview s) + card (H \<union> logged s) = NBUF"
    "n \<notin> logged s \<Longrightarrow> n \<notin> D \<Longrightarrow> vcont (bview s) n = vdisk (bview s) n"
    "length (blk s n) = BSIZE"
  using assms bc.cont_len [of s n] by (auto simp: tx_def)

lemma bframe_logged: "bframe s t \<Longrightarrow> logged t = logged s"
  using bframe_log [of s t] by (simp add: logged_def)

lemma tx_frame:
  assumes "tx s H D" "bframe s t" "bc_inv t" "finite H'" "D' \<subseteq> H'"
    and "\<And>n. vlock (bview t) n = (if n \<in> H' then Some (mypid s) else None)"
    and "\<And>n. vrefs (bview t) n = (if n \<in> H' then 1 else 0) + (if n \<in> logged s then 1 else 0)"
    and "vfree (bview t) + card (H' \<union> logged s) = NBUF"
    and "\<And>n. n \<notin> logged s \<Longrightarrow> n \<notin> D' \<Longrightarrow> vcont (bview t) n = vdisk (bview t) n"
  shows "tx t H' D'"
proof -
  note f = bframe_log [OF assms(2)] bframe_held [OF assms(2)] bframe_logged [OF assms(2)]
  have "mypid t = mypid s" using bframe_mypid [OF assms(2)] txD(1) [OF assms(1)] by (simp add: bc_inv_def)
  then show "tx t H' D'" using assms unfolding tx_def by (simp add: f)
qed

section \<open>The operations\<close>

lemma tx_bread:
  assumes "tx s H D" "n \<notin> H" "card (H \<union> logged s) < NBUF"
  shows "\<exists>b t. bread ROOTDEV n s = Ok b t \<and> tframe s t \<and> tx t (insert n H) D \<and> logged t = logged s \<and>
     blk t = blk s \<and> handle t n = Some b \<and> (\<forall>m\<in>H. handle t m = handle s m)"
proof -
  note d = txD [OF assms(1)]
  have "vlock (bview s) n = None" "0 < vfree (bview s) \<or> 0 < vrefs (bview s) n" "vrefs (bview s) n < 2 ^ 32 - 1"
    using assms(2,3) d(4,5,6) by (auto split: if_splits)
  from bc.read [OF d(1) this] obtain b t where t: "bread ROOTDEV n s = Ok b t" "bframe s t" "bc_inv t" "handle t n = Some b"
    "bview t = (bview s)\<lparr>vrefs := (vrefs (bview s))(n := vrefs (bview s) n + 1),
          vlock := (vlock (bview s))(n := Some (mypid s)),
          vfree := vfree (bview s) - (if vrefs (bview s) n = 0 then 1 else 0)\<rparr>"
    "\<forall>m. 0 < vrefs (bview s) m \<longrightarrow> handle t m = handle s m" by blast
  have "vfree (bview t) + card (insert n H \<union> logged s) = NBUF"
    using d(2,5,6) assms(2,3) by (auto simp: t(5) card_insert_if insert_absorb)
  then have "tx t (insert n H) D"
    using d assms(2) by (intro tx_frame [OF assms(1) t(2,3)]) (auto simp: t(5))
  moreover have "\<forall>m\<in>H. handle t m = handle s m" using t(6) d(5) by simp
  ultimately show ?thesis using t(1,4,5) bframe_tframe [OF t(2)] bframe_logged [OF t(2)] by auto
qed

lemma tx_data: "tx s H D \<Longrightarrow> n \<in> H \<Longrightarrow> handle s n = Some b \<Longrightarrow> b_data (bufs s ! b) = blk s n"
  using bc.dat_hd txD(1,5) by fastforce

lemma tx_modify:
  assumes "tx s H D" "n \<in> H" "handle s n = Some b" "length (f (blk s n)) = BSIZE"
  shows "\<exists>t. bset_data b f s = Ok () t \<and> tframe s t \<and> tx t H (insert n D) \<and> logged t = logged s \<and>
     blk t = (blk s)(n := f (blk s n)) \<and> handle t = handle s"
proof -
  note d = txD [OF assms(1)]
  have dat: "b_data (bufs s ! b) = blk s n" by (rule tx_data [OF assms(1-3)])
  have "0 < vrefs (bview s) n" using d(5) assms(2) by simp
  from bc.modify [OF d(1) assms(3) this, of f] assms(4) obtain t where
    t: "bset_data b f s = Ok () t" "bframe s t" "bc_inv t" "handle t = handle s"
      "bview t = (bview s)\<lparr>vcont := (vcont (bview s))(n := f (blk s n))\<rparr>"
    unfolding dat bset_data_def by blast
  have "tx t H (insert n D)"
    using d assms(2) by (intro tx_frame [OF assms(1) t(2,3)]) (auto simp: t(5))
  then show ?thesis using t bframe_tframe [OF t(2)] bframe_logged [OF t(2)] by auto
qed

lemma tx_release:
  assumes "tx s H D" "n \<in> H" "n \<notin> D" "handle s n = Some b"
  shows "\<exists>t. brelse b s = Ok () t \<and> tframe s t \<and> tx t (H - {n}) D \<and> logged t = logged s \<and>
     blk t = blk s \<and> handle t = handle s"
proof -
  note d = txD [OF assms(1)]
  have "0 < vrefs (bview s) n" "vlock (bview s) n = Some (mypid s)"
    "vrefs (bview s) n = 1 \<Longrightarrow> vcont (bview s) n = vdisk (bview s) n"
    using d(4,5,7) assms(2,3) by (auto split: if_splits)
  from bc.rel [OF d(1) assms(4) this] obtain t where t: "brelse b s = Ok () t" "bframe s t" "bc_inv t" "handle t = handle s"
    "bview t = (bview s)\<lparr>vrefs := (vrefs (bview s))(n := vrefs (bview s) n - 1),
          vlock := (vlock (bview s))(n := None),
          vfree := vfree (bview s) + (if vrefs (bview s) n = 1 then 1 else 0)\<rparr>" by blast
  have "card (H \<union> logged s) = card (H - {n} \<union> logged s) + (if n \<in> logged s then 0 else 1)"
  proof (cases "n \<in> logged s")
    case True
    then have "H - {n} \<union> logged s = H \<union> logged s" using assms(2) by auto
    then show ?thesis using True by simp
  next
    case False
    then have "H \<union> logged s = insert n (H - {n} \<union> logged s)" "n \<notin> H - {n} \<union> logged s" using assms(2) by auto
    then show ?thesis using False d(2) by (simp add: card_insert_disjoint)
  qed
  then have "vfree (bview t) + card (H - {n} \<union> logged s) = NBUF"
    using d(5) [of n] d(6) assms(2) by (cases "n \<in> logged s") (simp_all add: t(5))
  then have "tx t (H - {n}) D"
    using d assms(2,3) by (intro tx_frame [OF assms(1) t(2,3)]) (auto simp: t(5))
  then show ?thesis using t bframe_tframe [OF t(2)] bframe_logged [OF t(2)] by auto
qed

lemma tx_log:
  assumes "tx s H D" "n \<in> H" "handle s n = Some b" "card (logged s) < LOGBLOCKS" "1 \<le> log_outstanding s"
  shows "\<exists>t. log_write b s = Ok () t \<and> tframe s t \<and> tx t H (D - {n}) \<and> logged t = insert n (logged s) \<and>
     blk t = blk s \<and> handle t = handle s"
proof -
  note d = txD [OF assms(1)]
  have h: "L_log \<notin> set (held s)" "L_bcache \<notin> set (held s)" "0 \<le> lh_n s" "1 \<le> log_outstanding s"
    "length (lh_block s) = LOGBLOCKS" "distinct (take (nat (lh_n s)) (lh_block s))" "lh_n s < int LOGBLOCKS"
    using assms(1,4,5) card_logged [OF assms(1)] by (auto simp: tx_def bc_inv_def)
  have bn: "b_blockno (bufs s ! b) = n" using assms(3) fnd_Some [of "bufs s" n b] by (simp add: handle_def)
  have lg: "(\<exists>i<nat (lh_n s). lh_block s ! i = n) \<longleftrightarrow> n \<in> logged s"
    using h(5,7) by (auto simp: logged_def in_set_conv_nth)
  show ?thesis
  proof (cases "n \<in> logged s")
    case True
    then have "log_write b s = Ok () s"
      using log_write_run [OF h(1-3), of b] h(4,7) lg bn by simp
    moreover have "tx s H (D - {n})" using assms(1) True by (auto simp: tx_def)
    ultimately show ?thesis using True by (auto simp: insert_absorb)
  next
    case False
    have r: "0 < vrefs (bview s) n" "vrefs (bview s) n < 2 ^ 32 - 1" using d(5) assms(2) by simp_all
    have "\<forall>i<nat (lh_n s). lh_block s ! i \<noteq> n" using lg False by blast
    from log_write_spec [OF d(1) assms(3) r h(1,3,7,4) this] obtain t where
      t: "log_write b s = Ok () (t\<lparr>lh_n := lh_n s + 1, lh_block := (lh_block s)[nat (lh_n s) := n]\<rparr>)"
        "bframe s t" "bc_inv t" "handle t = handle s"
        "bview t = (bview s)\<lparr>vrefs := (vrefs (bview s))(n := vrefs (bview s) n + 1)\<rparr>" by blast
    let ?t = "t\<lparr>lh_n := lh_n s + 1, lh_block := (lh_block s)[nat (lh_n s) := n]\<rparr>"
    have n1: "nat (lh_n s + 1) = Suc (nat (lh_n s))" "nat (lh_n s) < length (lh_block s)" using h by simp_all
    then have tk: "take (nat (lh_n s + 1)) ((lh_block s)[nat (lh_n s) := n]) = take (nat (lh_n s)) (lh_block s) @ [n]"
      by (simp add: take_Suc_conv_app_nth)
    have lt: "logged ?t = insert n (logged s)" by (simp add: logged_def tk)
    have v: "bview ?t = bview t" "handle ?t = handle t" "bc_inv ?t = bc_inv t" "mypid ?t = mypid t"
      by (simp_all add: bview_def handle_def bc_inv_def in_proc_def mypid_def fun_eq_iff)
    have "mypid t = mypid s" using bframe_mypid [OF t(2)] d(1) by (simp add: bc_inv_def)
    moreover have "H \<union> insert n (logged s) = H \<union> logged s" using assms(2) by auto
    moreover have "distinct (take (nat (lh_n s)) (lh_block s) @ [n])" using h(6) False by (simp add: logged_def)
    ultimately have "tx ?t H (D - {n})"
      using assms(1,2) h False t(3) bframe_log [OF t(2)] bframe_held [OF t(2)]
      unfolding tx_def lt v by (auto simp: t(5) tk)
    moreover have "tframe s ?t" using tframe_trans [OF bframe_tframe [OF t(2)] tframe_lh] .
    moreover have "blk ?t = blk s" "handle ?t = handle s" using v t(4,5) by simp_all
    ultimately show ?thesis using t(1) lt by blast
  qed
qed

section \<open>Rules\<close>

text \<open>The same as rules on computations, with the frame in one predicate.\<close>

definition tstep :: "'z log_st_scheme \<Rightarrow> 'z log_st_scheme \<Rightarrow> nat set \<Rightarrow> nat set \<Rightarrow> bool" where
  "tstep s t H D \<longleftrightarrow> tframe s t \<and> tx t H D \<and> (\<forall>m\<in>H. handle t m = handle s m)"

lemma NBUF_LOGBLOCKS: "NBUF = LOGBLOCKS"
  by (simp add: NBUF_def LOGBLOCKS_def)

lemma card_logged_less: "tx s H D \<Longrightarrow> card (H \<union> logged s) < NBUF \<Longrightarrow> card (logged s) < LOGBLOCKS"
  using card_mono [of "H \<union> logged s" "logged s"] txD(2) by (fastforce simp: NBUF_LOGBLOCKS [symmetric])

lemma wp_bread:
  assumes "tx s H D" "n \<notin> H" "card (H \<union> logged s) < NBUF"
    and "\<And>b t. tframe s t \<Longrightarrow> tx t (insert n H) D \<Longrightarrow> logged t = logged s \<Longrightarrow> blk t = blk s \<Longrightarrow>
      handle t n = Some b \<Longrightarrow> \<forall>m\<in>H. handle t m = handle s m \<Longrightarrow> Q b t"
  shows "wp (bread ROOTDEV n) Q s"
  unfolding wp_Ok using tx_bread [OF assms(1-3)] assms(4) by metis

lemma wp_bfield [wp_rules]: "wp (bfield b g) Q s = Q (g (bufs s ! b)) s"
  by (simp add: bfield_def wp_rules)

lemma wp_bset_data:
  assumes "tx s H D" "n \<in> H" "handle s n = Some b" "length (f (blk s n)) = BSIZE"
    and "\<And>t. tframe s t \<Longrightarrow> tx t H (insert n D) \<Longrightarrow> logged t = logged s \<Longrightarrow>
      blk t = (blk s)(n := f (blk s n)) \<Longrightarrow> handle t = handle s \<Longrightarrow> Q () t"
  shows "wp (bset_data b f) Q s"
  unfolding wp_Ok using tx_modify [OF assms(1-3), of f] assms(4,5) by metis

lemma wp_log_write:
  assumes "tx s H D" "n \<in> H" "handle s n = Some b" "card (logged s) < LOGBLOCKS" "1 \<le> log_outstanding s"
    and "\<And>t. tframe s t \<Longrightarrow> tx t H (D - {n}) \<Longrightarrow> logged t = insert n (logged s) \<Longrightarrow>
      blk t = blk s \<Longrightarrow> handle t = handle s \<Longrightarrow> Q () t"
  shows "wp (log_write b) Q s"
  unfolding wp_Ok using tx_log [OF assms(1-5)] assms(6) by metis

lemma wp_brelse:
  assumes "tx s H D" "n \<in> H" "n \<notin> D" "handle s n = Some b"
    and "\<And>t. tframe s t \<Longrightarrow> tx t (H - {n}) D \<Longrightarrow> logged t = logged s \<Longrightarrow>
      blk t = blk s \<Longrightarrow> handle t = handle s \<Longrightarrow> Q () t"
  shows "wp (brelse b) Q s"
  unfolding wp_Ok using tx_release [OF assms(1-4)] assms(5) by metis

text \<open>Changing a block that is held, logging it and releasing it.\<close>

lemma wp_update_release:
  assumes "tx s (insert n H) D" "n \<notin> H" "n \<notin> D" "handle s n = Some b" "length (f (blk s n)) = BSIZE"
    and "card (logged s) < LOGBLOCKS" "1 \<le> log_outstanding s"
    and "\<And>t. tframe s t \<Longrightarrow> tx t H D \<Longrightarrow> logged t = insert n (logged s) \<Longrightarrow>
      blk t = (blk s)(n := f (blk s n)) \<Longrightarrow> handle t = handle s \<Longrightarrow> Q () t"
  shows "wp (bset_data b f) (\<lambda>_. wp (log_write b) (\<lambda>_. wp (brelse b) Q)) s"
proof (rule wp_bset_data [where n = n, OF assms(1) _ assms(4)])
  show "length (f (blk s n)) = BSIZE" by (rule assms(5))
next
  fix t assume t: "tframe s t" "tx t (insert n H) (insert n D)" "logged t = logged s"
    "blk t = (blk s)(n := f (blk s n))" "handle t = handle s"
  have D: "insert n D - {n} = D" "insert n H - {n} = H" using assms(2,3) by auto
  show "wp (log_write b) (\<lambda>_. wp (brelse b) Q) t"
  proof (rule wp_log_write [OF t(2)])
    show "handle t n = Some b" "card (logged t) < LOGBLOCKS" "1 \<le> log_outstanding t"
      using t assms(4,6,7) tframe_fields [OF t(1)] by simp_all
    fix u assume u: "tframe t u" "tx u (insert n H) (insert n D - {n})" "logged u = insert n (logged t)"
      "blk u = blk t" "handle u = handle t"
    show "wp (brelse b) Q u"
    proof (rule wp_brelse [OF u(2)])
      show "n \<notin> insert n D - {n}" "handle u n = Some b" "n \<in> insert n H" using u t assms(4) by simp_all
      fix v assume v: "tframe u v" "tx v (insert n H - {n}) (insert n D - {n})" "logged v = logged u"
        "blk v = blk u" "handle v = handle u"
      show "Q () v"
      proof (rule assms(8))
        show "tframe s v" using tframe_trans [OF tframe_trans [OF t(1) u(1)] v(1)] .
        show "tx v H D" using v(2) by (simp only: D)
      qed (use t u v in simp_all)
    qed
  qed simp
qed simp

end
