(* ===== verification/Bitmap.thy ===== *)
theory Bitmap
  imports Txn
begin

text \<open>
  The free-block bitmap of \<^verbatim>\<open>kernel/fs.c\<close>.  \<open>used\<close> reads the bit of a block; \<open>balloc\<close> finds a
  block whose bit is clear, sets it and zeroes the block, and \<open>bfree\<close> clears it again.
\<close>

section \<open>Bits\<close>

definition used :: "'z fs_st_scheme \<Rightarrow> nat \<Rightarrow> bool" where
  "used s b \<longleftrightarrow> \<not> bit_free (blk s (BBLOCK b (sb s))) (b mod BPB)"

definition set_bit_of :: "nat \<Rightarrow> block \<Rightarrow> block" where
  "set_bit_of bi d = d[bi div 8 := d ! (bi div 8) OR bit_mask bi]"

definition clear_bit_of :: "nat \<Rightarrow> block \<Rightarrow> block" where
  "clear_bit_of bi d = d[bi div 8 := d ! (bi div 8) AND NOT (bit_mask bi)]"

lemma length_set_bit_of [simp]: "length (set_bit_of bi d) = length d" "length (clear_bit_of bi d) = length d"
  by (simp_all add: set_bit_of_def clear_bit_of_def)

lemma bit_mask_bit: "bit (bit_mask bi) k \<longleftrightarrow> k = bi mod 8"
  by (auto simp: bit_mask_def bit_exp_iff)

lemma bit_free_iff: "bit_free d bi \<longleftrightarrow> \<not> bit (d ! (bi div 8)) (bi mod 8)"
  unfolding bit_free_def bit_eq_iff [of "d ! (bi div 8) AND bit_mask bi"] 
  by (auto simp: bit_and_iff bit_mask_bit dest: spec [of _ "bi mod 8"])

lemma div_mod_8: "bi div 8 = bj div 8 \<Longrightarrow> bi mod 8 = bj mod 8 \<Longrightarrow> bi = (bj :: nat)"
  by (metis div_mult_mod_eq)

lemma bit_free_set: "bi div 8 < length d \<Longrightarrow> bit_free (set_bit_of bi d) bj \<longleftrightarrow> bit_free d bj \<and> bj \<noteq> bi"
  by (cases "bi div 8 = bj div 8")
    (auto simp: bit_free_iff set_bit_of_def bit_or_iff bit_mask_bit nth_list_update dest: div_mod_8)

lemma bit_free_clear: "bi div 8 < length d \<Longrightarrow> bit_free (clear_bit_of bi d) bj \<longleftrightarrow> bit_free d bj \<or> bj = bi"
proof -
  assume a: "bi div 8 < length d"
  have "bj mod 8 < LENGTH(8)" by simp
  then show ?thesis using a
    by (cases "bi div 8 = bj div 8")
      (auto simp: bit_free_iff clear_bit_of_def bit_and_iff bit_not_iff bit_mask_bit nth_list_update dest: div_mod_8
        simp del: mod_less_divisor)
qed

lemma BPB_pos: "0 < BPB" "BPB = 8192" "bi < BPB \<Longrightarrow> bi div 8 < BSIZE"
  by (simp_all add: BPB_def BSIZE_def)

section \<open>The layout\<close>

text \<open>The first block after the bitmap; what lies before it is in use (see \<^verbatim>\<open>mkfs\<close>).\<close>

definition dstart :: "superblock \<Rightarrow> nat" where
  "dstart sp = sb_bmapstart sp + sb_size sp div BPB + 1"

definition fs_ok :: "'z fs_st_scheme \<Rightarrow> bool" where
  "fs_ok s \<longleftrightarrow> sb_size (sb s) < 2 ^ 32 \<and> dstart (sb s) \<le> sb_size (sb s) \<and>
     (\<forall>i < sb_ninodes (sb s). IBLOCK i (sb s) < sb_bmapstart (sb s)) \<and>
     (\<forall>b < dstart (sb s). used s b)"

definition bitmap_blocks :: "superblock \<Rightarrow> nat set" where
  "bitmap_blocks sp = {sb_bmapstart sp .. sb_bmapstart sp + sb_size sp div BPB}"

lemma BBLOCK_bitmap: "b < sb_size sp \<Longrightarrow> BBLOCK b sp \<in> bitmap_blocks sp"
  by (simp add: BBLOCK_def bitmap_blocks_def div_le_mono)

lemma bitmap_dstart: "n \<in> bitmap_blocks sp \<Longrightarrow> n < dstart sp"
  by (simp add: bitmap_blocks_def dstart_def)

lemma finite_bitmap [simp]: "finite (bitmap_blocks sp)"
  by (simp add: bitmap_blocks_def)

lemma used_cong:
  "sb t = sb s \<Longrightarrow> blk t (BBLOCK b (sb s)) = blk s (BBLOCK b (sb s)) \<Longrightarrow> used t b = used s b"
  by (simp add: used_def)

lemma tframe_fs:
  fixes s t :: "'z fs_st_scheme"
  assumes "tframe s t"
  shows "itable t = itable s" "sb t = sb s" "frame t = frame s"
  using assms by (auto simp: tframe_def)

lemma BBLOCK_split: "bi < BPB \<Longrightarrow> BBLOCK (BPB * k + bi) sp = BBLOCK (BPB * k) sp" "bi < BPB \<Longrightarrow> (BPB * k + bi) mod BPB = bi"
  by (simp_all add: BBLOCK_def BPB_pos)

lemma used_set:
  assumes "sb t = sb s" "blk t (BBLOCK a (sb s)) = set_bit_of (a mod BPB) (blk s (BBLOCK a (sb s)))"
    and "\<And>n. n \<in> bitmap_blocks (sb s) \<Longrightarrow> n \<noteq> BBLOCK a (sb s) \<Longrightarrow> blk t n = blk s n"
    and "length (blk s (BBLOCK a (sb s))) = BSIZE" "b < sb_size (sb s)"
  shows "used t b \<longleftrightarrow> used s b \<or> b = a"
proof (cases "BBLOCK b (sb s) = BBLOCK a (sb s)")
  case True
  then have d: "b div BPB = a div BPB" by (simp add: BBLOCK_def)
  then have "b mod BPB = a mod BPB \<longleftrightarrow> b = a" by (metis div_mult_mod_eq)
  moreover have "a mod BPB div 8 < BSIZE" using BPB_pos by simp
  ultimately show ?thesis using True assms(1,2,4) by (simp add: used_def bit_free_set)
next
  case False
  then have "used t b = used s b" using assms(1,3,5) BBLOCK_bitmap by (intro used_cong) auto
  then show ?thesis using False by auto
qed

section \<open>Zeroing, allocating and freeing\<close>

lemma wp_bzero:
  fixes s :: "'z fs_st_scheme"
  assumes "tx s H D" "n \<notin> H" "card (H \<union> logged s) < NBUF" "1 \<le> log_outstanding s"
    and "\<And>t. tstep s t H D \<Longrightarrow> logged t = insert n (logged s) \<Longrightarrow> blk t = (blk s)(n := replicate BSIZE 0) \<Longrightarrow> Q () t"
  shows "wp (bzero ROOTDEV n) Q s"
proof -
  have D: "n \<notin> D" using assms(1,2) by (auto simp: tx_def)
  show ?thesis unfolding bzero_def wp_bnd wp_sq
  proof (rule wp_bread [OF assms(1-3)])
    fix b t assume t: "tframe s t" "tx t (insert n H) D" "logged t = logged s" "blk t = blk s" "handle t n = Some b"
      "\<forall>m\<in>H. handle t m = handle s m"
    show "wp (bset_data b (\<lambda>_. replicate BSIZE 0)) (\<lambda>_. wp (log_write b) (\<lambda>_. wp (brelse b) Q)) t"
    proof (rule wp_update_release [OF t(2) assms(2) D t(5)])
      show "length (replicate BSIZE (0 :: byte)) = BSIZE" by simp
      show "card (logged t) < LOGBLOCKS" using card_logged_less [OF assms(1,3)] t(3) by simp
      show "1 \<le> log_outstanding t" using assms(4) tframe_fields [OF t(1)] by simp
      fix u assume u: "tframe t u" "tx u H D" "logged u = insert n (logged t)"
        "blk u = (blk t)(n := replicate BSIZE 0)" "handle u = handle t"
      show "Q () u" using t u tframe_trans [OF t(1) u(1)] by (intro assms(5)) (simp_all add: tstep_def)
    qed
  qed
qed

text \<open>The effect of a successful allocation of \<open>a\<close>.\<close>

definition allocated :: "'z fs_st_scheme \<Rightarrow> 'z fs_st_scheme \<Rightarrow> nat \<Rightarrow> bool" where
  "allocated s t a \<longleftrightarrow> a < sb_size (sb s) \<and> \<not> used s a \<and>
     blk t = (blk s)(BBLOCK a (sb s) := set_bit_of (a mod BPB) (blk s (BBLOCK a (sb s))), a := replicate BSIZE 0) \<and>
     logged t = insert a (insert (BBLOCK a (sb s)) (logged s))"

lemma wp_balloc_from:
  fixes s :: "'z fs_st_scheme"
  assumes "tx s H D" "1 \<le> log_outstanding s" "Suc (card (H \<union> logged s)) < NBUF"
    and "\<forall>b < sb_size (sb s). \<not> used s b \<longrightarrow> b \<notin> H" "H \<inter> bitmap_blocks (sb s) = {}" "fs_ok s"
    and "\<forall>b\<in>set bs. b < sb_size (sb s) \<and> BPB dvd b"
    and "\<And>t. tstep s t H D \<Longrightarrow> logged t = logged s \<Longrightarrow> blk t = blk s \<Longrightarrow>
      \<forall>b\<in>set bs. \<forall>bi<BPB. b + bi < sb_size (sb s) \<longrightarrow> used s (b + bi) \<Longrightarrow> Q 0 t"
    and "\<And>a t. tstep s t H D \<Longrightarrow> allocated s t a \<Longrightarrow> Q a t"
  shows "wp (balloc_from bs ROOTDEV) Q s"
  using assms
proof (induction bs arbitrary: s)
  case Nil
  have "tstep s (s\<lparr>klog := klog s @ [''balloc: out of blocks'']\<rparr>) H D"
    using Nil.prems(1) bframe_tframe [OF bframe_klog [of s]]
    by (simp add: tstep_def tx_def logged_def)
  then show ?case
    unfolding balloc_from.simps wp_sq wp_ret by (simp add: wp_def) (rule Nil.prems(8), simp_all add: logged_def)
next
  case (Cons b bs)
  note tx = Cons.prems(1) and out = Cons.prems(2) and room = Cons.prems(3)
  let ?n = "BBLOCK b (sb s)"
  have b: "b < sb_size (sb s)" "BPB dvd b" using Cons.prems(7) by simp_all
  then obtain k where k: "b = BPB * k" by auto
  have nH: "?n \<notin> H" using Cons.prems(5) BBLOCK_bitmap [OF b(1)] by auto
  have D: "?n \<notin> D" using nH tx by (auto simp: tx_def)
  have bits: "BBLOCK (b + bi) (sb s) = ?n" "(b + bi) mod BPB = bi" if "bi < BPB" for bi
    using BBLOCK_split [OF that, of k] k by simp_all
  show ?case unfolding balloc_from.simps wp_bnd wp_get
  proof (rule wp_bread [OF tx nH])
    show "card (H \<union> logged s) < NBUF" using room by simp
    fix bp t assume t: "tframe s t" "tx t (insert ?n H) D" "logged t = logged s" "blk t = blk s" "handle t ?n = Some bp"
      "\<forall>m\<in>H. handle t m = handle s m"
    have dat: "b_data (bufs t ! bp) = blk s ?n" using tx_data [OF t(2) _ t(5)] t(4) by simp
    show "wp (bfield bp b_data) (\<lambda>a. wp (case find (bit_free a) [0..<min BPB (sb_size (sb s) - b)] of
             None \<Rightarrow> sq (brelse bp) (balloc_from bs ROOTDEV)
           | Some bi \<Rightarrow> sq (bset_data bp (\<lambda>d. d[bi div 8 := d ! (bi div 8) OR bit_mask bi]))
               (sq (log_write bp) (sq (brelse bp) (sq (bzero ROOTDEV (b + bi)) (ret (b + bi)))))) Q) t"
      unfolding wp_bfield dat
    proof (cases "find (bit_free (blk s ?n)) [0..<min BPB (sb_size (sb s) - b)]")
      case None
      then have all: "\<forall>bi<BPB. b + bi < sb_size (sb s) \<longrightarrow> used s (b + bi)"
        using bits by (auto simp: find_None_iff used_def)
      show "wp (case find (bit_free (blk s ?n)) [0..<min BPB (sb_size (sb s) - b)] of
             None \<Rightarrow> sq (brelse bp) (balloc_from bs ROOTDEV)
           | Some bi \<Rightarrow> sq (bset_data bp (\<lambda>d. d[bi div 8 := d ! (bi div 8) OR bit_mask bi]))
               (sq (log_write bp) (sq (brelse bp) (sq (bzero ROOTDEV (b + bi)) (ret (b + bi)))))) Q t"
        unfolding None option.case wp_sq
      proof (rule wp_brelse [OF t(2) _ D t(5)])
        fix u assume u: "tframe t u" "tx u (insert ?n H - {?n}) D" "logged u = logged t" "blk u = blk t" "handle u = handle t"
        have Hn: "insert ?n H - {?n} = H" using nH by auto
        have su: "tframe s u" using tframe_trans [OF t(1) u(1)] .
        note f = tframe_fs [OF su] tframe_fields [OF su]
        have us: "used u x = used s x" for x using f t u by (simp add: used_def)
        have step: "tstep u v H D \<Longrightarrow> tstep s v H D" for v
          using su t(6) u(5) by (auto simp: tstep_def intro: tframe_trans)
        have al: "allocated u v a \<Longrightarrow> allocated s v a" for v a
          using f t(3,4) u(3,4) us by (simp add: allocated_def)
        show "wp (balloc_from bs ROOTDEV) Q u"
        proof (rule Cons.IH)
          show "tx u H D" using u(2) Hn by simp
          show "fs_ok u" using Cons.prems(6) f us by (simp add: fs_ok_def)
          show "Q a v" if "tstep u v H D" "allocated u v a" for a v
            using Cons.prems(9) [OF step [OF that(1)] al [OF that(2)]] .
          show "Q 0 v" if "tstep u v H D" "logged v = logged u" "blk v = blk u"
            "\<forall>b\<in>set bs. \<forall>bi<BPB. b + bi < sb_size (sb u) \<longrightarrow> used u (b + bi)" for v
            using that t u f us all by (intro Cons.prems(8)) (auto intro: step)
        qed (use Cons.prems f t u us in auto)
      qed simp
    next
      case (Some bi)
      then have bi: "bit_free (blk s ?n) bi" "bi < BPB" "b + bi < sb_size (sb s)" by (auto dest!: find_SomeD)
      have nu: "\<not> used s (b + bi)" using bi bits by (simp add: used_def)
      then have aH: "b + bi \<notin> H" using Cons.prems(4) bi(3) by blast
      have an: "b + bi \<noteq> ?n"
        using nu Cons.prems(6) bitmap_dstart [OF BBLOCK_bitmap [OF b(1)]] by (auto simp: fs_ok_def)
      have len: "length ((blk t ?n)[bi div 8 := blk t ?n ! (bi div 8) OR bit_mask bi]) = BSIZE"
        using txD(8) [OF t(2)] by simp
      show "wp (case find (bit_free (blk s ?n)) [0..<min BPB (sb_size (sb s) - b)] of
             None \<Rightarrow> sq (brelse bp) (balloc_from bs ROOTDEV)
           | Some bi \<Rightarrow> sq (bset_data bp (\<lambda>d. d[bi div 8 := d ! (bi div 8) OR bit_mask bi]))
               (sq (log_write bp) (sq (brelse bp) (sq (bzero ROOTDEV (b + bi)) (ret (b + bi)))))) Q t"
        unfolding Some option.case wp_sq
      proof (rule wp_update_release [OF t(2) nH D t(5)])
        show "length ((blk t ?n)[bi div 8 := blk t ?n ! (bi div 8) OR bit_mask bi]) = BSIZE" by (rule len)
        show "card (logged t) < LOGBLOCKS" using card_logged_less [OF tx] room t(3) by simp
        show "1 \<le> log_outstanding t" using out tframe_fields [OF t(1)] by simp
        fix u assume u: "tframe t u" "tx u H D" "logged u = insert ?n (logged t)"
          "blk u = (blk t)(?n := (blk t ?n)[bi div 8 := blk t ?n ! (bi div 8) OR bit_mask bi])" "handle u = handle t"
        have su: "tframe s u" using tframe_trans [OF t(1) u(1)] .
        have "card (H \<union> logged u) \<le> Suc (card (H \<union> logged s))"
          using txD(2) [OF tx] by (simp add: u(3) t(3) card_insert_if)
        then have room': "card (H \<union> logged u) < NBUF" using room by simp
        show "wp (bzero ROOTDEV (b + bi)) (\<lambda>_. wp (ret (b + bi)) Q) u"
          unfolding wp_ret
        proof (rule wp_bzero [OF u(2) aH room'])
          show "1 \<le> log_outstanding u" using out tframe_fields [OF su] by simp
          fix v assume v: "tstep u v H D" "logged v = insert (b + bi) (logged u)" "blk v = (blk u)(b + bi := replicate BSIZE 0)"
          show "Q (b + bi) v"
          proof (rule Cons.prems(9))
            show "tstep s v H D" using v(1) su t(6) u(5) by (auto simp: tstep_def intro: tframe_trans)
            show "allocated s v (b + bi)"
              using v u t bi nu bits by (simp add: allocated_def set_bit_of_def)
          qed
        qed
      qed
    qed
  qed
qed

lemma wp_balloc:
  fixes s :: "'z fs_st_scheme"
  assumes "tx s H D" "1 \<le> log_outstanding s" "Suc (card (H \<union> logged s)) < NBUF" "fs_ok s"
    and "\<forall>b\<in>H. dstart (sb s) \<le> b \<and> (b < sb_size (sb s) \<longrightarrow> used s b)"
    and "\<And>t. tstep s t H D \<Longrightarrow> logged t = logged s \<Longrightarrow> blk t = blk s \<Longrightarrow> \<forall>b < sb_size (sb s). used s b \<Longrightarrow> Q 0 t"
    and "\<And>a t. tstep s t H D \<Longrightarrow> allocated s t a \<Longrightarrow> Q a t"
  shows "wp (balloc ROOTDEV) Q s"
  unfolding balloc_def wp_bnd wp_get
proof (rule wp_balloc_from [OF assms(1-3)])
  show "\<forall>b < sb_size (sb s). \<not> used s b \<longrightarrow> b \<notin> H" using assms(5) by blast
  show "H \<inter> bitmap_blocks (sb s) = {}" using assms(5) bitmap_dstart by fastforce
  show "\<forall>b\<in>set (map (\<lambda>k. BPB * k) [0..<(sb_size (sb s) + BPB - 1) div BPB]). b < sb_size (sb s) \<and> BPB dvd b"
  proof
    fix b assume "b \<in> set (map (\<lambda>k. BPB * k) [0..<(sb_size (sb s) + BPB - 1) div BPB])"
    then obtain k where "b = BPB * k" "k \<in> {0..<(sb_size (sb s) + BPB - 1) div BPB}"
      unfolding set_map set_upt by (rule imageE)
    then have k: "b = BPB * k" "k < (sb_size (sb s) + BPB - 1) div BPB" by simp_all
    then have "BPB * Suc k \<le> sb_size (sb s) + BPB - 1" using BPB_pos(1)
      by (metis Suc_leI less_eq_div_iff_mult_less_eq mult.commute)
    then show "b < sb_size (sb s) \<and> BPB dvd b" using k(1) BPB_pos(1) by simp
  qed
  fix t assume t: "tstep s t H D" "logged t = logged s" "blk t = blk s"
    and all: "\<forall>b\<in>set (map (\<lambda>k. BPB * k) [0..<(sb_size (sb s) + BPB - 1) div BPB]). \<forall>bi<BPB.
      b + bi < sb_size (sb s) \<longrightarrow> used s (b + bi)"
  show "Q 0 t"
  proof (rule assms(6) [OF t])
    show "\<forall>b < sb_size (sb s). used s b"
    proof (intro allI impI)
      fix b assume b: "b < sb_size (sb s)"
      have "b div BPB < (sb_size (sb s) + BPB - 1) div BPB"
      proof -
        have "b div BPB < (b + BPB) div BPB" using BPB_pos(1) by (subst div_add_self2) simp_all
        also have "\<dots> \<le> (sb_size (sb s) + BPB - 1) div BPB" using b by (intro div_le_mono) simp
        finally show ?thesis .
      qed
      then have "BPB * (b div BPB) \<in> set (map (\<lambda>k. BPB * k) [0..<(sb_size (sb s) + BPB - 1) div BPB])" by auto
      moreover have "BPB * (b div BPB) + b mod BPB = b" "b mod BPB < BPB" using BPB_pos(1) by simp_all
      ultimately show "used s b" using all b by metis
    qed
  qed
qed (use assms in auto)

lemma fs_ok_grow:
  assumes "fs_ok s" "sb t = sb s" "\<And>b. b < sb_size (sb s) \<Longrightarrow> used s b \<Longrightarrow> used t b"
  shows "fs_ok t"
  using assms by (auto simp: fs_ok_def)

lemma allocatedD:
  assumes "allocated s t a" "fs_ok s" "sb t = sb s" "tx s H D"
  shows "dstart (sb s) \<le> a" "a < sb_size (sb s)" "\<not> used s a" "blk t a = replicate BSIZE 0"
    "b < sb_size (sb s) \<Longrightarrow> used t b \<longleftrightarrow> used s b \<or> b = a" "fs_ok t"
    "n \<noteq> a \<Longrightarrow> n \<notin> bitmap_blocks (sb s) \<Longrightarrow> blk t n = blk s n"
    "logged t \<subseteq> insert a (logged s \<union> bitmap_blocks (sb s))" "a \<in> logged t" "logged s \<subseteq> logged t"
proof -
  show a: "a < sb_size (sb s)" "\<not> used s a" using assms(1) by (simp_all add: allocated_def)
  then show d: "dstart (sb s) \<le> a" using assms(2) by (metis fs_ok_def not_le)
  have bm: "BBLOCK a (sb s) \<in> bitmap_blocks (sb s)" by (rule BBLOCK_bitmap [OF a(1)])
  then have ne: "BBLOCK a (sb s) \<noteq> a" using bitmap_dstart [OF bm] d by linarith
  show "blk t a = replicate BSIZE 0" using assms(1) by (simp add: allocated_def)
  show u: "used t b \<longleftrightarrow> used s b \<or> b = a" if "b < sb_size (sb s)" for b
  proof (rule used_set [OF assms(3) _ _ _ that])
    show "blk t (BBLOCK a (sb s)) = set_bit_of (a mod BPB) (blk s (BBLOCK a (sb s)))"
      using assms(1) ne by (simp add: allocated_def)
    show "blk t n = blk s n" if "n \<in> bitmap_blocks (sb s)" "n \<noteq> BBLOCK a (sb s)" for n
      using assms(1) that bitmap_dstart [OF that(1)] d by (simp add: allocated_def)
    show "length (blk s (BBLOCK a (sb s))) = BSIZE" using txD(8) [OF assms(4)] .
  qed
  show "fs_ok t" using fs_ok_grow [OF assms(2,3)] u by blast
  show "blk t n = blk s n" if "n \<noteq> a" "n \<notin> bitmap_blocks (sb s)" using assms(1) that bm by (auto simp: allocated_def)
  show "logged t \<subseteq> insert a (logged s \<union> bitmap_blocks (sb s))" "a \<in> logged t" "logged s \<subseteq> logged t"
    using assms(1) bm by (auto simp: allocated_def)
qed

lemma wp_bfree:
  fixes s :: "'z fs_st_scheme"
  assumes "tx s H D" "1 \<le> log_outstanding s" "card (H \<union> logged s) < NBUF" "b < sb_size (sb s)" "used s b"
    and "H \<inter> bitmap_blocks (sb s) = {}"
    and "\<And>t. tstep s t H D \<Longrightarrow> logged t = insert (BBLOCK b (sb s)) (logged s) \<Longrightarrow>
      blk t = (blk s)(BBLOCK b (sb s) := clear_bit_of (b mod BPB) (blk s (BBLOCK b (sb s)))) \<Longrightarrow> Q () t"
  shows "wp (bfree ROOTDEV b) Q s"
proof -
  let ?n = "BBLOCK b (sb s)"
  have nH: "?n \<notin> H" using assms(6) BBLOCK_bitmap [OF assms(4)] by auto
  have D: "?n \<notin> D" using nH assms(1) by (auto simp: tx_def)
  show ?thesis unfolding bfree_def wp_bnd wp_get
  proof (rule wp_bread [OF assms(1) nH assms(3)])
    fix bp t assume t: "tframe s t" "tx t (insert ?n H) D" "logged t = logged s" "blk t = blk s" "handle t ?n = Some bp"
      "\<forall>m\<in>H. handle t m = handle s m"
    have dat: "b_data (bufs t ! bp) = blk s ?n" using tx_data [OF t(2) _ t(5)] t(4) by simp
    have nf: "\<not> bit_free (blk s ?n) (b mod BPB)" using assms(5) by (simp add: used_def)
    show "wp (let bi = b mod BPB in bnd (bfield bp b_data) (\<lambda>d. sq (unless_panic (\<not> bit_free d bi) ''freeing free block'')
       (sq (bset_data bp (\<lambda>d. d[bi div 8 := d ! (bi div 8) AND NOT (bit_mask bi)])) (sq (log_write bp) (brelse bp))))) Q t"
      unfolding Let_def wp_bnd wp_bfield dat wp_sq wp_unless_panic
    proof (rule conjI [OF nf])
      show "wp (bset_data bp (\<lambda>d. d[b mod BPB div 8 := d ! (b mod BPB div 8) AND NOT (bit_mask (b mod BPB))]))
        (\<lambda>_. wp (log_write bp) (\<lambda>_. wp (brelse bp) Q)) t"
      proof (rule wp_update_release [OF t(2) nH D t(5)])
        show "length ((blk t ?n)[b mod BPB div 8 := blk t ?n ! (b mod BPB div 8) AND NOT (bit_mask (b mod BPB))]) = BSIZE"
          using txD(8) [OF t(2)] by simp
        show "card (logged t) < LOGBLOCKS" using card_logged_less [OF assms(1,3)] t(3) by simp
        show "1 \<le> log_outstanding t" using assms(2) tframe_fields [OF t(1)] by simp
        fix u assume u: "tframe t u" "tx u H D" "logged u = insert ?n (logged t)"
          "blk u = (blk t)(?n := (blk t ?n)[b mod BPB div 8 := blk t ?n ! (b mod BPB div 8) AND NOT (bit_mask (b mod BPB))])"
          "handle u = handle t"
        show "Q () u" using t u tframe_trans [OF t(1) u(1)]
          by (intro assms(7)) (simp_all add: tstep_def clear_bit_of_def)
      qed
    qed
  qed
qed

lemma bfree_used:
  assumes "allocated s t a" "fs_ok s" "sb t = sb s" "tx s {} {}" "tx t {} {}" "sb u = sb t"
    "blk u = (blk t)(BBLOCK a (sb t) := clear_bit_of (a mod BPB) (blk t (BBLOCK a (sb t))))"
    "b < sb_size (sb s)"
  shows "used u b \<longleftrightarrow> used s b"
proof -
  have len: "length (blk t n) = BSIZE" for n using txD(8) [OF assms(5)] .
  have "a mod BPB div 8 < BSIZE" using BPB_pos by simp
  moreover have "b mod BPB = a mod BPB \<longleftrightarrow> b = a" if "BBLOCK b (sb s) = BBLOCK a (sb s)"
    using that unfolding BBLOCK_def by (metis add_right_cancel div_mult_mod_eq)
  ultimately have "used u b \<longleftrightarrow> used t b \<and> b \<noteq> a"
    using assms(3,6,7) len by (auto simp: used_def bit_free_clear)
  then show ?thesis
    using allocatedD(5) [OF assms(1-4) assms(8)] assms(1) by (auto simp: allocated_def)
qed

lemma bfree_free_panics:
  fixes s :: "'z fs_st_scheme"
  assumes "tx s {} {}" "card (logged s) < NBUF" "\<not> used s b"
  shows "bfree ROOTDEV b s = Panic ''freeing free block''"
proof -
  let ?n = "BBLOCK b (sb s)"
  obtain bp t where t: "bread ROOTDEV ?n s = Ok bp t" "tx t {?n} {}" "blk t = blk s" "handle t ?n = Some bp"
    using tx_bread [OF assms(1), of ?n] assms(2) by auto
  have "b_data (bufs t ! bp) = blk s ?n" using tx_data [OF t(2) _ t(4)] t(3) by simp
  then show ?thesis using assms(3) t(1)
    by (simp add: bfree_def kernel_run bfield_def used_def Let_def)
qed

section \<open>Properties\<close>

text \<open>
  Property C10: the block allocator is correct.  Inside a transaction with room for the blocks it
  changes, \<open>balloc\<close> returns 0 and changes nothing exactly when every block of the file system is in use;
  otherwise it returns a block of the data area that was not in use, marks it and no other
  block, and zeroes it, and every block outside the bitmap keeps its content.  \<open>bfree\<close> of the block
  undoes the marking, for this block and no other, and a second \<open>bfree\<close> panics.
\<close>

theorem balloc_bfree:
  fixes s :: "'z fs_st_scheme"
  assumes "tx s {} {}" "1 \<le> log_outstanding s" "card (logged s) + 2 < NBUF" "fs_ok s"
  shows "\<exists>a t. balloc ROOTDEV s = Ok a t \<and> tx t {} {} \<and>
     (if \<forall>b < sb_size (sb s). used s b then a = 0 \<and> blk t = blk s
      else dstart (sb s) \<le> a \<and> a < sb_size (sb s) \<and> \<not> used s a \<and> blk t a = replicate BSIZE 0 \<and>
        (\<forall>b < sb_size (sb s). used t b \<longleftrightarrow> used s b \<or> b = a) \<and>
        (\<forall>n. n \<noteq> a \<longrightarrow> n \<notin> bitmap_blocks (sb s) \<longrightarrow> blk t n = blk s n) \<and> fs_ok t \<and>
        (\<exists>u. bfree ROOTDEV a t = Ok () u \<and> tx u {} {} \<and> (\<forall>b < sb_size (sb s). used u b \<longleftrightarrow> used s b) \<and>
           bfree ROOTDEV a u = Panic ''freeing free block''))"
proof -
  have room: "Suc (card ({} \<union> logged s)) < NBUF" using assms(3) by simp
  have "wp (balloc ROOTDEV) (\<lambda>a t. tstep s t {} {} \<and>
     (if \<forall>b < sb_size (sb s). used s b then a = 0 \<and> blk t = blk s else allocated s t a)) s"
    by (rule wp_balloc [OF assms(1,2) room assms(4)]) (auto simp: allocated_def)
  then obtain a t where t: "balloc ROOTDEV s = Ok a t" "tstep s t {} {}"
    "if \<forall>b < sb_size (sb s). used s b then a = 0 \<and> blk t = blk s else allocated s t a"
    by (auto simp: wp_def split: res.splits)
  have tx: "tx t {} {}" and f: "tframe s t" using t(2) by (auto simp: tstep_def)
  note g = tframe_fs [OF f] tframe_fields [OF f]
  show ?thesis
  proof (cases "\<forall>b < sb_size (sb s). used s b")
    case True
    then show ?thesis using t tx by (intro exI [of _ a] exI [of _ t]) simp
  next
    case False
    then have al: "allocated s t a" using t(3) by simp
    note d = allocatedD [OF al assms(4) g(2) assms(1)]
    have c: "card (logged t) < NBUF"
    proof -
      have "logged t = insert a (insert (BBLOCK a (sb s)) (logged s))" using al by (simp add: allocated_def)
      then have "card (logged t) \<le> card (logged s) + 2" by (simp add: card_insert_if)
      then show ?thesis using assms(3) by linarith
    qed
    have bm: "BBLOCK a (sb s) \<in> logged t" using al by (simp add: allocated_def)
    have "wp (bfree ROOTDEV a) (\<lambda>_ u. tstep t u {} {} \<and> logged u = logged t \<and>
       blk u = (blk t)(BBLOCK a (sb t) := clear_bit_of (a mod BPB) (blk t (BBLOCK a (sb t))))) t"
      by (rule wp_bfree [OF tx]) (use assms(2) g c d bm in \<open>auto simp: insert_absorb\<close>)
    then obtain u where u: "bfree ROOTDEV a t = Ok () u" "tstep t u {} {}" "logged u = logged t"
       "blk u = (blk t)(BBLOCK a (sb t) := clear_bit_of (a mod BPB) (blk t (BBLOCK a (sb t))))"
      by (auto simp: wp_def split: res.splits)
    have txu: "tx u {} {}" and sbu: "sb u = sb t" using u(2) tframe_fs [of t u] by (auto simp: tstep_def)
    have us: "used u b \<longleftrightarrow> used s b" if "b < sb_size (sb s)" for b
      by (rule bfree_used [OF al assms(4) g(2) assms(1) tx sbu u(4) that])
    have "bfree ROOTDEV a u = Panic ''freeing free block''"
      by (rule bfree_free_panics [OF txu]) (use u(3) c us [OF d(2)] d(3) in auto)
    then show ?thesis using False t(1) tx d us u(1) txu
      by (intro exI [of _ a] exI [of _ t]) auto
  qed
qed

text \<open>A file system of 2000 blocks, of which the first 47 are in use.\<close>

definition fs_boot :: fs_st where
  "fs_boot = \<lparr>held = [], klog = [], mem = (\<lambda>_. 0), freelist = 0, kend = 0, procs = demo_procs,
     curproc = Some 1, initproc = Some 1, nextpid = 3, ticks = 0, kernel_pagetable = 0, satp = 0,
     etext = 0, trampoline = 0, slocks = (\<lambda>_. \<lparr>sk_locked = 0, sk_name = [], sk_pid = 0\<rparr>),
     bufs = replicate (Suc NBUF) buf0,
     disk = (\<lambda>n. if n = 46 then replicate 5 255 @ [127] @ replicate 1018 0 else replicate BSIZE 0), disk_trace = [],
     vq_desc = [], avail_idx = 0, avail_ring = [], used_idx = 0, used_ring = [], vd_free = [],
     vd_used_idx = 0, info_b = [], info_status = [], vd_ops = [], vio_rd = (\<lambda>_. 0), vio_wr = [],
     log_start = 2, log_outstanding = 1, log_committing = False, log_dev = ROOTDEV, lh_n = 0,
     lh_block = replicate LOGBLOCKS 0, sb = demo_sb, itable = [], frame = 0\<rparr>"

lemma fs_boot_simps [simp]:
  "held fs_boot = []" "log_outstanding fs_boot = 1" "lh_n fs_boot = 0"
  "lh_block fs_boot = replicate LOGBLOCKS 0" "sb fs_boot = demo_sb" "sb_size demo_sb = 2000"
  "sb_bmapstart demo_sb = 46" "sb_inodestart demo_sb = 33" "sb_ninodes demo_sb = 200"
  "disk fs_boot = (\<lambda>n. if n = 46 then replicate 5 255 @ [127] @ replicate 1018 0 else replicate BSIZE 0)"
  by (simp_all add: fs_boot_def demo_sb_def)

lemma fs_boot_tx:
  "\<exists>s. binit fs_boot = Ok () s \<and> tx s {} {} \<and> log_outstanding s = 1 \<and> logged s = {} \<and> sb s = demo_sb \<and>
     blk s = disk fs_boot"
proof -
  have "in_proc fs_boot" by (simp add: in_proc_def fs_boot_def demo_procs_def NPROC_def)
  moreover have "\<forall>n. length (disk fs_boot n) = BSIZE" by (simp add: BSIZE_def)
  ultimately obtain bs sl where s:
    "binit fs_boot = Ok () (fs_boot\<lparr>bufs := bs, slocks := sl\<rparr>)" "bc_inv (fs_boot\<lparr>bufs := bs, slocks := sl\<rparr>)"
    "bview (fs_boot\<lparr>bufs := bs, slocks := sl\<rparr>) = \<lparr>vcont = disk fs_boot, vrefs = (\<lambda>_. 0),
       vlock = (\<lambda>_. None), vfree = NBUF, vdisk = disk fs_boot, vtrace = disk_trace fs_boot\<rparr>"
    using binit_inv [of fs_boot] by (auto simp: fs_boot_def buf0_def simp del: replicate_Suc)
  then show ?thesis
    by (intro exI [of _ "fs_boot\<lparr>bufs := bs, slocks := sl\<rparr>"]) (simp add: tx_def logged_def)
qed

lemma fs_boot_used:
  assumes "sb s = demo_sb" "blk s = disk fs_boot" "b < 56"
  shows "used s b \<longleftrightarrow> b < 47"
proof -
  have "\<forall>b\<in>set [0..<56]. bit_free (replicate 5 255 @ [127] @ replicate 1018 0) b \<longleftrightarrow> \<not> b < 47"
    by code_simp
  moreover have "b mod BPB = b" "BBLOCK b demo_sb = 46" using assms(3) by (simp_all add: BPB_pos BBLOCK_def)
  ultimately show ?thesis using assms by (auto simp: used_def)
qed

theorem balloc_bfree_witness:
  "\<exists>s a t u. binit fs_boot = Ok () s \<and> balloc ROOTDEV s = Ok a t \<and> 47 \<le> a \<and> a < 2000 \<and>
     blk t a = replicate BSIZE 0 \<and> used t a \<and> used t 46 \<and> bfree ROOTDEV a t = Ok () u \<and> \<not> used u a"
proof -
  from fs_boot_tx obtain s where s: "binit fs_boot = Ok () s" "tx s {} {}" "log_outstanding s = 1" "logged s = {}"
    "sb s = demo_sb" "blk s = disk fs_boot" by blast
  note u = fs_boot_used [OF s(5,6)]
  have d: "dstart demo_sb = 47" by (simp add: dstart_def BPB_pos)
  have "IBLOCK i demo_sb < 46" if "i < 200" for i using that by (simp add: IBLOCK_def IPB_def BSIZE_def)
  then have ok: "fs_ok s" using u d s(5) by (simp add: fs_ok_def)
  have c: "card (logged s) + 2 < NBUF" using s(4) by (simp add: NBUF_def MAXOPBLOCKS_def)
  have nall: "\<not> (\<forall>b < sb_size (sb s). used s b)" using u [of 50] s(5) by (intro notI) (drule spec [of _ 50], simp)
  obtain a t where t: "balloc ROOTDEV s = Ok a t" "dstart (sb s) \<le> a" "a < sb_size (sb s)" "\<not> used s a"
    "blk t a = replicate BSIZE 0" "\<forall>b < sb_size (sb s). used t b \<longleftrightarrow> used s b \<or> b = a"
    "\<exists>u. bfree ROOTDEV a t = Ok () u \<and> tx u {} {} \<and> (\<forall>b < sb_size (sb s). used u b \<longleftrightarrow> used s b) \<and>
           bfree ROOTDEV a u = Panic ''freeing free block''"
    using balloc_bfree [OF s(2) _ c ok] s(3) unfolding if_not_P [OF nall] by auto
  from t(7) obtain v where v: "bfree ROOTDEV a t = Ok () v" "\<forall>b < sb_size (sb s). used v b \<longleftrightarrow> used s b" by blast
  have "used t a" "used t 46" "\<not> used v a" using t(3,4,6) v(2) u [of 46] s(5) by simp_all
  then show ?thesis using s(1,5) t(1-3,5) v(1) d
    by (intro exI [of _ s] exI [of _ a] exI [of _ t] exI [of _ v]) simp
qed

end
