(* ===== verification/Sched.thy ===== *)
theory Sched
  imports Proctab "HOL-Library.Sublist"
begin

text \<open>
  The fairness of the scheduler loop of \<^verbatim>\<open>kernel/proc.c\<close> on a machine with several processors.
  What the machine does between the switch to a process and the switch back, and what the other
  processors and the interrupt handlers do meanwhile, are parameters; the state is extended by the
  history of the dispatches, those of this processor (\<open>Mine\<close>) and those of the others (\<open>Other\<close>).
\<close>

datatype dispatch = Mine nat | Other nat

primrec dispatched :: "dispatch \<Rightarrow> nat" where
  "dispatched (Mine i) = i"
| "dispatched (Other i) = i"

fun mine :: "dispatch list \<Rightarrow> nat list" where
  "mine [] = []"
| "mine (Mine i # h) = i # mine h"
| "mine (Other i # h) = mine h"

type_synonym sched_st = "dispatch list proc_st_scheme"

text \<open>
  What \<^verbatim>\<open>scheduler\<close> relies on.  Only a scheduler takes a process out of the state \<open>RUNNABLE\<close>, and
  it does so by dispatching it: between \<open>s\<close> and \<open>t\<close>, while the other processors dispatched the
  processes \<open>h\<close>, any other process that waited for its turn still does.
\<close>

definition waits :: "nat set \<Rightarrow> sched_st \<Rightarrow> nat list \<Rightarrow> sched_st \<Rightarrow> bool" where
  "waits A s h t \<longleftrightarrow> (\<forall>j<NPROC. j \<in> A \<longrightarrow> p_state (procs s ! j) = RUNNABLE \<longrightarrow>
     p_state (procs t ! j) = RUNNABLE \<or> j \<in> set h)"

text \<open>The others give back nothing they do not own: this processor still holds no lock.\<close>

definition others_ok :: "(place \<Rightarrow> (sched_st, unit) kernel) \<Rightarrow> bool" where
  "others_ok env \<longleftrightarrow> (\<forall>w s. length (procs s) = NPROC \<longrightarrow> held s = [] \<longrightarrow> curproc s = None \<longrightarrow>
     (\<exists>t h. env w s = Ok () t \<and> length (procs t) = NPROC \<and> held t = [] \<and> curproc t = None \<and>
        waits UNIV s h t \<and> proc_st.more t = proc_st.more s @ map Other h))"

text \<open>
  A process that is switched to comes back through \<^verbatim>\<open>sched\<close>, on this processor, holding just its
  own lock.
\<close>

definition comes_back :: "(nat \<Rightarrow> (sched_st, unit) kernel) \<Rightarrow> bool" where
  "comes_back run \<longleftrightarrow> (\<forall>i s. i < NPROC \<longrightarrow> length (procs s) = NPROC \<longrightarrow> held s = [L_proc i] \<longrightarrow>
     curproc s = Some i \<longrightarrow> p_state (procs s ! i) = RUNNING \<longrightarrow>
     (\<exists>t h. run i s = Ok () t \<and> length (procs t) = NPROC \<and> held t = [L_proc i] \<and>
        waits (- {i}) s h t \<and> proc_st.more t = proc_st.more s @ Mine i # map Other h))"

lemma others_okD:
  assumes "others_ok env" "length (procs s) = NPROC" "held s = []" "curproc s = None"
  obtains t h where "env w s = Ok () t" "length (procs t) = NPROC" "held t = []" "curproc t = None"
    "waits UNIV s h t" "proc_st.more t = proc_st.more s @ map Other h"
  using assms unfolding others_ok_def by blast

lemma comes_backD:
  assumes "comes_back run" "i < NPROC" "length (procs s) = NPROC" "held s = [L_proc i]" "curproc s = Some i"
    "p_state (procs s ! i) = RUNNING"
  obtains t h where "run i s = Ok () t" "length (procs t) = NPROC" "held t = [L_proc i]"
    "waits (- {i}) s h t" "proc_st.more t = proc_st.more s @ Mine i # map Other h"
  using assms unfolding comes_back_def by blast

lemma mine_append [simp]: "mine (g @ h) = mine g @ mine h"
  by (induction g rule: mine.induct) simp_all

lemma mine_Other [simp]: "mine (map Other h) = []"
  by (induction h) simp_all

lemma dispatched_Other [simp]: "dispatched ` Other ` A = A"
  by (simp add: image_image)

lemma held_same: "held s = [] \<Longrightarrow> s\<lparr>held := []\<rparr> = s"
  by (cases s) simp

text \<open>What one stretch of the scheduler's work, with the history \<open>h\<close>, achieves for the processes of \<open>A\<close>.\<close>

definition serves :: "nat set \<Rightarrow> sched_st \<Rightarrow> dispatch list \<Rightarrow> sched_st \<Rightarrow> bool" where
  "serves A s h t \<longleftrightarrow> proc_st.more t = proc_st.more s @ h \<and> held t = [] \<and> curproc t = None \<and>
     length (procs t) = NPROC \<and>
     (\<forall>i<NPROC. p_state (procs s ! i) = RUNNABLE \<longrightarrow>
        i \<in> dispatched ` set h \<or> i \<notin> A \<and> p_state (procs t ! i) = RUNNABLE)"

lemma serves_trans: "serves A s g t \<Longrightarrow> serves B t h u \<Longrightarrow> serves (A \<union> B) s (g @ h) u"
  unfolding serves_def by auto

lemma serves_mono: "serves A s h t \<Longrightarrow> B \<subseteq> A \<Longrightarrow> serves B s h t"
  unfolding serves_def by auto

lemma servesD:
  assumes "serves A s h t"
  shows "length (procs t) = NPROC" "held t = []" "curproc t = None"
  using assms by (simp_all add: serves_def)

lemma env_serves:
  assumes "others_ok env" "length (procs s) = NPROC" "held s = []" "curproc s = None"
  obtains t h where "env w s = Ok () t" "serves {} s (map Other h) t"
  by (rule others_okD [OF assms, of w])
    (auto simp: serves_def waits_def image_image intro!: that)

text \<open>The turn of one entry of the table, once its lock is this processor's.\<close>

lemma scheduler_entry:
  assumes "comes_back run" "i < NPROC" "length (procs s) = NPROC" "held s = []" "curproc s = None"
  obtains t h where "serves {i} s h t" "subseq (mine h) [i]"
    "\<And>env is found. env (Lock i) r = Ok () s \<Longrightarrow>
       scheduler_pass env run (i # is) found r = scheduler_pass env run is (found \<or> mine h \<noteq> []) t"
proof (cases "p_state (procs s ! i) = RUNNABLE")
  case False
  then show ?thesis using assms(3-)
    by (intro that [of "[]" s]) (auto simp: serves_def sq_run bnd_run held_same)
next
  case True
  define s1 where "s1 = s\<lparr>held := [L_proc i], procs := (procs s)[i := (procs s ! i)\<lparr>p_state := RUNNING\<rparr>],
    curproc := Some i\<rparr>"
  obtain t h where t: "run i s1 = Ok () t" "length (procs t) = NPROC" "held t = [L_proc i]"
    "waits (- {i}) s1 h t" "proc_st.more t = proc_st.more s1 @ Mine i # map Other h"
    by (rule comes_backD [OF assms(1,2), of s1]) (use assms in \<open>auto simp: s1_def\<close>)
  show ?thesis
  proof (rule that [of "Mine i # map Other h" "t\<lparr>curproc := None, held := []\<rparr>"])
    show "serves {i} s (Mine i # map Other h) (t\<lparr>curproc := None, held := []\<rparr>)"
      using t(2,4,5) by (auto simp: serves_def waits_def s1_def image_image)
    show "scheduler_pass env run (i # is) found r =
        scheduler_pass env run is (found \<or> mine (Mine i # map Other h) \<noteq> []) (t\<lparr>curproc := None, held := []\<rparr>)"
      if "env (Lock i) r = Ok () s" for env "is" found
      using that True assms(4) t(1,3) by (simp add: sq_run bnd_run s1_def)
  qed simp
qed

lemma scheduler_pass_fair:
  assumes "comes_back run" "others_ok env" "set is \<subseteq> {..<NPROC}"
    "held s = []" "curproc s = None" "length (procs s) = NPROC"
  shows "\<exists>t h. scheduler_pass env run is found s = Ok (found \<or> mine h \<noteq> []) t \<and>
     serves (set is) s h t \<and> subseq (mine h) is"
  using assms(3-)
proof (induction "is" arbitrary: s found)
  case Nil
  then show ?case by (intro exI [of _ s] exI [of _ "[]"]) (simp add: ret_def serves_def)
next
  case (Cons i "is")
  obtain s1 h1 where 1: "env (Lock i) s = Ok () s1" "serves {} s (map Other h1) s1"
    using env_serves [OF assms(2), of s "Lock i"] Cons.prems by blast
  obtain s2 h2 where 2: "serves {i} s1 h2 s2" "subseq (mine h2) [i]"
    "scheduler_pass env run (i # is) found s = scheduler_pass env run is (found \<or> mine h2 \<noteq> []) s2"
    by (rule scheduler_entry [OF assms(1) _ servesD [OF 1(2)], of i s])
      (use 1(1) Cons.prems(1) in \<open>auto simp del: scheduler_pass.simps intro: that\<close>)
  obtain t h where 3: "scheduler_pass env run is (found \<or> mine h2 \<noteq> []) s2 =
      Ok ((found \<or> mine h2 \<noteq> []) \<or> mine h \<noteq> []) t" "serves (set is) s2 h t" "subseq (mine h) is"
    using Cons.IH [of s2 "found \<or> mine h2 \<noteq> []"] servesD [OF 2(1)] Cons.prems(1) by auto
  have "serves (set (i # is)) s (map Other h1 @ h2 @ h) t"
    using serves_trans [OF 1(2) serves_trans [OF 2(1) 3(2)]] by simp
  moreover have "subseq (mine h2 @ mine h) ([i] @ is)" using 2(2) 3(3) by (rule list_emb_append_mono)
  ultimately show ?case using 2(3) 3(1)
    by (intro exI [of _ t] exI [of _ "map Other h1 @ h2 @ h"]) auto
qed

lemma scheduler_turn_fair:
  assumes "comes_back run" "others_ok env" "held s = []" "curproc s = None" "length (procs s) = NPROC"
  obtains t h where "scheduler_turn env run s = Ok () t" "serves {..<NPROC} s h t" "subseq (mine h) [0..<NPROC]"
proof -
  obtain s1 h1 where 1: "env Interrupts s = Ok () s1" "serves {} s (map Other h1) s1"
    using env_serves [OF assms(2), of s Interrupts] assms(3-) by blast
  obtain s2 h2 where 2: "scheduler_pass env run [0..<NPROC] False s1 = Ok (mine h2 \<noteq> []) s2"
    "serves {..<NPROC} s1 h2 s2" "subseq (mine h2) [0..<NPROC]"
    using scheduler_pass_fair [OF assms(1,2), of "[0..<NPROC]" s1 False] 1(2)
    unfolding set_upt atLeast0LessThan by (auto simp: serves_def)
  obtain s3 h3 where 3: "env Wfi s2 = Ok () s3" "serves {} s2 (map Other h3) s3"
    using env_serves [OF assms(2), of s2 Wfi] 2(2) by (auto simp: serves_def)
  note 12 = serves_trans [OF 1(2) 2(2)]
  show ?thesis
  proof (cases "mine h2 = []")
    case True
    then show ?thesis using 1(1) 2(1) 3(1) serves_trans [OF 12 3(2)]
      by (intro that [of s3 "map Other h1 @ h2 @ map Other h3"]) (simp_all add: scheduler_turn_def sq_run bnd_run)
  next
    case False
    then show ?thesis using 1(1) 2 12
      by (intro that [of s2 "map Other h1 @ h2"]) (simp_all add: scheduler_turn_def sq_run bnd_run)
  qed
qed

lemma scheduler_turns_go:
  assumes "comes_back run" "others_ok env" "held s = []" "curproc s = None" "length (procs s) = NPROC"
  shows "\<exists>t. scheduler_turns env run n s = Ok () t \<and> held t = [] \<and> curproc t = None \<and> length (procs t) = NPROC"
proof (induction n)
  case 0
  then show ?case using assms by (simp add: ret_def)
next
  case (Suc n)
  then obtain t where t: "scheduler_turns env run n s = Ok () t" "held t = []" "curproc t = None"
    "length (procs t) = NPROC" by blast
  obtain u h where "scheduler_turn env run t = Ok () u" "serves {..<NPROC} t h u"
    using scheduler_turn_fair [OF assms(1,2) t(2-4)] by blast
  with t(1) show ?case by (auto simp: sq_run serves_def)
qed

text \<open>
  Property C11: the scheduler starves nobody, whatever the other processors do.  Every turn of its
  loop, the one after \<open>n\<close> others, ends, holding no lock, and every process that is runnable when the
  turn starts is dispatched before it ends, by this processor or by another; this processor's own
  dispatches go through the table in order, to each process at most once and to no one outside the
  table.  The hypotheses are that a process that is switched to switches back in the end, and that
  only a dispatch ends a wait for the processor.
\<close>

theorem scheduler_fair:
  assumes "comes_back run" "others_ok env" "held s = []" "length (procs s) = NPROC"
  shows "\<exists>t u h. scheduler env run n s = Ok () t \<and> scheduler env run (Suc n) s = Ok () u \<and> held u = [] \<and>
     proc_st.more u = proc_st.more t @ h \<and> subseq (mine h) [0..<NPROC] \<and>
     (\<forall>i<NPROC. p_state (procs t ! i) = RUNNABLE \<longrightarrow> Mine i \<in> set h \<or> Other i \<in> set h)"
proof -
  obtain t where t: "scheduler_turns env run n (s\<lparr>curproc := None\<rparr>) = Ok () t" "held t = []" "curproc t = None"
    "length (procs t) = NPROC"
    using scheduler_turns_go [OF assms(1,2), of "s\<lparr>curproc := None\<rparr>"] assms(3,4) by auto
  obtain u h where u: "scheduler_turn env run t = Ok () u" "serves {..<NPROC} t h u" "subseq (mine h) [0..<NPROC]"
    using scheduler_turn_fair [OF assms(1,2) t(2-4)] by blast
  have d: "Mine i \<in> set h \<or> Other i \<in> set h" if "i \<in> dispatched ` set h" for i
    using that by (auto, metis dispatch.exhaust dispatched.simps)
  show ?thesis using t(1) u
    by (intro exI [of _ t] exI [of _ u] exI [of _ h]) (auto simp: scheduler_def sq_run serves_def intro!: d)
qed

text \<open>
  A process in the middle of \<open>yield\<close>: it releases its lock and goes on, until the next timer
  interrupt makes it call \<open>yield\<close> again.  Beside it another processor dispatches process 7, when it
  is runnable, while this one waits for the lock of entry 5.
\<close>

definition preempted :: "nat \<Rightarrow> (sched_st, unit) kernel" where
  "preempted i s = (case sq (lock_release (L_proc i)) yield s of
     Sleep c t \<Rightarrow> Ok () (proc_st.more_update (\<lambda>h. h @ [Mine i]) t) | r \<Rightarrow> r)"

definition other_hart :: "place \<Rightarrow> (sched_st, unit) kernel" where
  "other_hart w s =
     (if w = Lock 5 \<and> p_state (procs s ! 7) = RUNNABLE
      then Ok () (proc_st.more_update (\<lambda>h. h @ [Other 7])
        (s\<lparr>procs := (procs s)[7 := (procs s ! 7)\<lparr>p_state := RUNNING\<rparr>]\<rparr>))
      else Ok () s)"

lemma preempted_comes_back: "comes_back preempted"
  unfolding comes_back_def
proof (intro allI impI)
  fix i and s :: sched_st
  assume "i < NPROC" "length (procs s) = NPROC" "held s = [L_proc i]" "curproc s = Some i"
    "p_state (procs s ! i) = RUNNING"
  then show "\<exists>t h. preempted i s = Ok () t \<and> length (procs t) = NPROC \<and> held t = [L_proc i] \<and>
      waits (- {i}) s h t \<and> proc_st.more t = proc_st.more s @ Mine i # map Other h"
    by (intro exI [of _ "proc_st.more_update (\<lambda>h. h @ [Mine i])
        (s\<lparr>held := [L_proc i], procs := (procs s)[i := (procs s ! i)\<lparr>p_state := RUNNABLE\<rparr>]\<rparr>)"] exI [of _ "[]"])
      (simp add: preempted_def sq_run yield_run waits_def)
qed

lemma other_hart_ok: "others_ok other_hart"
  unfolding others_ok_def
proof (intro allI impI)
  fix w and s :: sched_st
  assume s: "length (procs s) = NPROC" "held s = []" "curproc s = None"
  show "\<exists>t h. other_hart w s = Ok () t \<and> length (procs t) = NPROC \<and> held t = [] \<and> curproc t = None \<and>
      waits UNIV s h t \<and> proc_st.more t = proc_st.more s @ map Other h"
  proof (cases "w = Lock 5 \<and> p_state (procs s ! 7) = RUNNABLE")
    case True
    with s show ?thesis unfolding other_hart_def by (auto simp: waits_def nth_list_update intro!: exI [of _ "[7]"])
  next
    case False
    with s show ?thesis unfolding other_hart_def by (auto simp: waits_def intro!: exI [of _ "[]"])
  qed
qed

definition sched_boot :: sched_st where
  "sched_boot = \<lparr>held = [], klog = [], mem = (\<lambda>_. 0), freelist = 0, kend = 0,
     procs = (replicate NPROC proc0)[3 := proc0\<lparr>p_state := RUNNABLE\<rparr>, 7 := proc0\<lparr>p_state := RUNNABLE\<rparr>],
     curproc = None, initproc = Some 1, nextpid = 3, ticks = 0, \<dots> = []\<rparr>"

theorem scheduler_fair_witness:
  "\<exists>t. scheduler other_hart preempted 1 sched_boot = Ok () t \<and> held t = [] \<and>
     {3, 7} \<subseteq> dispatched ` set (proc_st.more t)"
proof -
  have h: "held sched_boot = []" "length (procs sched_boot) = NPROC" "proc_st.more sched_boot = []"
    "p_state (procs sched_boot ! 3) = RUNNABLE" "p_state (procs sched_boot ! 7) = RUNNABLE"
    by (simp_all add: sched_boot_def NPROC_def)
  have 0: "scheduler other_hart preempted 0 sched_boot = Ok () (sched_boot\<lparr>curproc := None\<rparr>)"
    by (simp add: scheduler_def sq_run ret_def)
  obtain t g where t: "scheduler other_hart preempted 1 sched_boot = Ok () t" "held t = []" "proc_st.more t = g"
    "\<forall>i<NPROC. p_state (procs sched_boot ! i) = RUNNABLE \<longrightarrow> Mine i \<in> set g \<or> Other i \<in> set g"
    using scheduler_fair [OF preempted_comes_back other_hart_ok h(1,2), of 0] h(3) 0 by auto
  from t(4) h(4,5) have "Mine 3 \<in> set g \<or> Other 3 \<in> set g" "Mine 7 \<in> set g \<or> Other 7 \<in> set g"
    by (simp_all add: NPROC_def)
  then have "{3, 7} \<subseteq> dispatched ` set g" by (auto simp: image_iff intro: bexI [of _ "Mine 3"])
      (metis dispatched.simps)+
  with t show ?thesis by auto
qed

end
