(* ===== verification/Path.thy ===== *)
theory Path
  imports FS
begin

text \<open>
  Path names: the loop of \<^verbatim>\<open>namex\<close> in \<^verbatim>\<open>kernel/fs.c\<close>, which takes its path apart one element
  at a time with \<^verbatim>\<open>skipelem\<close>, against a walk along the list of the components of the path.
\<close>

section \<open>The components of a path\<close>

definition components :: "byte list \<Rightarrow> byte list list" where
  "components path = filter (\<lambda>w. w \<noteq> []) (split_on slash path)"

lemma components_slash [simp]: "components (slash # xs) = components xs"
  by (simp add: components_def)

lemma components_Nil [simp]: "components [] = []"
  by (simp add: components_def)

lemma components_dropWhile: "components (dropWhile (\<lambda>c. c = slash) xs) = components xs"
  by (induction xs) auto

lemma components_word:
  assumes "xs \<noteq> []" "hd xs \<noteq> slash"
  shows "components xs = takeWhile (\<lambda>x. x \<noteq> slash) xs # components (dropWhile (\<lambda>x. x \<noteq> slash) xs)"
proof -
  have ne: "takeWhile (\<lambda>x. x \<noteq> slash) xs \<noteq> []" using assms by (cases xs) auto
  show ?thesis
  proof (cases "dropWhile (\<lambda>x. x \<noteq> slash) xs")
    case (Cons y ys)
    then have "y = slash" using hd_dropWhile [of "\<lambda>x. x \<noteq> slash" xs] by simp
    then show ?thesis
      unfolding components_def [of xs] split_on_eq [of slash xs] Cons using ne by (simp add: components_def)
  next
    case Nil
    then show ?thesis
      unfolding components_def [of xs] split_on_eq [of slash xs] Nil using ne by simp
  qed
qed

text \<open>An element as \<^verbatim>\<open>namex\<close> leaves it in the array of \<^verbatim>\<open>DIRSIZ\<close> bytes.\<close>

definition put_name :: "byte list \<Rightarrow> cstr \<Rightarrow> cstr" where
  "put_name w name = (\<lambda>i. if i < length w \<and> i < DIRSIZ then w ! i
     else if i = length w \<and> i < DIRSIZ then 0 else name i)"

definition path_rest :: "byte list \<Rightarrow> byte list" where
  "path_rest path = dropWhile (\<lambda>c. c = slash) (dropWhile (\<lambda>c. c \<noteq> slash) (dropWhile (\<lambda>c. c = slash) path))"

lemma skipelem_components:
  "skipelem path name = (case components path of [] \<Rightarrow> None
     | w # ws \<Rightarrow> Some (path_rest path, put_name w name))"
proof (cases "dropWhile (\<lambda>c. c = slash) path = []")
  case True
  then have "components path = []" using components_dropWhile [of path] unfolding True by simp
  then show ?thesis using True by (simp add: skipelem_def)
next
  case False
  let ?p = "dropWhile (\<lambda>c. c = slash) path"
  have "components path = takeWhile (\<lambda>x. x \<noteq> slash) ?p # components (dropWhile (\<lambda>x. x \<noteq> slash) ?p)"
    using components_word [OF False] hd_dropWhile [OF False] components_dropWhile [of path] by simp
  then show ?thesis using False
    by (auto simp: skipelem_def Let_def put_name_def path_rest_def fun_eq_iff)
qed

lemma components_rest:
  assumes "components path = w # ws"
  shows "components (path_rest path) = ws" "path_rest path = [] \<longleftrightarrow> ws = []"
proof -
  let ?p = "dropWhile (\<lambda>c. c = slash) path"
  let ?r = "path_rest path"
  have ne: "?p \<noteq> []" using assms components_dropWhile [of path] by (metis components_Nil list.distinct(1))
  then show ws: "components ?r = ws"
    using components_word [OF ne] hd_dropWhile [OF ne] components_dropWhile [of path] assms
    by (simp add: components_dropWhile path_rest_def)
  have "components ?r \<noteq> []" if "?r \<noteq> []"
    using that components_word [of ?r] hd_dropWhile [of "\<lambda>c. c = slash"] unfolding path_rest_def by auto
  then show "?r = [] \<longleftrightarrow> ws = []" using ws by auto
qed

section \<open>The walk\<close>

primrec name_walk :: "byte list list \<Rightarrow> nat \<Rightarrow> bool \<Rightarrow> cstr \<Rightarrow> ('z fs_st_scheme, nat option \<times> cstr) kernel" where
  "name_walk [] ip np name =
     (if np then sq (iput ip) (ret (None, name)) else ret (Some ip, name))"
| "name_walk (w # ws) ip np name =
     sq (ilock ip) (
     bnd (ifield ip i_type) (\<lambda>type.
     if type \<noteq> T_DIR then sq (iunlockput ip) (ret (None, put_name w name))
     else if np \<and> ws = [] then sq (iunlock ip) (ret (Some ip, put_name w name))
     else bnd (dirlookup ip (put_name w name)) (\<lambda>r.
          case r of None \<Rightarrow> sq (iunlockput ip) (ret (None, put_name w name))
          | Some (nxt, off) \<Rightarrow> sq (iunlockput ip) (name_walk ws nxt np (put_name w name)))))"

lemma namex_loop_walk:
  "length (components path) < fuel \<Longrightarrow>
     (namex_loop fuel ip path np name :: ('z fs_st_scheme, _) kernel) = name_walk (components path) ip np name"
proof (induction fuel arbitrary: ip path name)
  case (Suc fuel)
  show ?case
  proof (cases "components path")
    case Nil
    then show ?thesis by (simp add: skipelem_components)
  next
    case (Cons w ws)
    let ?r = "path_rest path"
    have "(namex_loop fuel ip' ?r np name' :: ('z fs_st_scheme, _) kernel) = name_walk ws ip' np name'" for ip' name'
      using Suc.IH [of ?r ip' name'] Suc.prems components_rest [OF Cons] Cons by simp
    then show ?thesis using components_rest(2) [OF Cons] Cons
      by (simp add: skipelem_components cong: if_cong)
  qed
qed simp

lemma length_components: "length (components path) \<le> length path"
proof -
  have "length (filter (\<lambda>w. w \<noteq> []) (split_on c xs)) \<le> length xs \<and>
      (xs = [] \<or> True)" for c :: byte and xs
    by (induction xs) (auto split: list.splits if_splits)
  then show ?thesis by (simp add: components_def)
qed

text \<open>
  Property C12: \<open>namex\<close> terminates and walks exactly the components of its path.  The loop that takes the
  path apart with \<open>skipelem\<close>, with the length of the path as its bound, equals the walk by
  recursion on the list of the non-empty pieces between slashes, each cut to \<open>DIRSIZ\<close> bytes
  in the name it looks up, from the root directory for a path that starts with a slash and from the current
  directory for others.
\<close>

theorem namex_walks_components:
  "namex path np name =
     bnd (if path \<noteq> [] \<and> hd path = slash then iget ROOTDEV ROOTINO
          else bnd myproc (\<lambda>p. bnd (pget p p_cwd) (\<lambda>cwd.
               case cwd of None \<Rightarrow> panic ''null cwd'' | Some ip \<Rightarrow> idup ip)))
       (\<lambda>ip. name_walk (components path) ip np name)"
  unfolding namex_def
  by (subst namex_loop_walk) (use length_components [of path] in \<open>simp_all\<close>)

end
