(* ===== verification/Userland.thy ===== *)
theory Userland
  imports Cstring Printf
begin

text \<open>
  The ground user programs stand on: the system calls of \<^verbatim>\<open>user/user.h\<close>, the library
  \<^verbatim>\<open>user/ulib.c\<close> and \<^verbatim>\<open>fprintf\<close>.  The operating system a program runs on is a parameter, a
  record of its calls on a state \<open>'s\<close>; a program is a function on that state which returns,
  exits, or (value \<open>None\<close>) never comes back.  C strings are lists of characters without the
  final NUL; \<^verbatim>\<open>char\<close> is unsigned, as it is on RISC-V.
\<close>

section \<open>Programs\<close>

datatype 'a outc = Val 'a | Exited int

type_synonym ('s, 'a) uprog = "'s \<Rightarrow> ('a outc \<times> 's) option"

record 's os =
  os_exec :: "string \<Rightarrow> string list \<Rightarrow> 's \<Rightarrow> int \<times> 's"
  os_wait :: "'s \<Rightarrow> int \<times> 's"
  os_pipe :: "'s \<Rightarrow> (int \<times> int \<times> int) \<times> 's"
  os_write :: "int \<Rightarrow> string \<Rightarrow> 's \<Rightarrow> int \<times> 's"
  os_read :: "int \<Rightarrow> nat \<Rightarrow> 's \<Rightarrow> (int \<times> string) \<times> 's"
  os_close :: "int \<Rightarrow> 's \<Rightarrow> int \<times> 's"
  os_kill :: "int \<Rightarrow> 's \<Rightarrow> int \<times> 's"
  os_open :: "string \<Rightarrow> int \<Rightarrow> 's \<Rightarrow> int \<times> 's"
  os_unlink :: "string \<Rightarrow> 's \<Rightarrow> int \<times> 's"
  os_fstat :: "int \<Rightarrow> 's \<Rightarrow> (int \<times> string) \<times> 's"
  os_link :: "string \<Rightarrow> string \<Rightarrow> 's \<Rightarrow> int \<times> 's"
  os_mkdir :: "string \<Rightarrow> 's \<Rightarrow> int \<times> 's"
  os_sbrk :: "int \<Rightarrow> int \<Rightarrow> 's \<Rightarrow> int \<times> 's"

definition uret :: "'a \<Rightarrow> ('s, 'a) uprog" where
  "uret a s = Some (Val a, s)"

definition uexit :: "int \<Rightarrow> ('s, 'a) uprog" where
  "uexit c s = Some (Exited c, s)"

definition ubind :: "('s, 'a) uprog \<Rightarrow> ('a \<Rightarrow> ('s, 'b) uprog) \<Rightarrow> ('s, 'b) uprog" where
  "ubind m f s = Option.bind (m s) (\<lambda>(r, t). case r of Val a \<Rightarrow> f a t | Exited c \<Rightarrow> Some (Exited c, t))"

definition useq :: "('s, 'a) uprog \<Rightarrow> ('s, 'b) uprog \<Rightarrow> ('s, 'b) uprog" where
  "useq m k = ubind m (\<lambda>_. k)"

definition usys :: "('s \<Rightarrow> 'a \<times> 's) \<Rightarrow> ('s, 'a) uprog" where
  "usys f s = (case f s of (r, t) \<Rightarrow> Some (Val r, t))"

primrec ueach :: "('b \<Rightarrow> ('s, unit) uprog) \<Rightarrow> 'b list \<Rightarrow> ('s, unit) uprog" where
  "ueach f [] = uret ()"
| "ueach f (x # xs) = useq (f x) (ueach f xs)"

lemma ubind_simps [simp]:
  "m s = Some (Val a, t) \<Longrightarrow> ubind m f s = f a t"
  "m s = Some (Exited c, t) \<Longrightarrow> ubind m f s = Some (Exited c, t)"
  "m s = None \<Longrightarrow> ubind m f s = None"
  by (simp_all add: ubind_def)

lemma useq_simps [simp]:
  "m s = Some (Val a, t) \<Longrightarrow> useq m k s = k t"
  "m s = Some (Exited c, t) \<Longrightarrow> useq m k s = Some (Exited c, t)"
  "m s = None \<Longrightarrow> useq m k s = None"
  by (simp_all add: useq_def)

lemma uret_simp [simp]: "uret a s = Some (Val a, s)"
  by (simp add: uret_def)

lemma uexit_simp [simp]: "uexit c s = Some (Exited c, s)"
  by (simp add: uexit_def)

lemma usys_simp [simp]: "usys f s = Some (Val (fst (f s)), snd (f s))"
  by (simp add: usys_def split_def)

section \<open>Strings\<close>

abbreviation NUL :: char where "NUL \<equiv> CHR 0x00"

definition cval :: "char \<Rightarrow> int" where
  "cval c = of_char c"

text \<open>\<^verbatim>\<open>strcpy\<close> into an array with content \<open>s\<close>.\<close>

primrec u_strcpy :: "string \<Rightarrow> string \<Rightarrow> string" where
  "u_strcpy s [] = NUL # tl s"
| "u_strcpy s (c # t) = c # u_strcpy (tl s) t"

fun u_strcmp :: "string \<Rightarrow> string \<Rightarrow> int" where
  "u_strcmp (x # p) (y # q) = (if x = y then u_strcmp p q else cval x - cval y)"
| "u_strcmp (x # p) [] = cval x - cval NUL"
| "u_strcmp [] (y # q) = cval NUL - cval y"
| "u_strcmp [] [] = 0"

definition u_strlen :: "string \<Rightarrow> nat" where
  "u_strlen s = length s"

text \<open>\<^verbatim>\<open>strchr\<close>: the offset of the first \<open>c\<close>; the scan ends at the NUL before it compares.\<close>

primrec u_strchr :: "string \<Rightarrow> char \<Rightarrow> nat option" where
  "u_strchr [] c = None"
| "u_strchr (x # s) c = (if x = NUL then None else if x = c then Some 0 else map_option Suc (u_strchr s c))"

text \<open>
  \<^verbatim>\<open>atoi\<close>.  A numeral beyond the range of \<^verbatim>\<open>int\<close> overflows, which C leaves undefined; the model wraps around, as
  the compiled code does.
\<close>

definition is_digit :: "char \<Rightarrow> bool" where
  "is_digit c \<longleftrightarrow> cval CHR ''0'' \<le> cval c \<and> cval c \<le> cval CHR ''9''"

primrec atoi_from :: "u32 \<Rightarrow> string \<Rightarrow> u32" where
  "atoi_from n [] = n"
| "atoi_from n (c # s) = (if is_digit c then atoi_from (n * 10 + of_char c - of_char CHR ''0'') s else n)"

definition u_atoi :: "string \<Rightarrow> int" where
  "u_atoi s = sint (atoi_from 0 s)"

definition u_memset :: "memory \<Rightarrow> addr \<Rightarrow> byte \<Rightarrow> nat \<Rightarrow> memory" where
  "u_memset m dst c n = memset_from m dst c 0 n"

definition u_memmove :: "memory \<Rightarrow> addr \<Rightarrow> addr \<Rightarrow> nat \<Rightarrow> memory" where
  "u_memmove m vdst vsrc n =
     (if vdst < vsrc then move_up m vdst vsrc n
      else move_down m (vdst + of_nat n) (vsrc + of_nat n) n)"

definition u_memcmp :: "cstr \<Rightarrow> cstr \<Rightarrow> nat \<Rightarrow> int" where
  "u_memcmp s1 s2 n = memcmp s1 s2 n"

definition u_memcpy :: "memory \<Rightarrow> addr \<Rightarrow> addr \<Rightarrow> nat \<Rightarrow> memory" where
  "u_memcpy m dst src n = u_memmove m dst src n"

section \<open>Input and output\<close>

text \<open>The string \<^verbatim>\<open>gets\<close> leaves in a buffer of \<open>max\<close> bytes; \<open>k\<close> bytes are free beside the final NUL.\<close>

primrec gets_loop :: "'s os \<Rightarrow> nat \<Rightarrow> ('s, string) uprog" where
  "gets_loop os 0 = uret []"
| "gets_loop os (Suc k) =
     ubind (usys (os_read os 0 1)) (\<lambda>(cc, bs).
     if cc < 1 then uret []
     else let c = hd bs in
          if c = CHR 0x0A \<or> c = CHR 0x0D then uret [c]
          else ubind (gets_loop os k) (\<lambda>rest. uret (c # rest)))"

definition gets :: "'s os \<Rightarrow> nat \<Rightarrow> ('s, string) uprog" where
  "gets os mx = gets_loop os (mx - 1)"

definition u_stat :: "'s os \<Rightarrow> string \<Rightarrow> ('s, int \<times> string) uprog" where
  "u_stat os n =
     ubind (usys (os_open os n 0)) (\<lambda>fd.
     if fd < 0 then uret (- 1, [])
     else ubind (usys (os_fstat os fd)) (\<lambda>r.
          useq (usys (os_close os fd)) (uret r)))"

definition u_sbrk :: "'s os \<Rightarrow> int \<Rightarrow> ('s, int) uprog" where
  "u_sbrk os n = usys (os_sbrk os n 1)"

definition u_sbrklazy :: "'s os \<Rightarrow> int \<Rightarrow> ('s, int) uprog" where
  "u_sbrklazy os n = usys (os_sbrk os n 2)"

definition u_start :: "('s, int) uprog \<Rightarrow> ('s, 'a) uprog" where
  "u_start main = useq main (uexit 0)"

text \<open>\<^verbatim>\<open>fprintf\<close> sends its characters with one system call each.\<close>

primrec putcs :: "'s os \<Rightarrow> int \<Rightarrow> string \<Rightarrow> 's \<Rightarrow> 's" where
  "putcs os fd [] s = s"
| "putcs os fd (c # cs) s = putcs os fd cs (snd (os_write os fd [c] s))"

definition u_fprintf :: "'s os \<Rightarrow> int \<Rightarrow> string \<Rightarrow> va list \<Rightarrow> ('s, unit) uprog" where
  "u_fprintf os fd fmt ap s = map_option (\<lambda>str. (Val (), putcs os fd str s)) (vprintf fmt ap)"

definition u_printf :: "'s os \<Rightarrow> string \<Rightarrow> va list \<Rightarrow> ('s, unit) uprog" where
  "u_printf os fmt ap = u_fprintf os 1 fmt ap"

section \<open>The library's functions\<close>

lemma u_memmove_eq:
  assumes "unat vdst + n \<le> 2 ^ 64" "unat vsrc + n \<le> 2 ^ 64"
  shows "u_memmove m vdst vsrc n = mem_write m vdst (mem_read m vsrc n)"
proof (cases "vdst < vsrc")
  case True
  then show ?thesis using move_up_eq [OF assms, of m] less_imp_le [OF True] by (simp add: u_memmove_def)
next
  case False
  then show ?thesis using move_down_eq [OF assms] by (simp add: u_memmove_def)
qed

lemma cval_inject [simp]: "cval c = cval d \<longleftrightarrow> c = d"
  by (simp add: cval_def)

lemma u_strcmp_eq_0: "NUL \<notin> set p \<Longrightarrow> NUL \<notin> set q \<Longrightarrow> u_strcmp p q = 0 \<longleftrightarrow> p = q"
proof (induction p q rule: u_strcmp.induct)
  case (1 x p y q)
  then show ?case using cval_inject [of x y] by auto
next
  case (2 x p)
  then show ?case using cval_inject [of x NUL] by auto
next
  case (3 y q)
  then show ?case using cval_inject [of NUL y] by auto
qed simp

lemma u_strchr_eq:
  assumes "NUL \<notin> set s"
  shows "u_strchr s c = (if c \<in> set s then Some (length (takeWhile (\<lambda>x. x \<noteq> c) s)) else None)"
  using assms by (induction s) auto

lemma takeWhile_sep: "c \<notin> set l \<Longrightarrow> takeWhile (\<lambda>x. x \<noteq> c) (l @ c # r) = l"
  by (induction l) auto

end
