(* ===== verification/Filters.thy ===== *)
theory Filters
  imports Userland
begin

text \<open>
  Small user programs: \<^verbatim>\<open>echo\<close>, \<^verbatim>\<open>cat\<close>, \<^verbatim>\<open>wc\<close>, \<^verbatim>\<open>kill\<close>, \<^verbatim>\<open>ln\<close>, \<^verbatim>\<open>mkdir\<close> and
  \<^verbatim>\<open>rm\<close>.  An argument vector is the list of its strings, the program's name first.
\<close>

section \<open>Programs\<close>

primrec echo_args :: "'s os \<Rightarrow> string list \<Rightarrow> ('s, unit) uprog" where
  "echo_args os [] = uret ()"
| "echo_args os (a # args) =
     useq (usys (os_write os 1 (take (u_strlen a) a))) (
     useq (usys (os_write os 1 (if args \<noteq> [] then '' '' else ''\<newline>'')))
          (echo_args os args))"

definition echo_main :: "'s os \<Rightarrow> string list \<Rightarrow> ('s, int) uprog" where
  "echo_main os argv = useq (echo_args os (tl argv)) (uexit 0)"

partial_function (option) cat_loop :: "'s os \<Rightarrow> int \<Rightarrow> 's \<Rightarrow> (int outc \<times> 's) option" where
  "cat_loop os fd s =
     (case os_read os fd 512 s of ((n, buf), s1) \<Rightarrow>
      if n > 0
      then (case os_write os 1 (take (nat n) buf) s1 of (m, s2) \<Rightarrow>
            if m \<noteq> n then useq (u_fprintf os 2 ''cat: write error\<newline>'' []) (uexit 1) s2
            else cat_loop os fd s2)
      else Some (Val n, s1))"

definition cat :: "'s os \<Rightarrow> int \<Rightarrow> ('s, unit) uprog" where
  "cat os fd =
     ubind (cat_loop os fd) (\<lambda>n.
     if n < 0 then useq (u_fprintf os 2 ''cat: read error\<newline>'' []) (uexit 1) else uret ())"

definition cat_main :: "'s os \<Rightarrow> string list \<Rightarrow> ('s, int) uprog" where
  "cat_main os argv =
     (if length argv \<le> 1 then useq (cat os 0) (uexit 0)
      else useq (ueach (\<lambda>a.
             ubind (usys (os_open os a 0)) (\<lambda>fd.
             if fd < 0 then useq (u_fprintf os 2 ''cat: cannot open %s\<newline>'' [Ptr (Some a)]) (uexit 1)
             else useq (cat os fd) (useq (usys (os_close os fd)) (uret ())))) (tl argv))
           (uexit 0))"

text \<open>The counters of \<^verbatim>\<open>wc\<close>; the string of separators has its NUL at the end.\<close>

record wc_st =
  wc_l :: u32
  wc_w :: u32
  wc_c :: u32
  wc_inword :: bool

definition wc_char :: "wc_st \<Rightarrow> char \<Rightarrow> wc_st" where
  "wc_char k b =
     (let k = k\<lparr>wc_c := wc_c k + 1\<rparr>;
          k = (if b = CHR 0x0A then k\<lparr>wc_l := wc_l k + 1\<rparr> else k)
      in if u_strchr [CHR '' '', CHR 0x0D, CHR 0x09, CHR 0x0A, CHR 0x0B, NUL] b \<noteq> None
         then k\<lparr>wc_inword := False\<rparr>
         else if \<not> wc_inword k then k\<lparr>wc_w := wc_w k + 1, wc_inword := True\<rparr> else k)"

partial_function (option) wc_loop :: "'s os \<Rightarrow> int \<Rightarrow> wc_st \<Rightarrow> 's \<Rightarrow> ((int \<times> wc_st) outc \<times> 's) option" where
  "wc_loop os fd k s =
     (case os_read os fd 512 s of ((n, buf), s1) \<Rightarrow>
      if n > 0 then wc_loop os fd (foldl wc_char k (take (nat n) buf)) s1
      else Some (Val (n, k), s1))"

definition wc :: "'s os \<Rightarrow> int \<Rightarrow> string \<Rightarrow> ('s, unit) uprog" where
  "wc os fd name =
     ubind (wc_loop os fd \<lparr>wc_l = 0, wc_w = 0, wc_c = 0, wc_inword = False\<rparr>) (\<lambda>(n, k).
     if n < 0 then useq (u_printf os ''wc: read error\<newline>'' []) (uexit 1)
     else u_printf os ''%d %d %d %s\<newline>'' [Reg (ucast (wc_l k)), Reg (ucast (wc_w k)), Reg (ucast (wc_c k)), Ptr (Some name)])"

definition wc_main :: "'s os \<Rightarrow> string list \<Rightarrow> ('s, int) uprog" where
  "wc_main os argv =
     (if length argv \<le> 1 then useq (wc os 0 []) (uexit 0)
      else useq (ueach (\<lambda>a.
             ubind (usys (os_open os a 0)) (\<lambda>fd.
             if fd < 0 then useq (u_printf os ''wc: cannot open %s\<newline>'' [Ptr (Some a)]) (uexit 1)
             else useq (wc os fd a) (useq (usys (os_close os fd)) (uret ())))) (tl argv))
           (uexit 0))"

definition kill_main :: "'s os \<Rightarrow> string list \<Rightarrow> ('s, int) uprog" where
  "kill_main os argv =
     (if length argv < 2 then useq (u_fprintf os 2 ''usage: kill pid...\<newline>'' []) (uexit 1)
      else useq (ueach (\<lambda>a. useq (usys (os_kill os (u_atoi a))) (uret ())) (tl argv)) (uexit 0))"

definition ln_main :: "'s os \<Rightarrow> string list \<Rightarrow> ('s, int) uprog" where
  "ln_main os argv =
     (if length argv \<noteq> 3 then useq (u_fprintf os 2 ''Usage: ln old new\<newline>'' []) (uexit 1)
      else ubind (usys (os_link os (argv ! 1) (argv ! 2))) (\<lambda>r.
           useq (if r < 0 then u_fprintf os 2 ''link %s %s: failed\<newline>'' [Ptr (Some (argv ! 1)), Ptr (Some (argv ! 2))]
                 else uret ())
                (uexit 0)))"

text \<open>\<^verbatim>\<open>mkdir\<close> and \<^verbatim>\<open>rm\<close> leave their loop at the first failure.\<close>

primrec until_fail :: "(string \<Rightarrow> 's \<Rightarrow> int \<times> 's) \<Rightarrow> 's os \<Rightarrow> string \<Rightarrow> string list \<Rightarrow> ('s, unit) uprog" where
  "until_fail call os msg [] = uret ()"
| "until_fail call os msg (a # args) =
     ubind (usys (call a)) (\<lambda>r.
     if r < 0 then u_fprintf os 2 msg [Ptr (Some a)] else until_fail call os msg args)"

definition mkdir_main :: "'s os \<Rightarrow> string list \<Rightarrow> ('s, int) uprog" where
  "mkdir_main os argv =
     (if length argv < 2 then useq (u_fprintf os 2 ''Usage: mkdir files...\<newline>'' []) (uexit 1)
      else useq (until_fail (os_mkdir os) os ''mkdir: %s failed to create\<newline>'' (tl argv)) (uexit 0))"

definition rm_main :: "'s os \<Rightarrow> string list \<Rightarrow> ('s, int) uprog" where
  "rm_main os argv =
     (if length argv < 2 then useq (u_fprintf os 2 ''Usage: rm files...\<newline>'' []) (uexit 1)
      else useq (until_fail (os_unlink os) os ''rm: %s failed to delete\<newline>'' (tl argv)) (uexit 0))"

section \<open>Streams\<close>

text \<open>
  What the programs rely on: \<^verbatim>\<open>read\<close> takes some bytes off the front of what is left of the
  file, at least one unless nothing is left or asked for, and \<^verbatim>\<open>write\<close> appends all of its bytes to the file.
\<close>

definition stream :: "'s os \<Rightarrow> int \<Rightarrow> ('s \<Rightarrow> string) \<Rightarrow> (int \<Rightarrow> 's \<Rightarrow> string) \<Rightarrow> bool" where
  "stream os fd src out \<longleftrightarrow>
     (\<forall>n s. \<exists>k t. os_read os fd n s = ((int k, take k (src s)), t) \<and> k \<le> n \<and> k \<le> length (src s) \<and>
        (0 < n \<longrightarrow> src s \<noteq> [] \<longrightarrow> 0 < k) \<and> src t = drop k (src s) \<and> (\<forall>f. out f t = out f s)) \<and>
     (\<forall>f bs s. \<exists>t. os_write os f bs s = (int (length bs), t) \<and> src t = src s \<and>
        (\<forall>g. out g t = (if g = f then out g s @ bs else out g s)))"

lemma stream_read:
  assumes "stream os fd src out"
  obtains k t where "os_read os fd n s = ((int k, take k (src s)), t)" "k \<le> n" "k \<le> length (src s)"
    "0 < n \<Longrightarrow> src s \<noteq> [] \<Longrightarrow> 0 < k" "src t = drop k (src s)" "\<And>f. out f t = out f s"
  using assms unfolding stream_def by metis

lemma stream_write:
  assumes "stream os fd src out"
  obtains t where "os_write os f bs s = (int (length bs), t)" "src t = src s" "out f t = out f s @ bs"
    "\<And>g. g \<noteq> f \<Longrightarrow> out g t = out g s"
  using assms unfolding stream_def by metis

text \<open>An operating system with one file to read, which it gives out in pieces of at most three bytes.\<close>

definition demo_os :: "(string \<times> (int \<Rightarrow> string)) os" where
  "demo_os = \<lparr>os_exec = (\<lambda>_ _ s. (- 1, s)), os_wait = (\<lambda>s. (- 1, s)), os_pipe = (\<lambda>s. ((- 1, 0, 0), s)),
     os_write = (\<lambda>f bs (d, w). (int (length bs), (d, w(f := w f @ bs)))),
     os_read = (\<lambda>f n (d, w). let k = min 3 (min n (length d)) in ((int k, take k d), (drop k d, w))),
     os_close = (\<lambda>_ s. (0, s)), os_kill = (\<lambda>_ s. (- 1, s)), os_open = (\<lambda>_ _ s. (- 1, s)),
     os_unlink = (\<lambda>_ s. (- 1, s)), os_fstat = (\<lambda>_ s. ((- 1, []), s)), os_link = (\<lambda>_ _ s. (- 1, s)),
     os_mkdir = (\<lambda>_ s. (- 1, s)), os_sbrk = (\<lambda>_ _ s. (- 1, s))\<rparr>"

lemma demo_stream: "stream demo_os fd fst (\<lambda>f s. snd s f)"
  by (auto simp: stream_def demo_os_def Let_def intro!: exI)

lemma putcs_stream:
  assumes "stream os fd src out"
  shows "src (putcs os f cs s) = src s \<and> out f (putcs os f cs s) = out f s @ cs \<and>
     (\<forall>g. g \<noteq> f \<longrightarrow> out g (putcs os f cs s) = out g s)"
proof (induction cs arbitrary: s)
  case (Cons c cs)
  obtain t where "os_write os f [c] s = (int (length [c]), t)" "src t = src s" "out f t = out f s @ [c]"
    "\<And>g. g \<noteq> f \<Longrightarrow> out g t = out g s"
    by (rule stream_write [OF assms, where f = f and bs = "[c]" and s = s]) blast
  then show ?case using Cons.IH [of t] by simp
qed simp

lemma cat_loop_stream:
  assumes "stream os fd src out"
  shows "\<exists>t. cat_loop os fd s = Some (Val 0, t) \<and> src t = [] \<and> out 1 t = out 1 s @ src s \<and>
     (\<forall>g. g \<noteq> 1 \<longrightarrow> out g t = out g s)"
proof (induction "length (src s)" arbitrary: s rule: less_induct)
  case less
  obtain k t where r: "os_read os fd 512 s = ((int k, take k (src s)), t)" "k \<le> length (src s)"
    "src s \<noteq> [] \<Longrightarrow> 0 < k" "src t = drop k (src s)" "\<And>f. out f t = out f s"
    by (rule stream_read [OF assms, where n = 512 and s = s]) auto
  obtain u where u: "os_write os 1 (take k (src s)) t = (int (length (take k (src s))), u)" "src u = src t"
    "out 1 u = out 1 t @ take k (src s)" "\<And>g. g \<noteq> 1 \<Longrightarrow> out g u = out g t"
    by (rule stream_write [OF assms, where f = 1 and bs = "take k (src s)" and s = t]) blast
  show ?case
  proof (cases "src s = []")
    case True
    then show ?thesis using r by (subst cat_loop.simps) auto
  next
    case False
    then have "length (src u) < length (src s)" using r u(2) by simp
    from less [OF this] obtain v where v: "cat_loop os fd u = Some (Val 0, v)" "src v = []"
      "out 1 v = out 1 u @ src u" "\<forall>g. g \<noteq> 1 \<longrightarrow> out g v = out g u" by blast
    have "cat_loop os fd s = cat_loop os fd u"
      using r u(1) False by (subst cat_loop.simps) (simp add: min_absorb2)
    then show ?thesis using v u(2-4) r(4,5) by simp
  qed
qed

text \<open>
  Property C34: \<open>cat\<close> terminates and copies.  However the reads cut the file into pieces, it returns, having
  read everything that was left of the file and written exactly that to its standard output,
  and nothing anywhere else.
\<close>

theorem cat_copies:
  assumes "stream os fd src out"
  shows "\<exists>t. cat os fd s = Some (Val (), t) \<and> src t = [] \<and> out 1 t = out 1 s @ src s \<and>
     (\<forall>g. g \<noteq> 1 \<longrightarrow> out g t = out g s)"
proof -
  obtain t where "cat_loop os fd s = Some (Val 0, t)" "src t = []" "out 1 t = out 1 s @ src s"
     "\<forall>g. g \<noteq> 1 \<longrightarrow> out g t = out g s" using cat_loop_stream [OF assms] by blast
  then show ?thesis by (simp add: cat_def)
qed

theorem cat_copies_witness:
  "\<exists>t. cat demo_os 0 (''hello world'', \<lambda>_. []) = Some (Val (), t) \<and> fst t = [] \<and> snd t 1 = ''hello world''"
  using cat_copies [OF demo_stream, of 0 "(''hello world'', \<lambda>_. [])"] by auto

section \<open>Counting\<close>

definition is_space :: "char \<Rightarrow> bool" where
  "is_space c \<longleftrightarrow> c \<in> {CHR '' '', CHR 0x0D, CHR 0x09, CHR 0x0A, CHR 0x0B}"

text \<open>A word starts at a character that is no space, at the front or behind a space.\<close>

definition word_starts :: "string \<Rightarrow> nat set" where
  "word_starts d = {i. i < length d \<and> \<not> is_space (d ! i) \<and> (i = 0 \<or> is_space (d ! (i - 1)))}"

definition wc_spec :: "string \<Rightarrow> wc_st" where
  "wc_spec d = \<lparr>wc_l = of_nat (count_list d CHR 0x0A), wc_w = of_nat (card (word_starts d)),
     wc_c = of_nat (length d), wc_inword = (d \<noteq> [] \<and> \<not> is_space (last d))\<rparr>"

lemma strchr_space:
  "u_strchr [CHR '' '', CHR 0x0D, CHR 0x09, CHR 0x0A, CHR 0x0B, NUL] b \<noteq> None \<longleftrightarrow> is_space b"
  by (auto simp: is_space_def)

lemma finite_word_starts [simp]: "finite (word_starts d)"
  by (simp add: word_starts_def)

lemma word_starts_snoc:
  "word_starts (d @ [c]) = word_starts d \<union>
     (if \<not> is_space c \<and> (d = [] \<or> is_space (last d)) then {length d} else {})"
  by (cases "d = []") (auto simp: word_starts_def nth_append last_conv_nth less_Suc_eq split: if_splits)

lemma wc_chars: "foldl wc_char (wc_spec []) d = wc_spec d"
proof (induction d rule: rev_induct)
  case (snoc c d)
  have "length d \<notin> word_starts d" by (simp add: word_starts_def)
  then show ?case using snoc
    by (auto simp: wc_char_def Let_def strchr_space wc_spec_def word_starts_snoc is_space_def algebra_simps)
qed simp

lemma wc_loop_stream:
  assumes "stream os fd src out"
  shows "\<exists>t. wc_loop os fd k s = Some (Val (0, foldl wc_char k (src s)), t) \<and> src t = [] \<and> (\<forall>f. out f t = out f s)"
proof (induction "length (src s)" arbitrary: k s rule: less_induct)
  case less
  obtain j t where r: "os_read os fd 512 s = ((int j, take j (src s)), t)" "j \<le> length (src s)"
    "src s \<noteq> [] \<Longrightarrow> 0 < j" "src t = drop j (src s)" "\<And>f. out f t = out f s"
    by (rule stream_read [OF assms, where n = 512 and s = s]) auto
  show ?case
  proof (cases "src s = []")
    case True
    then show ?thesis using r by (subst wc_loop.simps) auto
  next
    case False
    then have "length (src t) < length (src s)" using r by simp
    from less [OF this, of "foldl wc_char k (take j (src s))"] show ?thesis
      using r False by (subst wc_loop.simps) (auto simp flip: foldl_append)
  qed
qed

text \<open>
  Property C33: \<open>wc\<close> terminates and counts right.  However the reads cut the file into pieces (a word may span
  two of them), it returns having printed the number of newlines, of words (maximal runs of characters
  that are no space) and of characters of the file, as 32-bit integers, and the name.
\<close>

theorem wc_counts:
  assumes "stream os fd src out"
  shows "\<exists>t. wc os fd name s = Some (Val (), t) \<and> src t = [] \<and>
     out 1 t = out 1 s @ u_printint (va_int (ucast (of_nat (count_list (src s) CHR 0x0A) :: u32))) 10 True @ '' '' @
       u_printint (va_int (ucast (of_nat (card (word_starts (src s))) :: u32))) 10 True @ '' '' @
       u_printint (va_int (ucast (of_nat (length (src s)) :: u32))) 10 True @ '' '' @ name @ ''\<newline>''"
proof -
  have "wc_spec [] = \<lparr>wc_l = 0, wc_w = 0, wc_c = 0, wc_inword = False\<rparr>" by (simp add: wc_spec_def word_starts_def)
  then obtain t where t: "wc_loop os fd \<lparr>wc_l = 0, wc_w = 0, wc_c = 0, wc_inword = False\<rparr> s = Some (Val (0, wc_spec (src s)), t)"
    "src t = []" "\<forall>f. out f t = out f s"
    using wc_loop_stream [OF assms, of "wc_spec []" s] wc_chars [of "src s"] by auto
  have "vprintf ''%d %d %d %s\<newline>'' [Reg a, Reg b, Reg c, Ptr (Some name)] =
      Some (u_printint (va_int a) 10 True @ '' '' @ u_printint (va_int b) 10 True @ '' '' @
        u_printint (va_int c) 10 True @ '' '' @ name @ ''\<newline>'')" for a b c
    by (simp add: vprintf_def conversion_def)
  then show ?thesis
    using t putcs_stream [OF assms] by (simp add: wc_def u_printf_def u_fprintf_def wc_spec_def)
qed

theorem wc_counts_witness:
  "\<exists>t. wc demo_os 0 ''f'' (''one two\<newline>'', \<lambda>_. []) = Some (Val (), t) \<and> fst t = [] \<and> snd t 1 \<noteq> []"
  using wc_counts [OF demo_stream, of 0 "''f''" "(''one two\<newline>'', \<lambda>_. [])"] by auto

section \<open>Decimal numbers\<close>

lemma digit_chars:
  assumes "n < 10"
  shows "is_digit (user_digits ! n)" "(of_char (user_digits ! n) :: u32) - of_char CHR ''0'' = of_nat n"
proof -
  have "\<forall>n\<in>set [0..<10]. is_digit (user_digits ! n) \<and> (of_char (user_digits ! n) :: u32) - of_char CHR ''0'' = of_nat n"
    by code_simp
  then show "is_digit (user_digits ! n)" "(of_char (user_digits ! n) :: u32) - of_char CHR ''0'' = of_nat n"
    using assms by simp_all
qed

lemma atoi_from_buf:
  "atoi_from a (rev (buf_digits user_digits 10 n) @ rest) =
     atoi_from (a * 10 ^ length (buf_digits user_digits 10 n) + of_nat n) rest"
proof (induction n arbitrary: rest rule: less_induct)
  case (less n)
  note d = digit_chars [of "n mod 10"]
  have e: "of_nat n = (of_nat (n div 10) * 10 + of_nat (n mod 10) :: u32)"
    by (metis div_mult_mod_eq of_nat_add of_nat_mult of_nat_numeral)
  show ?case
  proof (cases "n div 10 = 0")
    case True
    then show ?thesis using d by (subst (1 2) buf_digits.simps) (simp add: add_diff_eq [symmetric])
  next
    case False
    then have "n div 10 < n" by simp
    from less [OF this] d show ?thesis using False
      by (subst (1 2) buf_digits.simps) (simp add: add_diff_eq [symmetric] e algebra_simps)
  qed
qed

text \<open>
  Property C35: \<open>atoi\<close> reads back what \<open>printf\<close> prints.  For every number below 2 to the 31 the decimal numeral
  of \<open>%d\<close>, followed by anything that is no digit, is read as the number.
\<close>

theorem atoi_printint:
  assumes "n < 2 ^ 31" "rest = [] \<or> \<not> is_digit (hd rest)"
  shows "u_atoi (u_printint (of_nat n) 10 sg @ rest) = int n"
proof -
  have "atoi_from a rest = a" for a using assms(2) by (cases rest) auto
  moreover have "uint (of_nat n :: u64) = int n" using assms(1) by (simp add: uint_nat unat_of_nat take_bit_eq_mod)
  then have "\<not> sint (of_nat n :: u64) < 0" using assms(1) by (simp add: sint_u64)
  moreover have "unat (ucast (of_nat n :: u64) :: u32) = n"
    using assms(1) by (simp add: unat_of_nat unsigned_ucast_eq take_bit_eq_mod)
  moreover have "sint (of_nat n :: u32) = int n"
    using assms(1) by (simp add: signed_of_nat signed_take_bit_int_eq_self)
  ultimately show ?thesis by (simp add: u_atoi_def u_printint_def Let_def atoi_from_buf)
qed

theorem atoi_printint_witness: "u_atoi (u_printint 2025 10 True @ '' x'') = 2025"
proof -
  have "\<not> is_digit CHR '' ''" by code_simp
  then show ?thesis using atoi_printint [of 2025 "'' x''" True] by simp
qed

end
