(* ===== verification/Grep.thy ===== *)
theory Grep
  imports Filters
begin

text \<open>
  \<^verbatim>\<open>user/grep.c\<close>: the matcher for regular expressions with \<^verbatim>\<open>^ . * $\<close> and the loop that
  reads lines through a buffer of 1024 bytes.  The matcher is compared with the languages of
  expressions, the loop with the lines of the file.
\<close>

section \<open>Definitions\<close>

text \<open>The character at an index of a C string, with the NUL at its end.\<close>

definition cat_at :: "string \<Rightarrow> nat \<Rightarrow> char" where
  "cat_at s i = (if i < length s then s ! i else NUL)"

function matchhere :: "string \<Rightarrow> string \<Rightarrow> bool" and matchstar :: "char \<Rightarrow> string \<Rightarrow> string \<Rightarrow> bool" where
  "matchhere re text =
     (if re = [] then True
      else if cat_at re 1 = CHR ''*'' then matchstar (cat_at re 0) (drop 2 re) text
      else if cat_at re 0 = CHR ''$'' \<and> length re = 1 then text = []
      else if text \<noteq> [] \<and> (cat_at re 0 = CHR ''.'' \<or> cat_at re 0 = cat_at text 0)
           then matchhere (drop 1 re) (drop 1 text)
      else False)"
| "matchstar c re text =
     (if matchhere re text then True
      else if text \<noteq> [] \<and> (cat_at text 0 = c \<or> c = CHR ''.'') then matchstar c re (drop 1 text)
      else False)"
  by pat_completeness auto
termination
  by (relation "measures [case_sum (\<lambda>(re, t). length re + length t) (\<lambda>(c, re, t). length re + length t),
      case_sum (\<lambda>_. 0) (\<lambda>_. 1)]")
    (auto simp: cat_at_def neq_Nil_conv split: if_splits)

declare matchhere.simps [simp del] matchstar.simps [simp del]

primrec match_from :: "string \<Rightarrow> string \<Rightarrow> bool" where
  "match_from re [] = matchhere re []"
| "match_from re (c # text) = (if matchhere re (c # text) then True else match_from re text)"

definition match :: "string \<Rightarrow> string \<Rightarrow> bool" where
  "match re text = (if cat_at re 0 = CHR ''^'' then matchhere (drop 1 re) text else match_from re text)"

text \<open>The inner loop: \<open>p\<close> is the offset of the current line in the buffer.\<close>

lemma strchr_less: "u_strchr s c = Some k \<Longrightarrow> k < length s"
  by (induction s arbitrary: k) (auto split: if_splits)

function grep_lines :: "'s os \<Rightarrow> string \<Rightarrow> string \<Rightarrow> nat \<Rightarrow> 's \<Rightarrow> (string \<times> nat) \<times> 's" where
  "grep_lines os pattern buf p s =
     (case u_strchr (drop p buf) CHR 0x0A of
        None \<Rightarrow> ((buf, p), s)
      | Some k \<Rightarrow>
          let q = p + k;
              buf = buf[q := NUL]
          in if match pattern (takeWhile (\<lambda>c. c \<noteq> NUL) (drop p buf))
             then let buf = buf[q := CHR 0x0A]
                  in grep_lines os pattern buf (q + 1) (snd (os_write os 1 (take (q + 1 - p) (drop p buf)) s))
             else grep_lines os pattern buf (q + 1) s)"
  by pat_completeness auto
termination
  by (relation "measure (\<lambda>(_, _, buf, p, _). length buf - p)") (auto dest: strchr_less)

declare grep_lines.simps [simp del]

partial_function (option) grep_loop :: "'s os \<Rightarrow> string \<Rightarrow> int \<Rightarrow> string \<Rightarrow> nat \<Rightarrow> 's \<Rightarrow> (unit outc \<times> 's) option" where
  "grep_loop os pattern fd buf m s =
     (case os_read os fd (1024 - m - 1) s of ((n, bs), s1) \<Rightarrow>
      if n > 0
      then let m1 = m + nat n;
               buf1 = (take m buf @ take (nat n) bs @ drop m1 buf)[m1 := NUL]
           in (case grep_lines os pattern buf1 0 s1 of ((buf2, p), s2) \<Rightarrow>
               if m1 > 0
               then let m2 = m1 - p
                    in grep_loop os pattern fd (take m2 (drop p buf2) @ drop m2 buf2) m2 s2
               else grep_loop os pattern fd buf2 m1 s2)
      else Some (Val (), s1))"

definition grep :: "'s os \<Rightarrow> string \<Rightarrow> string \<Rightarrow> int \<Rightarrow> ('s, unit) uprog" where
  "grep os buf pattern fd = grep_loop os pattern fd buf 0"

definition grep_main :: "'s os \<Rightarrow> string \<Rightarrow> string list \<Rightarrow> ('s, int) uprog" where
  "grep_main os buf argv =
     (if length argv \<le> 1 then useq (u_fprintf os 2 ''usage: grep pattern [file ...]\<newline>'' []) (uexit 1)
      else let pattern = argv ! 1 in
           if length argv \<le> 2 then useq (grep os buf pattern 0) (uexit 0)
           else useq (ueach (\<lambda>a.
                  ubind (usys (os_open os a 0)) (\<lambda>fd.
                  if fd < 0 then useq (u_printf os ''grep: cannot open %s\<newline>'' [Ptr (Some a)]) (uexit 1)
                  else useq (grep os buf pattern fd) (useq (usys (os_close os fd)) (uret ())))) (drop 2 argv))
                (uexit 0))"

section \<open>The languages of expressions\<close>

datatype atom = Dot | Lit char

datatype item = One atom | Many atom

fun atom_ok :: "atom \<Rightarrow> char \<Rightarrow> bool" where
  "atom_ok Dot c = True"
| "atom_ok (Lit d) c = (d = c)"

definition atom_of :: "char \<Rightarrow> atom" where
  "atom_of c = (if c = CHR ''.'' then Dot else Lit c)"

text \<open>The items of an expression, and whether it ends in the anchor \<^verbatim>\<open>$\<close>.\<close>

fun items :: "string \<Rightarrow> item list \<times> bool" where
  "items [] = ([], False)"
| "items [c] = (if c = CHR ''$'' then ([], True) else ([One (atom_of c)], False))"
| "items (c # d # re) =
     (if d = CHR ''*'' then apfst (Cons (Many (atom_of c))) (items re)
      else apfst (Cons (One (atom_of c))) (items (d # re)))"

fun lang :: "item list \<Rightarrow> string set" where
  "lang [] = {[]}"
| "lang (One a # its) = {c # w |c w. atom_ok a c \<and> w \<in> lang its}"
| "lang (Many a # its) = {u @ w |u w. (\<forall>c\<in>set u. atom_ok a c) \<and> w \<in> lang its}"

text \<open>Some word of the language of \<open>re\<close> is a prefix of the text, all of it before an anchor.\<close>

definition here :: "string \<Rightarrow> string \<Rightarrow> bool" where
  "here re text \<longleftrightarrow> (\<exists>w v. text = w @ v \<and> w \<in> lang (fst (items re)) \<and> (snd (items re) \<longrightarrow> v = []))"

lemma here_one: "here (c # re) (x # text) \<longleftrightarrow> atom_ok (atom_of c) x \<and> here re text"
  if "items (c # re) = apfst (Cons (One (atom_of c))) (items re)"
  using that by (auto simp: here_def Cons_eq_append_conv)

lemma here_one_Nil: "\<not> here (c # re) []"
  if "items (c # re) = apfst (Cons (One (atom_of c))) (items re)"
  using that by (auto simp: here_def)

lemma here_manyI:
  assumes "t = u @ w @ v" "\<forall>c'\<in>set u. atom_ok (atom_of c) c'" "w \<in> lang (fst (items re))" "snd (items re) \<longrightarrow> v = []"
  shows "here (c # CHR ''*'' # re) t"
proof -
  have "u @ w \<in> lang (fst (items (c # CHR ''*'' # re)))" using assms(2,3) by auto
  then show ?thesis using assms(1,4) unfolding here_def by (intro exI [of _ "u @ w"] exI [of _ v]) simp
qed

lemma here_many: "here (c # CHR ''*'' # re) text \<longleftrightarrow>
    here re text \<or> (\<exists>x xs. text = x # xs \<and> atom_ok (atom_of c) x \<and> here (c # CHR ''*'' # re) xs)"
proof
  assume "here (c # CHR ''*'' # re) text"
  then obtain u w v where *: "text = (u @ w) @ v" "\<forall>c'\<in>set u. atom_ok (atom_of c) c'" "w \<in> lang (fst (items re))"
    "snd (items re) \<longrightarrow> v = []" unfolding here_def by (auto simp del: append_assoc)
  show "here re text \<or> (\<exists>x xs. text = x # xs \<and> atom_ok (atom_of c) x \<and> here (c # CHR ''*'' # re) xs)"
  proof (cases u)
    case Nil
    then show ?thesis using * by (auto simp: here_def)
  next
    case (Cons x u')
    then have "here (c # CHR ''*'' # re) (u' @ w @ v)" using * by (intro here_manyI) auto
    then show ?thesis using * Cons by auto
  qed
next
  assume "here re text \<or> (\<exists>x xs. text = x # xs \<and> atom_ok (atom_of c) x \<and> here (c # CHR ''*'' # re) xs)"
  then show "here (c # CHR ''*'' # re) text"
  proof
    assume "here re text"
    then obtain w v where "text = w @ v" "w \<in> lang (fst (items re))" "snd (items re) \<longrightarrow> v = []" by (auto simp: here_def)
    then show ?thesis by (intro here_manyI [of _ "[]"]) auto
  next
    assume "\<exists>x xs. text = x # xs \<and> atom_ok (atom_of c) x \<and> here (c # CHR ''*'' # re) xs"
    then obtain x u w v where "text = x # (u @ w) @ v" "atom_ok (atom_of c) x" "\<forall>c'\<in>set u. atom_ok (atom_of c) c'"
      "w \<in> lang (fst (items re))" "snd (items re) \<longrightarrow> v = []" 
      unfolding here_def by (auto simp del: append_assoc)
    then show ?thesis by (intro here_manyI [of _ "x # u" w v]) auto
  qed
qed

lemma atom_of_ok: "atom_ok (atom_of c) x \<longleftrightarrow> c = CHR ''.'' \<or> c = x"
  by (simp add: atom_of_def)

lemma items_word:
  assumes "re \<noteq> []" "cat_at re 1 \<noteq> CHR ''*''" "\<not> (cat_at re 0 = CHR ''$'' \<and> length re = 1)"
  shows "items re = apfst (Cons (One (atom_of (hd re)))) (items (tl re))"
  using assms by (cases re rule: items.cases) (auto simp: cat_at_def)

lemma matchhere_here: "matchhere re t \<longleftrightarrow> here re t"
  and matchstar_here: "matchstar c re t \<longleftrightarrow> here (c # CHR ''*'' # re) t"
proof (induction re t and c re t rule: matchhere_matchstar.induct)
  case (1 re t)
  consider "re = []" | c re' where "re = c # CHR ''*'' # re'" | "re = ''$''" |
    "re \<noteq> []" "cat_at re 1 \<noteq> CHR ''*''" "\<not> (cat_at re 0 = CHR ''$'' \<and> length re = 1)"
    by (cases re rule: items.cases) (auto simp: cat_at_def)
  then show ?case
  proof cases
    case 1
    then show ?thesis by (simp add: matchhere.simps here_def)
  next
    case 2
    then show ?thesis using "1.IH"(1) by (simp add: matchhere.simps [of "c # CHR ''*'' # re'" t] cat_at_def)
  next
    case 3
    then show ?thesis by (auto simp: matchhere.simps here_def cat_at_def)
  next
    case 4
    note w = items_word [OF 4]
    obtain c re' where re: "re = c # re'" using 4(1) by (cases re) auto
    show ?thesis
    proof (cases t)
      case Nil
      then show ?thesis using 4 w here_one_Nil [of c re'] by (simp add: matchhere.simps re cat_at_def)
    next
      case (Cons x t')
      then show ?thesis using 4 w "1.IH"(2) here_one [of c re' x t']
        by (auto simp: matchhere.simps [of "c # re'"] re atom_of_ok cat_at_def split: if_splits)
    qed
  qed
next
  case (2 c re t)
  then show ?case unfolding matchstar.simps [of c re t] using here_many [of c re t]
    by (cases t) (auto simp: cat_at_def atom_of_ok)
qed

lemma match_from_iff: "match_from re t \<longleftrightarrow> (\<exists>u v. t = u @ v \<and> here re v)"
  by (induction t) (auto simp: matchhere_here Cons_eq_append_conv)

text \<open>
  Property C13: the matcher implements regular expressions.  \<open>match\<close> (by the recursion and the two loops
  of the source) says yes exactly when the text contains a word of the language of the
  expression, at its beginning if the expression starts with \<^verbatim>\<open>^\<close>, reaching its end if
  the expression ends in \<^verbatim>\<open>$\<close>; a dot stands for any character and a star for any number
  of what precedes it.
\<close>

theorem match_language:
  "match re t \<longleftrightarrow>
     (let anchored = (re \<noteq> [] \<and> hd re = CHR ''^''); (its, to_end) = items (if anchored then tl re else re)
      in \<exists>u w v. t = u @ w @ v \<and> w \<in> lang its \<and> (anchored \<longrightarrow> u = []) \<and> (to_end \<longrightarrow> v = []))"
proof (cases "re \<noteq> [] \<and> hd re = CHR ''^''")
  case True
  then show ?thesis
    by (cases re) (auto simp: match_def cat_at_def matchhere_here here_def Let_def split: prod.splits)
next
  case False
  then have "cat_at re 0 \<noteq> CHR ''^''" by (cases re) (auto simp: cat_at_def)
  then show ?thesis using False
    by (auto simp: match_def match_from_iff here_def Let_def split: prod.splits)
qed

theorem match_language_witness: "''bxd'' \<in> lang [One (Lit CHR ''b''), Many Dot, One (Lit CHR ''d'')]"
proof -
  have "match ''^b.*d$'' ''bxd''" "items ''b.*d$'' = ([One (Lit CHR ''b''), Many Dot, One (Lit CHR ''d'')], True)"
    by code_simp+
  then show ?thesis using match_language [of "''^b.*d$''" "''bxd''"] by simp
qed

section \<open>Lines\<close>

abbreviation NLC :: char where "NLC \<equiv> CHR 0x0A"

text \<open>What is printed of a text: its complete lines that match.\<close>

definition matching :: "string \<Rightarrow> string \<Rightarrow> string" where
  "matching pattern d = concat (map (\<lambda>l. l @ [NLC]) (filter (match pattern) (butlast (split_on NLC d))))"

lemma matching_append:
  "matching pattern (x @ y) = matching pattern x @ matching pattern (last (split_on NLC x) @ y)"
  unfolding matching_def split_on_append [of NLC x y] by (simp add: butlast_append)

lemma matching_none: "NLC \<notin> set d \<Longrightarrow> matching pattern d = []"
  by (simp add: matching_def split_on_single)

lemma matching_line:
  "NLC \<notin> set l \<Longrightarrow> matching pattern (l @ NLC # d) = (if match pattern l then l @ [NLC] else []) @ matching pattern d"
  by (simp add: matching_def split_on_hit)

lemma first_line:
  assumes "NLC \<in> set x"
  obtains l r where "x = l @ NLC # r" "NLC \<notin> set l"
  using split_list_first [OF assms] by blast

lemma grep_lines_spec:
  assumes "stream os fd src out" "drop p buf = x @ NUL # z" "NUL \<notin> set x"
  shows "\<exists>buf' p' t. grep_lines os pattern buf p s = ((buf', p'), t) \<and> src t = src s \<and>
     out 1 t = out 1 s @ matching pattern x \<and> (\<forall>g. g \<noteq> 1 \<longrightarrow> out g t = out g s) \<and>
     drop p' buf' = last (split_on NLC x) @ NUL # z \<and> length buf' = length buf \<and>
     p' + length (last (split_on NLC x)) = p + length x"
  using assms(2,3)
proof (induction "length x" arbitrary: x p buf s rule: less_induct)
  case less
  have sc: "u_strchr (x @ NUL # z) NLC = u_strchr x NLC"
    by (induction x) auto
  show ?case
  proof (cases "NLC \<in> set x")
    case False
    then have "u_strchr x NLC = None" using less.prems(2) by (simp add: u_strchr_eq)
    then show ?thesis using less.prems False sc
      by (subst grep_lines.simps) (auto simp: matching_none split_on_single)
  next
    case True
    then obtain l r where x: "x = l @ NLC # r" "NLC \<notin> set l" by (rule first_line)
    have len: "p + length x < length buf" using arg_cong [OF less.prems(1), of length] by simp
    have k: "u_strchr (drop p buf) NLC = Some (length l)"
      unfolding less.prems(1) sc using less.prems(2) x by (simp add: u_strchr_eq takeWhile_sep)
    let ?q = "p + length l"
    have b: "buf = take p buf @ l @ NLC # r @ NUL # z"
      using append_take_drop_id [of p buf] less.prems(1) x(1) by simp
    have pl: "length (take p buf) = p" using len by simp
    define a where "a = take p buf"
    have b': "buf = a @ l @ NLC # r @ NUL # z" "length a = p" using b pl unfolding a_def by blast+
    have cut: "buf[?q := NUL] = a @ l @ NUL # r @ NUL # z" "buf[?q := NLC] = buf"
      using b' by (simp_all add: list_update_append)
    have line: "takeWhile (\<lambda>c. c \<noteq> NUL) (drop p (buf[?q := NUL])) = l"
      using less.prems(2) x(1) b'(2) unfolding cut(1) by (simp add: takeWhile_sep)
    have wr: "take (Suc (length l)) (drop p buf) = l @ [NLC]" using b' by simp
    define bf where "bf = (if match pattern l then buf else buf[?q := NUL])"
    have bf: "drop (Suc ?q) bf = r @ NUL # z" "length bf = length buf"
      using b' cut(1) by (simp_all add: bf_def)
    obtain u where u: "os_write os 1 (l @ [NLC]) s = (int (length (l @ [NLC])), u)" "src u = src s"
      "out 1 u = out 1 s @ l @ [NLC]" "\<And>g. g \<noteq> 1 \<Longrightarrow> out g u = out g s"
      by (rule stream_write [OF assms(1), where f = 1 and bs = "l @ [NLC]" and s = s]) blast
    define s' where "s' = (if match pattern l then u else s)"
    have step: "grep_lines os pattern buf p s = grep_lines os pattern bf (Suc ?q) s'"
      using u(1) by (subst grep_lines.simps) (simp add: k line cut(2) wr bf_def s'_def Let_def)
    have "length r < length x" "NUL \<notin> set r" using x less.prems(2) by auto
    from less.hyps [OF this(1) bf(1) this(2), of s'] obtain buf' p' t where
      t: "grep_lines os pattern bf (Suc ?q) s' = ((buf', p'), t)" "src t = src s'"
      "out 1 t = out 1 s' @ matching pattern r" "\<forall>g. g \<noteq> 1 \<longrightarrow> out g t = out g s'"
      "drop p' buf' = last (split_on NLC r) @ NUL # z" "length buf' = length bf"
      "p' + length (last (split_on NLC r)) = Suc ?q + length r" by blast
    have "last (split_on NLC x) = last (split_on NLC r)" using x by (simp add: split_on_hit)
    moreover have "matching pattern x = (if match pattern l then l @ [NLC] else []) @ matching pattern r"
      using x by (simp add: matching_line)
    ultimately show ?thesis using t step bf(2) u x(1) by (simp add: s'_def)
  qed
qed

lemma grep_loop_spec:
  assumes "stream os fd src out" "length buf = 1024" "NLC \<notin> set (take m buf)" "m \<le> 1023"
    and "NUL \<notin> set (take m buf)" "NUL \<notin> set (src s)"
    and "\<forall>l\<in>set (butlast (split_on NLC (take m buf @ src s))). length l < 1023"
  shows "\<exists>t. grep_loop os pattern fd buf m s = Some (Val (), t) \<and>
     out 1 t = out 1 s @ matching pattern (take m buf @ src s) \<and> (\<forall>g. g \<noteq> 1 \<longrightarrow> out g t = out g s)"
  using assms(2-)
proof (induction "length (src s)" arbitrary: buf m s rule: less_induct)
  case less
  obtain k s1 where r: "os_read os fd (1024 - m - 1) s = ((int k, take k (src s)), s1)" "k \<le> 1024 - m - 1"
    "k \<le> length (src s)" "0 < 1024 - m - 1 \<Longrightarrow> src s \<noteq> [] \<Longrightarrow> 0 < k" "src s1 = drop k (src s)" "\<And>f. out f s1 = out f s"
    using stream_read [OF assms(1), where n = "1024 - m - 1" and s = s] by metis
  let ?d = "take m buf @ src s"
  show ?case
  proof (cases "k = 0")
    case True
    have "NLC \<notin> set ?d"
    proof (cases "src s = []")
      case False
      then have "m = 1023" using r(4) True less.prems(3) by fastforce
      then have len: "length (take m buf) = 1023" using less.prems(1) by simp
      show ?thesis
      proof
        assume "NLC \<in> set ?d"
        then have "NLC \<in> set (src s)" using less.prems(2) by simp
        then obtain l r' where "src s = l @ NLC # r'" "NLC \<notin> set l" by (rule first_line)
        then have "split_on NLC ?d = (take m buf @ l) # split_on NLC r'"
          using split_on_hit [of NLC "take m buf @ l" r'] less.prems(2) by simp
        then have "length (take m buf @ l) < 1023" using less.prems(6) by simp
        then show False using len by simp
      qed
    qed (use less.prems(2) in simp)
    then show ?thesis using True r by (subst grep_loop.simps) (auto simp: matching_none)
  next
    case False
    let ?x = "take m buf @ take k (src s)"
    let ?m1 = "m + k"
    have m1: "?m1 \<le> 1023" using r(2) less.prems(3) by simp
    have lx: "length ?x = ?m1" using less.prems(1,3) r(3) by simp
    obtain c z where dz: "drop ?m1 buf = c # z" using m1 less.prems(1) by (cases "drop ?m1 buf") auto
    have b1: "(take m buf @ take k (src s) @ drop ?m1 buf)[?m1 := NUL] = ?x @ NUL # z"
      using dz lx by (simp add: list_update_append flip: append_assoc)
    have lz: "Suc (length z) = 1024 - ?m1" by (metis dz length_Cons length_drop less.prems(1))
    have lb: "length (?x @ NUL # z) = 1024" using lz lx m1 by simp
    have nx: "NUL \<notin> set ?x" using less.prems(4,5) set_take_subset [of k "src s"] by auto
    obtain buf2 p s2 where g: "grep_lines os pattern (?x @ NUL # z) 0 s1 = ((buf2, p), s2)" "src s2 = src s1"
      "out 1 s2 = out 1 s1 @ matching pattern ?x" "\<forall>g. g \<noteq> 1 \<longrightarrow> out g s2 = out g s1"
      "drop p buf2 = last (split_on NLC ?x) @ NUL # z" "length buf2 = 1024"
      "p + length (last (split_on NLC ?x)) = ?m1"
      using grep_lines_spec [OF assms(1), of 0 "?x @ NUL # z" ?x z pattern s1] nx lb lx by auto
    let ?l = "last (split_on NLC ?x)"
    let ?m2 = "?m1 - p"
    have m2: "?m2 = length ?l" using g(7) by simp
    let ?buf3 = "take ?m2 (drop p buf2) @ drop ?m2 buf2"
    have tk: "take ?m2 ?buf3 = ?l" using g(5) m2 by simp
    have split: "split_on NLC ?d = butlast (split_on NLC ?x) @ split_on NLC (?l @ src s2)"
      using split_on_append [of NLC ?x "drop k (src s)"] g(2) r(5) by simp
    have "\<exists>t. grep_loop os pattern fd ?buf3 ?m2 s2 = Some (Val (), t) \<and>
       out 1 t = out 1 s2 @ matching pattern (take ?m2 ?buf3 @ src s2) \<and> (\<forall>g. g \<noteq> 1 \<longrightarrow> out g t = out g s2)"
    proof (rule less.hyps)
      show "length (src s2) < length (src s)" using g(2) r(3,5) False by simp
      show "length ?buf3 = 1024" using g(5,6) m2 m1 by simp
      show "NLC \<notin> set (take ?m2 ?buf3)"
        unfolding tk using sep_notin_split [of ?l NLC ?x] by simp
      show "?m2 \<le> 1023" using m1 by simp
      show "NUL \<notin> set (take ?m2 ?buf3)" unfolding tk using nx set_last_split [of NLC ?x] by blast
      show "NUL \<notin> set (src s2)" using less.prems(5) g(2) r(5) set_drop_subset [of k "src s"] by auto
      show "\<forall>l\<in>set (butlast (split_on NLC (take ?m2 ?buf3 @ src s2))). length l < 1023"
        unfolding tk using less.prems(6) split by (simp add: butlast_append)
    qed
    then obtain t where t: "grep_loop os pattern fd ?buf3 ?m2 s2 = Some (Val (), t)"
      "out 1 t = out 1 s2 @ matching pattern (?l @ src s2)" "\<forall>g. g \<noteq> 1 \<longrightarrow> out g t = out g s2"
      unfolding tk by blast
    have "grep_loop os pattern fd buf m s = grep_loop os pattern fd ?buf3 ?m2 s2"
      using r(1) False g(1) b1 by (subst grep_loop.simps) (simp add: Let_def min_absorb2)
    moreover have "matching pattern ?d = matching pattern ?x @ matching pattern (?l @ src s2)"
      using matching_append [of pattern ?x "drop k (src s)"] g(2) r(5) by simp
    ultimately show ?thesis using t g(3,4) r(6) by simp
  qed
qed

text \<open>
  Property C14: \<open>grep\<close> terminates and prints the lines that match.  For a file without NULs whose lines fit into
  the buffer with their newline, however the reads cut it into pieces, it returns having written to its
  standard output exactly the complete lines that the expression matches, in order and
  with their newlines, and nothing else; a last line without a newline is not printed.
\<close>

theorem grep_prints_matching_lines:
  assumes "stream os fd src out" "length buf = 1024" "NUL \<notin> set (src s)"
    and "\<forall>l\<in>set (butlast (split_on NLC (src s))). length l < 1023"
  shows "\<exists>t. grep os buf pattern fd s = Some (Val (), t) \<and>
     out 1 t = out 1 s @ concat (map (\<lambda>l. l @ [NLC]) (filter (match pattern) (butlast (split_on NLC (src s))))) \<and>
     (\<forall>g. g \<noteq> 1 \<longrightarrow> out g t = out g s)"
  using grep_loop_spec [OF assms(1,2), of 0 s pattern] assms(3,4) by (simp add: grep_def matching_def)

theorem grep_prints_matching_lines_witness:
  "\<exists>t. grep demo_os (replicate 1024 NUL) ''b.*d$'' 0 (''abcd\<newline>bdx\<newline>bd\<newline>'', \<lambda>_. []) = Some (Val (), t) \<and>
     snd t 1 = ''abcd\<newline>bd\<newline>''"
proof -
  have "filter (match ''b.*d$'') (butlast (split_on NLC ''abcd\<newline>bdx\<newline>bd\<newline>'')) = [''abcd'', ''bd'']"
    by code_simp
  moreover have "NUL \<notin> set ''abcd\<newline>bdx\<newline>bd\<newline>''"
    "\<forall>l\<in>set (butlast (split_on NLC ''abcd\<newline>bdx\<newline>bd\<newline>'')). length l < 1023" by code_simp+
  ultimately show ?thesis
    using grep_prints_matching_lines [OF demo_stream, where buf = "replicate 1024 NUL" and
        s = "(''abcd\<newline>bdx\<newline>bd\<newline>'', \<lambda>_. [])" and fd = 0 and pattern = "''b.*d$''"]
    by auto
qed

end
