(* ===== verification/Shell.thy ===== *)
theory Shell
  imports Userland
begin

text \<open>
  The parser of \<^verbatim>\<open>user/sh.c\<close>.  The pointer \<^verbatim>\<open>*ps\<close> into the line is the rest of the line
  behind it; a token is the pair of the offsets of its ends, as the source keeps pointers into the
  line and writes a NUL behind each token when it is done (\<open>nulterminate\<close>).  The commands of
  the source are allocated with \<^verbatim>\<open>malloc\<close> and are values here; \<^verbatim>\<open>panic\<close> of the shell is an
  outcome of the parser.
\<close>

section \<open>Commands and tokens\<close>

type_synonym token = "nat \<times> nat"

datatype cmd =
    EXEC "token list"
  | REDIR cmd token int int
  | PIPE cmd cmd
  | LIST cmd cmd
  | BACK cmd

definition MAXARGS :: nat where "MAXARGS = 10"

definition whitespace :: string where
  "whitespace = [CHR '' '', CHR 0x09, CHR 0x0D, CHR 0x0A, CHR 0x0B]"

definition symbols :: string where "symbols = ''<|>&;()''"

definition white :: "char \<Rightarrow> bool" where
  "white c \<longleftrightarrow> u_strchr whitespace c \<noteq> None"

definition wordc :: "char \<Rightarrow> bool" where
  "wordc c \<longleftrightarrow> u_strchr whitespace c = None \<and> u_strchr symbols c = None"

text \<open>The switch of \<^verbatim>\<open>gettoken\<close>: the token in front of a line that starts with no space, and the rest behind it.\<close>

definition scan :: "string \<Rightarrow> char \<times> string" where
  "scan q =
     (case q of
        [] \<Rightarrow> (NUL, [])
      | c # s \<Rightarrow>
          if c \<in> {CHR ''|'', CHR ''('', CHR '')'', CHR '';'', CHR ''&'', CHR ''<''} then (c, s)
          else if c = CHR ''>''
          then (if s \<noteq> [] \<and> hd s = CHR ''>'' then (CHR ''+'', tl s) else (c, s))
          else (CHR ''a'', dropWhile wordc q))"

text \<open>The token, the rests of the line at its start, at its end and behind the space after it.\<close>

definition gettoken :: "string \<Rightarrow> char \<times> string \<times> string \<times> string" where
  "gettoken ps =
     (let q = dropWhile white ps; (tok, eq) = scan q in (tok, q, eq, dropWhile white eq))"

text \<open>\<^verbatim>\<open>peek\<close> also moves the pointer past the space.\<close>

definition peek :: "string \<Rightarrow> string \<Rightarrow> bool \<times> string" where
  "peek ps toks =
     (let s = dropWhile white ps in (s \<noteq> [] \<and> u_strchr toks (hd s) \<noteq> None, s))"

definition after_token :: "string \<Rightarrow> string" where
  "after_token ps = (case gettoken ps of (tok, q, eq, s) \<Rightarrow> s)"

lemma peek_simps: "peek ps toks = (b, s) \<Longrightarrow> s = dropWhile white ps"
  by (simp add: peek_def Let_def)

lemma length_dropWhile_white [simp]: "length (dropWhile P s) \<le> length s"
  by (rule length_dropWhile_le)

lemma white_symbols: "u_strchr symbols c \<noteq> None \<Longrightarrow> \<not> white c"
  by (auto simp: white_def symbols_def whitespace_def split: if_splits)

lemma symbols_iff: "u_strchr symbols c \<noteq> None \<longleftrightarrow> c \<in> set symbols"
  by (auto simp: symbols_def split: if_splits)

lemma white_iff: "white c \<longleftrightarrow> c \<in> set whitespace"
  by (auto simp: white_def whitespace_def split: if_splits)

lemma wordc_iff: "wordc c \<longleftrightarrow> c \<notin> set whitespace \<and> c \<notin> set symbols"
  by (auto simp: wordc_def whitespace_def symbols_def split: if_splits)

lemma scan_length: "scan (c # q) = (tok, eq) \<Longrightarrow> \<not> white c \<Longrightarrow> length eq \<le> length q"
  by (auto simp: scan_def wordc_iff white_iff symbols_def split: if_splits)

lemma gettoken_eq:
  "gettoken ps = (tok, q, eq, s) \<longleftrightarrow> q = dropWhile white ps \<and> scan q = (tok, eq) \<and> s = dropWhile white eq"
  by (auto simp: gettoken_def Let_def split: prod.splits)

lemma hd_not_white: "dropWhile white ps = c # s \<Longrightarrow> \<not> white c"
  by (metis hd_dropWhile list.distinct(1) list.sel(1))

lemma gettoken_length:
  assumes "gettoken ps = (tok, q, eq, s)"
  shows "length q \<le> length ps" "length eq \<le> length q" "length s \<le> length eq" "tok \<noteq> NUL \<Longrightarrow> length eq < length q"
    "tok \<noteq> NUL \<Longrightarrow> length s < length ps" "length s \<le> length ps"
proof -
  have d: "q = dropWhile white ps" "scan q = (tok, eq)" "s = dropWhile white eq"
    using assms unfolding gettoken_eq by blast+
  show q: "length q \<le> length ps" and s: "length s \<le> length eq" using d(1,3) by simp_all
  have "length eq \<le> length q \<and> (tok \<noteq> NUL \<longrightarrow> length eq < length q)"
  proof (cases q)
    case Nil
    then show ?thesis using d(2) by (simp add: scan_def)
  next
    case (Cons c q')
    then show ?thesis using scan_length [of c q' tok eq] d(2) hd_not_white [of ps c q'] d(1) by auto
  qed
  then show "length eq \<le> length q" "tok \<noteq> NUL \<Longrightarrow> length eq < length q"
    "tok \<noteq> NUL \<Longrightarrow> length s < length ps" "length s \<le> length ps" using q s by auto
qed

lemma peek_length: "peek ps toks = (b, s) \<Longrightarrow> length s \<le> length ps"
  by (auto simp: peek_def Let_def)

section \<open>The parser\<close>

datatype 'a pres = POk 'a string | PPanic string | POut

lemma scan_tok: "q \<noteq> [] \<Longrightarrow> fst (scan q) \<noteq> NUL"
  by (cases q) (auto simp: scan_def)

lemma after_token_less:
  assumes "peek ps toks = (True, s)"
  shows "length (after_token s) < length ps"
proof -
  have s: "s \<noteq> []" "dropWhile white s = s" "length s \<le> length ps"
    using assms peek_length [OF assms] by (auto simp: peek_def Let_def)
  obtain tok q eq s' where g: "gettoken s = (tok, q, eq, s')" by (metis prod_cases4)
  then have "tok \<noteq> NUL" using s scan_tok [of s] by (auto simp: gettoken_eq)
  then show ?thesis using gettoken_length(5) [OF g] s(3) by (simp add: after_token_def g)
qed

lemma redir_shorter:
  assumes "(b, s) = peek ps toks" "(tok, a, b', s1) = gettoken s" "(CHR ''a'', q, eq, s2) = gettoken s1"
  shows "length s2 < length ps"
  using peek_length [OF assms(1) [symmetric]] gettoken_length(6) [OF assms(2) [symmetric]]
    gettoken_length(5) [OF assms(3) [symmetric]] by simp

text \<open>The file, mode and descriptor by the token: \<^verbatim>\<open>O_RDONLY\<close> is 0, \<^verbatim>\<open>O_WRONLY\<close> 1, \<^verbatim>\<open>O_CREATE\<close> 0x200, \<^verbatim>\<open>O_TRUNC\<close> 0x400.\<close>

definition redir_args :: "char \<Rightarrow> token \<Rightarrow> token \<times> int \<times> int" where
  "redir_args tok f =
     (if tok = CHR ''<'' then (f, 0, 0)
      else if tok = CHR ''>'' then (f, 0x001 + 0x200 + 0x400, 1)
      else (f, 0x001 + 0x200, 1))"

text \<open>The redirections in front of the line, as the arguments of \<^verbatim>\<open>redircmd\<close>; \<open>n\<close> is the length of the line.\<close>

function parseredirs :: "nat \<Rightarrow> string \<Rightarrow> (token \<times> int \<times> int) list \<Rightarrow> (token \<times> int \<times> int) list pres" where
  "parseredirs n ps rs =
     (case peek ps ''<>'' of (found, s) \<Rightarrow>
      if \<not> found then POk rs s
      else case gettoken s of (tok, _, _, s1) \<Rightarrow>
           (case gettoken s1 of (tok2, q, eq, s2) \<Rightarrow>
            if tok2 \<noteq> CHR ''a'' then PPanic ''missing file for redirection''
            else parseredirs n s2 (rs @ [redir_args tok (n - length q, n - length eq)])))"
  by pat_completeness auto
termination
  by (relation "measure (\<lambda>(n, ps, rs). length ps)") (auto dest: redir_shorter)

declare parseredirs.simps [simp del]

definition redirect :: "cmd \<Rightarrow> (token \<times> int \<times> int) list \<Rightarrow> cmd" where
  "redirect c rs = foldl (\<lambda>c (f, mode, fd). REDIR c f mode fd) c rs"

lemma parseredirs_cases:
  obtains (stop) s where "\<And>rs. parseredirs n ps rs = POk rs s" "s = dropWhile white ps" "\<not> fst (peek ps ''<>'')"
  | (bad) "\<And>rs. parseredirs n ps rs = PPanic ''missing file for redirection''"
  | (step) tok q eq s where "\<And>rs. parseredirs n ps rs = parseredirs n s (rs @ [redir_args tok (n - length q, n - length eq)])"
    "length s < length ps" "\<exists>s1. gettoken s1 = (CHR ''a'', q, eq, s) \<and> length s1 \<le> length ps"
proof -
  obtain found s0 where p: "peek ps ''<>'' = (found, s0)" by fastforce
  obtain tok a b s1 where g: "gettoken s0 = (tok, a, b, s1)" by (metis prod_cases4)
  obtain tok2 q eq s2 where g2: "gettoken s1 = (tok2, q, eq, s2)" by (metis prod_cases4)
  consider "\<not> found" | "found" "tok2 \<noteq> CHR ''a''" | "found" "tok2 = CHR ''a''" by blast
  then show thesis
  proof cases
    case 1
    then show thesis using p peek_simps [OF p] by (intro stop [of s0]) (simp_all add: parseredirs.simps)
  next
    case 2
    then show thesis using p g g2 by (intro bad) (simp add: parseredirs.simps)
  next
    case 3
    then have "length s2 < length ps" using redir_shorter [of found s0 ps "''<>''" tok a b s1 q eq s2] p g g2 by simp
    moreover have "length s1 \<le> length ps" using gettoken_length(6) [OF g] peek_length [OF p] by simp
    ultimately show thesis using p g g2 3
      by (intro step [of s2 tok q eq]) (auto simp: parseredirs.simps [of n ps])
  qed
qed

lemma parseredirs_length: "parseredirs n ps rs = POk rs' s \<Longrightarrow> length s \<le> length ps"
proof (induction "length ps" arbitrary: ps rs rule: less_induct)
  case less
  show ?case
  proof (cases n ps rule: parseredirs_cases)
    case (stop s')
    then show ?thesis using less.prems length_dropWhile_le [of white ps] by auto
  next
    case bad
    then show ?thesis using less.prems by simp
  next
    case (step tok q eq s')
    then show ?thesis using less.hyps [OF step(2)] less.prems by fastforce
  qed
qed

text \<open>The loop of \<^verbatim>\<open>parseexec\<close> over the arguments; the redirections it meets go around the command in order.\<close>

function parseargs :: "nat \<Rightarrow> string \<Rightarrow> token list \<Rightarrow> (token \<times> int \<times> int) list \<Rightarrow>
    (token list \<times> (token \<times> int \<times> int) list) pres" where
  "parseargs n ps argv rs =
     (case peek ps ''|)&;'' of (found, s) \<Rightarrow>
      if found then POk (argv, rs) s
      else case gettoken s of (tok, q, eq, s1) \<Rightarrow>
           if tok = NUL then POk (argv, rs) s1
           else if tok \<noteq> CHR ''a'' then PPanic ''syntax''
           else let argv = argv @ [(n - length q, n - length eq)] in
                if length argv \<ge> MAXARGS then PPanic ''too many args''
                else case parseredirs n s1 rs of
                       POk rs' s2 \<Rightarrow> parseargs n s2 argv rs'
                     | PPanic m \<Rightarrow> PPanic m
                     | POut \<Rightarrow> POut)"
  by pat_completeness auto
termination
proof (relation "measure (\<lambda>(n, ps, argv, rs). length ps)"; clarsimp)
  fix n :: nat and ps y q eq s1 s2 :: string and rs rs' :: "(token \<times> int \<times> int) list"
  assume "(False, y) = peek ps ''|)&;''" "(CHR ''a'', q, eq, s1) = gettoken y" "parseredirs n s1 rs = POk rs' s2"
  then show "length s2 < length ps"
    using peek_length [of ps "''|)&;''" False y] gettoken_length(5) [of y "CHR ''a''" q eq s1] parseredirs_length [of n s1 rs rs' s2]
    by simp
qed

declare parseargs.simps [simp del]

function backs :: "cmd \<Rightarrow> string \<Rightarrow> cmd \<times> string" where
  "backs c ps =
     (case peek ps ''&'' of (found, s) \<Rightarrow>
      if found then backs (BACK c) (after_token s) else (c, s))"
  by pat_completeness auto
termination
  by (relation "measure (\<lambda>(c, ps). length ps)") (auto dest: after_token_less [OF sym])

declare backs.simps [simp del]

text \<open>
  The four functions that call each other; \<open>fuel\<close> bounds the depth of the calls, and \<open>parsecmd\<close> gives them
  enough of it.
\<close>

fun parseline :: "nat \<Rightarrow> nat \<Rightarrow> string \<Rightarrow> cmd pres"
  and parsepipe :: "nat \<Rightarrow> nat \<Rightarrow> string \<Rightarrow> cmd pres"
  and parseexec :: "nat \<Rightarrow> nat \<Rightarrow> string \<Rightarrow> cmd pres"
  and parseblock :: "nat \<Rightarrow> nat \<Rightarrow> string \<Rightarrow> cmd pres" where
  "parseline 0 n ps = POut"
| "parseline (Suc fuel) n ps =
     (case parsepipe fuel n ps of
        POk c s \<Rightarrow>
          (case backs c s of (c, s) \<Rightarrow>
           (case peek s '';'' of (found, s) \<Rightarrow>
            if found
            then (case parseline fuel n (after_token s) of
                    POk d s \<Rightarrow> POk (LIST c d) s | r \<Rightarrow> r)
            else POk c s))
      | r \<Rightarrow> r)"
| "parsepipe 0 n ps = POut"
| "parsepipe (Suc fuel) n ps =
     (case parseexec fuel n ps of
        POk c s \<Rightarrow>
          (case peek s ''|'' of (found, s) \<Rightarrow>
           if found
           then (case parsepipe fuel n (after_token s) of
                   POk d s \<Rightarrow> POk (PIPE c d) s | r \<Rightarrow> r)
           else POk c s)
      | r \<Rightarrow> r)"
| "parseexec 0 n ps = POut"
| "parseexec (Suc fuel) n ps =
     (case peek ps ''('' of (found, s) \<Rightarrow>
      if found then parseblock fuel n s
      else case parseredirs n s [] of
             POk rs s \<Rightarrow>
               (case parseargs n s [] rs of
                  POk (argv, rs) s \<Rightarrow> POk (redirect (EXEC argv) rs) s
                | PPanic m \<Rightarrow> PPanic m
                | POut \<Rightarrow> POut)
           | PPanic m \<Rightarrow> PPanic m
           | POut \<Rightarrow> POut)"
| "parseblock 0 n ps = POut"
| "parseblock (Suc fuel) n ps =
     (case peek ps ''('' of (found, s) \<Rightarrow>
      if \<not> found then PPanic ''parseblock''
      else case parseline fuel n (after_token s) of
             POk c s \<Rightarrow>
               (case peek s '')'' of (found, s) \<Rightarrow>
                if \<not> found then PPanic ''syntax - missing )''
                else case parseredirs n (after_token s) [] of
                       POk rs s \<Rightarrow> POk (redirect c rs) s
                     | PPanic m \<Rightarrow> PPanic m
                     | POut \<Rightarrow> POut)
           | r \<Rightarrow> r)"

text \<open>\<^verbatim>\<open>nulterminate\<close> on the array that holds the line and its final NUL.\<close>

primrec nulterminate :: "cmd \<Rightarrow> string \<Rightarrow> string" where
  "nulterminate (EXEC argv) buf = foldl (\<lambda>b (q, eq). b[eq := NUL]) buf argv"
| "nulterminate (REDIR c f mode fd) buf = (nulterminate c buf)[snd f := NUL]"
| "nulterminate (PIPE c d) buf = nulterminate d (nulterminate c buf)"
| "nulterminate (LIST c d) buf = nulterminate d (nulterminate c buf)"
| "nulterminate (BACK c) buf = nulterminate c buf"

datatype parsed = Parsed cmd string | Syntax string | Fuel

definition parsecmd :: "string \<Rightarrow> parsed" where
  "parsecmd s =
     (let es = length s in
      case parseline (4 * es + 4) es s of
        POk c s' \<Rightarrow>
          (case peek s' [] of (_, s') \<Rightarrow>
           if s' \<noteq> [] then Syntax ''syntax''
           else Parsed c (nulterminate c (s @ [NUL])))
      | PPanic m \<Rightarrow> Syntax m
      | POut \<Rightarrow> Fuel)"

section \<open>Termination\<close>

lemma parseredirs_total: "parseredirs n ps rs \<noteq> POut"
proof (induction "length ps" arbitrary: ps rs rule: less_induct)
  case less
  show ?case by (cases n ps rule: parseredirs_cases) (use less in auto)
qed

lemma parseargs_cases:
  obtains (stop) s where "parseargs n ps argv rs = POk (argv, rs) s" "length s \<le> length ps"
    "fst (peek ps ''|)&;'') \<or> dropWhile white ps = []"
  | (bad) m where "parseargs n ps argv rs = PPanic m"
  | (step) q eq s1 rs' s2 where
    "parseargs n ps argv rs = parseargs n s2 (argv @ [(n - length q, n - length eq)]) rs'"
    "length argv + 1 < MAXARGS" "gettoken ps = (CHR ''a'', q, eq, s1)" "parseredirs n s1 rs = POk rs' s2"
    "length s2 < length ps"
proof -
  obtain found s where p: "peek ps ''|)&;'' = (found, s)" by fastforce
  have s: "s = dropWhile white ps" "length s \<le> length ps" using peek_simps [OF p] peek_length [OF p] by auto
  obtain tok q eq s1 where g: "gettoken s = (tok, q, eq, s1)" by (metis prod_cases4)
  have g': "gettoken ps = (tok, q, eq, s1)" using g s(1) by (auto simp: gettoken_eq)
  note u = parseargs.simps [of n ps argv rs]
  consider "found \<or> tok = NUL" | "\<not> found" "tok \<noteq> NUL" "tok \<noteq> CHR ''a'' \<or> MAXARGS \<le> Suc (length argv)"
    | "\<not> found" "tok = CHR ''a''" "Suc (length argv) < MAXARGS" by force
  then show thesis
  proof cases
    case 1
    have "dropWhile white s = s" by (simp add: s(1))
    then have "s = []" if "tok = NUL" using that scan_tok [of s] g unfolding gettoken_eq by (metis fst_conv)
    then have "dropWhile white ps = []" if "tok = NUL" using that s(1) by simp
    moreover have "length s1 \<le> length ps" using gettoken_length(6) [OF g] s(2) by linarith
    ultimately show thesis using 1 p g s
      by (intro stop [of "if found then s else s1"]) (auto simp: u)
  next
    case 2
    then have "parseargs n ps argv rs = PPanic (if tok \<noteq> CHR ''a'' then ''syntax'' else ''too many args'')"
      using p g by (simp add: u Let_def)
    then show thesis by (rule bad)
  next
    case 3
    show thesis
    proof (cases "parseredirs n s1 rs")
      case (POk rs' s2)
      have "length s1 < length ps" using gettoken_length(5) [OF g] 3 s(2) by simp
      then have "length s2 < length ps" using parseredirs_length [OF POk] by simp
      then show thesis using 3 p g g' POk by (intro step [of s2 q eq rs' s1]) (simp_all add: u Let_def)
    next
      case (PPanic m)
      then show thesis using 3 p g by (intro bad [of m]) (simp add: u Let_def)
    qed (use parseredirs_total in blast)
  qed
qed

lemma parseargs_total: "parseargs n ps argv rs \<noteq> POut"
proof (induction "length ps" arbitrary: ps argv rs rule: less_induct)
  case less
  show ?case by (rule parseargs_cases [of n ps argv rs]) (use less in auto)
qed

lemma parseargs_length: "parseargs n ps argv rs = POk r s \<Longrightarrow> length s \<le> length ps"
proof (induction "length ps" arbitrary: ps argv rs rule: less_induct)
  case less
  show ?case by (rule parseargs_cases [of n ps argv rs]) (use less in fastforce)+
qed

lemma backs_length: "backs c ps = (d, s) \<Longrightarrow> length s \<le> length ps"
proof (induction "length ps" arbitrary: ps c rule: less_induct)
  case less
  obtain found s0 where p: "peek ps ''&'' = (found, s0)" by fastforce
  show ?case
  proof (cases found)
    case True
    then have l: "length (after_token s0) < length ps" using after_token_less p by simp
    then show ?thesis using less.hyps [OF l] less.prems True p by (subst (asm) backs.simps) fastforce
  next
    case False
    then show ?thesis using less.prems p peek_length [OF p] by (subst (asm) backs.simps) simp
  qed
qed

text \<open>The runs of the parser that give a command, as derivations.\<close>

inductive lineD :: "nat \<Rightarrow> string \<Rightarrow> cmd \<Rightarrow> string \<Rightarrow> bool"
  and pipeD :: "nat \<Rightarrow> string \<Rightarrow> cmd \<Rightarrow> string \<Rightarrow> bool"
  and execD :: "nat \<Rightarrow> string \<Rightarrow> cmd \<Rightarrow> string \<Rightarrow> bool"
  and blockD :: "nat \<Rightarrow> string \<Rightarrow> cmd \<Rightarrow> string \<Rightarrow> bool" for n where
  line_last: "pipeD n ps c s1 \<Longrightarrow> backs c s1 = (d, s2) \<Longrightarrow> peek s2 '';'' = (False, s) \<Longrightarrow> lineD n ps d s"
| line_list: "pipeD n ps c s1 \<Longrightarrow> backs c s1 = (d, s2) \<Longrightarrow> peek s2 '';'' = (True, s3) \<Longrightarrow>
     lineD n (after_token s3) e s \<Longrightarrow> lineD n ps (LIST d e) s"
| pipe_last: "execD n ps c s1 \<Longrightarrow> peek s1 ''|'' = (False, s) \<Longrightarrow> pipeD n ps c s"
| pipe_pipe: "execD n ps c s1 \<Longrightarrow> peek s1 ''|'' = (True, s2) \<Longrightarrow> pipeD n (after_token s2) d s \<Longrightarrow>
     pipeD n ps (PIPE c d) s"
| exec_block: "peek ps ''('' = (True, s1) \<Longrightarrow> blockD n s1 c s \<Longrightarrow> execD n ps c s"
| exec_args: "peek ps ''('' = (False, s1) \<Longrightarrow> parseredirs n s1 [] = POk rs s2 \<Longrightarrow>
     parseargs n s2 [] rs = POk (argv, rs') s \<Longrightarrow> execD n ps (redirect (EXEC argv) rs') s"
| block: "peek ps ''('' = (True, s1) \<Longrightarrow> lineD n (after_token s1) c s2 \<Longrightarrow> peek s2 '')'' = (True, s3) \<Longrightarrow>
     parseredirs n (after_token s3) [] = POk rs s \<Longrightarrow> blockD n ps (redirect c rs) s"

lemma parser_derives:
  "(parseline fuel n ps = POk c s \<longrightarrow> lineD n ps c s) \<and> (parsepipe fuel n ps = POk c s \<longrightarrow> pipeD n ps c s) \<and>
   (parseexec fuel n ps = POk c s \<longrightarrow> execD n ps c s) \<and> (parseblock fuel n ps = POk c s \<longrightarrow> blockD n ps c s)"
proof (induction fuel arbitrary: ps c s)
  case (Suc fuel)
  then have IH: "\<And>ps c s. parseline fuel n ps = POk c s \<Longrightarrow> lineD n ps c s"
    "\<And>ps c s. parsepipe fuel n ps = POk c s \<Longrightarrow> pipeD n ps c s"
    "\<And>ps c s. parseexec fuel n ps = POk c s \<Longrightarrow> execD n ps c s"
    "\<And>ps c s. parseblock fuel n ps = POk c s \<Longrightarrow> blockD n ps c s" by blast+
  show ?case
    by (intro conjI impI)
      (auto split: pres.splits prod.splits if_splits intro: lineD_pipeD_execD_blockD.intros IH)
qed simp

lemma derives_length:
  "lineD n ps c s \<Longrightarrow> length s \<le> length ps" "pipeD n ps c s \<Longrightarrow> length s \<le> length ps"
  "execD n ps c s \<Longrightarrow> length s \<le> length ps" "blockD n ps c s \<Longrightarrow> length s \<le> length ps"
  by (induction rule: lineD_pipeD_execD_blockD.inducts)
    (force dest: backs_length peek_length after_token_less parseredirs_length parseargs_length)+

lemma parser_length:
  "parseline fuel n ps = POk c s \<Longrightarrow> length s \<le> length ps" "parsepipe fuel n ps = POk c s \<Longrightarrow> length s \<le> length ps"
  "parseexec fuel n ps = POk c s \<Longrightarrow> length s \<le> length ps"
  using parser_derives [of fuel n ps c s] derives_length by blast+

lemma parser_total:
  "(4 * length ps + 4 \<le> fuel \<longrightarrow> parseline fuel n ps \<noteq> POut) \<and> (4 * length ps + 3 \<le> fuel \<longrightarrow> parsepipe fuel n ps \<noteq> POut) \<and>
   (4 * length ps + 2 \<le> fuel \<longrightarrow> parseexec fuel n ps \<noteq> POut) \<and> (4 * length ps + 1 \<le> fuel \<longrightarrow> parseblock fuel n ps \<noteq> POut)"
proof (induction fuel arbitrary: ps)
  case (Suc fuel)
  then have IH: "\<And>ps. 4 * length ps + 4 \<le> fuel \<Longrightarrow> parseline fuel n ps \<noteq> POut"
    "\<And>ps. 4 * length ps + 3 \<le> fuel \<Longrightarrow> parsepipe fuel n ps \<noteq> POut"
    "\<And>ps. 4 * length ps + 2 \<le> fuel \<Longrightarrow> parseexec fuel n ps \<noteq> POut"
    "\<And>ps. 4 * length ps + 1 \<le> fuel \<Longrightarrow> parseblock fuel n ps \<noteq> POut" by blast+
  have "parseline (Suc fuel) n ps \<noteq> POut" if f: "4 * length ps + 4 \<le> Suc fuel"
  proof (cases "parsepipe fuel n ps")
    case (POk c s)
    obtain d s2 found s3 where b: "backs c s = (d, s2)" "peek s2 '';'' = (found, s3)" by fastforce
    have "parseline fuel n (after_token s3) \<noteq> POut" if found
      using that b after_token_less [of s2 "'';''" s3] backs_length [OF b(1)] parser_length(2) [OF POk] f by (intro IH) simp
    then show ?thesis using POk b by (auto split: pres.splits)
  qed (use IH(2) f in simp_all)
  moreover have "parsepipe (Suc fuel) n ps \<noteq> POut" if f: "4 * length ps + 3 \<le> Suc fuel"
  proof (cases "parseexec fuel n ps")
    case (POk c s)
    obtain found s3 where b: "peek s ''|'' = (found, s3)" by fastforce
    have "parsepipe fuel n (after_token s3) \<noteq> POut" if found
      using that b after_token_less [of s "''|''" s3] parser_length(3) [OF POk] f by (intro IH) simp
    then show ?thesis using POk b by (auto split: pres.splits)
  qed (use IH(3) f in simp_all)
  moreover have "parseexec (Suc fuel) n ps \<noteq> POut" if f: "4 * length ps + 2 \<le> Suc fuel"
  proof -
    obtain found s where p: "peek ps ''('' = (found, s)" by fastforce
    have "parseblock fuel n s \<noteq> POut" using peek_length [OF p] f by (intro IH) simp
    then show ?thesis using p parseredirs_total parseargs_total by (auto split: pres.splits)
  qed
  moreover have "parseblock (Suc fuel) n ps \<noteq> POut" if f: "4 * length ps + 1 \<le> Suc fuel"
  proof -
    obtain found s where p: "peek ps ''('' = (found, s)" by fastforce
    have "parseline fuel n (after_token s) \<noteq> POut" if found
      using that after_token_less [of ps "''(''" s] p f by (intro IH) simp
    then show ?thesis using p parseredirs_total by (auto split: pres.splits prod.splits)
  qed
  ultimately show ?case by blast
qed simp

text \<open>
  Property C17: the shell's parser terminates on every line: the recursion of its functions ends within four
  calls per character, and \<open>parsecmd\<close> gives a command or reports a syntax error.
\<close>

theorem parsecmd_terminates: "parsecmd s \<noteq> Fuel"
  using parser_total [of s "4 * length s + 4" "length s"]
  by (auto simp: parsecmd_def Let_def split: pres.splits prod.splits if_splits)

section \<open>Well-formed commands\<close>

text \<open>
  A token of the line: word characters, up to a character that is none or to the end.
\<close>

definition token_ok :: "string \<Rightarrow> token \<Rightarrow> bool" where
  "token_ok l t \<longleftrightarrow> (case t of (q, e) \<Rightarrow> q < e \<and> e \<le> length l \<and> (\<forall>i. q \<le> i \<and> i < e \<longrightarrow> wordc (l ! i)) \<and>
     (e < length l \<longrightarrow> \<not> wordc (l ! e)))"

primrec cmd_ok :: "string \<Rightarrow> cmd \<Rightarrow> bool" where
  "cmd_ok l (EXEC argv) \<longleftrightarrow> length argv < MAXARGS \<and> (\<forall>t\<in>set argv. token_ok l t)"
| "cmd_ok l (REDIR c f mode fd) \<longleftrightarrow> cmd_ok l c \<and> token_ok l f \<and> (fd, mode) \<in> {(0, 0), (1, 0x601), (1, 0x201)}"
| "cmd_ok l (PIPE c d) \<longleftrightarrow> cmd_ok l c \<and> cmd_ok l d"
| "cmd_ok l (LIST c d) \<longleftrightarrow> cmd_ok l c \<and> cmd_ok l d"
| "cmd_ok l (BACK c) \<longleftrightarrow> cmd_ok l c"

text \<open>The rest of the line \<open>l\<close> at some offset.\<close>

definition rest_of :: "string \<Rightarrow> string \<Rightarrow> bool" where
  "rest_of l s \<longleftrightarrow> s = drop (length l - length s) l"

lemma rest_of_iff: "rest_of l s \<longleftrightarrow> (\<exists>a. l = a @ s)"
proof
  assume "rest_of l s"
  then show "\<exists>a. l = a @ s" by (metis append_take_drop_id rest_of_def)
qed (auto simp: rest_of_def)

lemma rest_dropWhile: "rest_of l s \<Longrightarrow> rest_of l (dropWhile P s)"
  unfolding rest_of_iff by (metis append.assoc takeWhile_dropWhile_id)

lemma rest_tl: "rest_of l (c # s) \<Longrightarrow> rest_of l s"
  unfolding rest_of_iff by (metis append.assoc append_Cons append_Nil)

lemma scan_rest: "scan q = (tok, eq) \<Longrightarrow> rest_of l q \<Longrightarrow> rest_of l eq"
proof -
  assume *: "scan q = (tok, eq)" "rest_of l q"
  have "eq = q \<or> eq = dropWhile wordc q \<or> (\<exists>c. q = c # eq) \<or> (\<exists>c d. q = c # d # eq)"
    using *(1) by (auto simp: scan_def neq_Nil_conv split: list.splits if_splits)
  then show "rest_of l eq" using *(2) rest_dropWhile rest_tl by metis
qed

lemma gettoken_rest: "gettoken ps = (tok, q, eq, s) \<Longrightarrow> rest_of l ps \<Longrightarrow> rest_of l q \<and> rest_of l eq \<and> rest_of l s"
  by (metis gettoken_eq rest_dropWhile scan_rest)

lemma after_token_rest: "rest_of l ps \<Longrightarrow> rest_of l (after_token ps)"
  using gettoken_rest by (auto simp: after_token_def split: prod.splits)

lemma peek_rest: "peek ps toks = (b, s) \<Longrightarrow> rest_of l ps \<Longrightarrow> rest_of l s"
  using rest_dropWhile by (auto simp: peek_def Let_def)

lemma gettoken_word:
  assumes "gettoken ps = (CHR ''a'', q, eq, s)" "rest_of l ps"
  shows "token_ok l (length l - length q, length l - length eq)"
proof -
  have g: "q = dropWhile white ps" "scan q = (CHR ''a'', eq)" using assms(1) unfolding gettoken_eq by blast+
  obtain c r where q: "q = c # r" using g(2) by (cases q) (auto simp: scan_def)
  have c: "\<not> white c" using hd_not_white q g(1) by metis
  then have w: "wordc c" "eq = dropWhile wordc q"
    using g(2) q by (auto simp: scan_def wordc_iff white_iff symbols_def split: if_splits)
  obtain a where l: "l = a @ q" using gettoken_rest [OF assms] rest_of_iff by blast
  define w where "w = takeWhile wordc q"
  have q2: "q = w @ eq" "w \<noteq> []" "\<forall>x\<in>set w. wordc x" using w q by (auto simp: w_def dest: set_takeWhileD)
  have e: "\<not> wordc (eq ! 0)" if "eq \<noteq> []" using w(2) that hd_dropWhile [of wordc q] by (simp add: hd_conv_nth)
  have p: "length l - length q = length a" "length l - length eq = length a + length w" using l q2(1) by auto
  have "wordc (l ! i)" if "length a \<le> i" "i < length a + length w" for i
  proof -
    have "i - length a < length w" using that by linarith
    then show ?thesis using l q2(1,3) that by (simp add: nth_append)
  qed
  moreover have "\<not> wordc (l ! (length a + length w))" if "length a + length w < length l"
    using e that l q2(1) by (cases eq) (simp_all add: nth_append)
  ultimately show ?thesis unfolding token_ok_def p using l q2(1,2) by simp
qed

lemma redirect_ok:
  "cmd_ok l c \<Longrightarrow> \<forall>(f, mode, fd)\<in>set rs. token_ok l f \<and> (fd, mode) \<in> {(0, 0), (1, 0x601), (1, 0x201)} \<Longrightarrow>
     cmd_ok l (redirect c rs)"
  by (induction rs arbitrary: c) (auto simp: redirect_def)

definition redirs_ok :: "string \<Rightarrow> (token \<times> int \<times> int) list \<Rightarrow> bool" where
  "redirs_ok l rs \<longleftrightarrow> (\<forall>(f, mode, fd)\<in>set rs. token_ok l f \<and> (fd, mode) \<in> {(0, 0), (1, 0x601), (1, 0x201)})"

lemma redir_args_ok: "token_ok l f \<Longrightarrow> redirs_ok l rs \<Longrightarrow> redirs_ok l (rs @ [redir_args tok f])"
  by (auto simp: redirs_ok_def redir_args_def)

lemma parseredirs_ok:
  "parseredirs (length l) ps rs = POk rs' s \<Longrightarrow> rest_of l ps \<Longrightarrow> redirs_ok l rs \<Longrightarrow> redirs_ok l rs' \<and> rest_of l s"
proof (induction "length ps" arbitrary: ps rs rule: less_induct)
  case less
  obtain found s0 where p: "peek ps ''<>'' = (found, s0)" by fastforce
  obtain tok a b s1 where g: "gettoken s0 = (tok, a, b, s1)" by (metis prod_cases4)
  obtain tok2 q eq s2 where g2: "gettoken s1 = (tok2, q, eq, s2)" by (metis prod_cases4)
  have r: "rest_of l s0" "rest_of l s1" "rest_of l s2"
    using peek_rest [OF p less.prems(2)] gettoken_rest [OF g] gettoken_rest [OF g2] by blast+
  show ?case
  proof (cases "found \<and> tok2 = CHR ''a''")
    case True
    then have l: "length s2 < length ps" using redir_shorter [of found s0 ps "''<>''" tok a b s1 q eq s2] p g g2 by simp
    have t: "token_ok l (length l - length q, length l - length eq)" using gettoken_word g2 True r(2) by blast
    show ?thesis
      using less.hyps [OF l _ r(3) redir_args_ok [OF t less.prems(3), of tok]] less.prems(1) True p g g2
      by (simp add: parseredirs.simps [of _ ps])
  next
    case False
    then show ?thesis using less.prems(1,3) p g g2 r(1) by (auto simp: parseredirs.simps [of _ ps] split: if_splits)
  qed
qed

lemma parseargs_ok:
  "parseargs (length l) ps argv rs = POk (argv', rs') s \<Longrightarrow> rest_of l ps \<Longrightarrow> redirs_ok l rs \<Longrightarrow>
     cmd_ok l (EXEC argv) \<Longrightarrow> redirs_ok l rs' \<and> cmd_ok l (EXEC argv') \<and> rest_of l s"
proof (induction "length ps" arbitrary: ps argv rs rule: less_induct)
  case less
  obtain found s0 where p: "peek ps ''|)&;'' = (found, s0)" by fastforce
  obtain tok q eq s1 where g: "gettoken s0 = (tok, q, eq, s1)" by (metis prod_cases4)
  have r: "rest_of l s0" "rest_of l s1" using peek_rest [OF p less.prems(2)] gettoken_rest [OF g] by blast+
  note u = parseargs.simps [of "length l" ps argv rs]
  show ?case
  proof (cases "\<not> found \<and> tok = CHR ''a'' \<and> Suc (length argv) < MAXARGS")
    case True
    obtain rs1 s2 where k: "parseredirs (length l) s1 rs = POk rs1 s2"
      using less.prems(1) True p g by (auto simp: u Let_def split: pres.splits)
    have ok: "redirs_ok l rs1" "rest_of l s2" using parseredirs_ok [OF k r(2) less.prems(3)] by blast+
    have "length s1 < length s0" using gettoken_length(5) [OF g] True by simp
    then have l: "length s2 < length ps" using parseredirs_length [OF k] peek_length [OF p] by linarith
    have t: "token_ok l (length l - length q, length l - length eq)" using gettoken_word g True r(1) by blast
    show ?thesis
      using less.hyps [OF l _ ok(2,1), of "argv @ [(length l - length q, length l - length eq)]"] less.prems(1,4) True p g k t
      by (simp add: u Let_def)
  next
    case False
    then show ?thesis using less.prems p g r by (auto simp: u Let_def split: if_splits)
  qed
qed

lemma backs_ok: "backs c ps = (d, s) \<Longrightarrow> cmd_ok l c \<Longrightarrow> rest_of l ps \<Longrightarrow> cmd_ok l d \<and> rest_of l s"
proof (induction "length ps" arbitrary: ps c rule: less_induct)
  case less
  obtain found s0 where p: "peek ps ''&'' = (found, s0)" by fastforce
  have r: "rest_of l s0" using peek_rest [OF p less.prems(3)] .
  show ?case
  proof (cases found)
    case True
    then have k: "length (after_token s0) < length ps" using after_token_less p by simp
    show ?thesis using less.hyps [OF k _ _ after_token_rest [OF r], of "BACK c"] less.prems True p
      by (simp add: backs.simps [of c ps])
  next
    case False
    then show ?thesis using less.prems p r by (simp add: backs.simps [of c ps])
  qed
qed

lemma derives_ok:
  "lineD n ps c s \<Longrightarrow> n = length l \<Longrightarrow> rest_of l ps \<Longrightarrow> cmd_ok l c \<and> rest_of l s"
  "pipeD n ps c s \<Longrightarrow> n = length l \<Longrightarrow> rest_of l ps \<Longrightarrow> cmd_ok l c \<and> rest_of l s"
  "execD n ps c s \<Longrightarrow> n = length l \<Longrightarrow> rest_of l ps \<Longrightarrow> cmd_ok l c \<and> rest_of l s"
  "blockD n ps c s \<Longrightarrow> n = length l \<Longrightarrow> rest_of l ps \<Longrightarrow> cmd_ok l c \<and> rest_of l s"
proof (induction rule: lineD_pipeD_execD_blockD.inducts)
  case (exec_args ps s1 rs s2 argv rs' s)
  have "rest_of l s1" using peek_rest exec_args by blast
  then have "redirs_ok l rs" "rest_of l s2" using parseredirs_ok [of l s1 "[]" rs s2] exec_args by (auto simp: redirs_ok_def)
  then show ?case using parseargs_ok [of l s2 "[]" rs argv rs' s] exec_args redirect_ok [of l "EXEC argv" rs']
    by (auto simp: redirs_ok_def MAXARGS_def)
next
  case (block ps s1 c s2 s3 rs s)
  then have c: "cmd_ok l c" "rest_of l s2" using peek_rest after_token_rest by blast+
  then have "rest_of l (after_token s3)" using block peek_rest after_token_rest by blast
  then show ?case using parseredirs_ok [of l "after_token s3" "[]" rs s] block c redirect_ok [of l c rs]
    by (auto simp: redirs_ok_def)
qed (use backs_ok peek_rest after_token_rest in \<open>metis cmd_ok.simps\<close>)+

section \<open>Strings\<close>

text \<open>The tokens of a command, in the order in which \<open>nulterminate\<close> visits them.\<close>

primrec tokens :: "cmd \<Rightarrow> token list" where
  "tokens (EXEC argv) = argv"
| "tokens (REDIR c f mode fd) = tokens c @ [f]"
| "tokens (PIPE c d) = tokens c @ tokens d"
| "tokens (LIST c d) = tokens c @ tokens d"
| "tokens (BACK c) = tokens c"

lemma nulterminate_tokens: "nulterminate c buf = foldl (\<lambda>b (q, e). b[e := NUL]) buf (tokens c)"
  by (induction c arbitrary: buf) (auto simp: split_def)

lemma cmd_ok_tokens: "cmd_ok l c \<Longrightarrow> \<forall>t\<in>set (tokens c). token_ok l t"
  by (induction c) auto

lemma nth_foldl_nul:
  "i < length buf \<Longrightarrow> foldl (\<lambda>b (q, e). b[e := NUL]) buf ts ! i = (if i \<in> snd ` set ts then NUL else buf ! i)"
  by (induction ts arbitrary: buf) (auto simp: nth_list_update split_def)

lemma length_foldl_nul [simp]: "length (foldl (\<lambda>b (q, e). b[e := NUL]) buf ts) = length buf"
  by (induction ts arbitrary: buf) (auto simp: split_def)

text \<open>The C string at an offset of an array.\<close>

definition cstring_at :: "string \<Rightarrow> nat \<Rightarrow> string" where
  "cstring_at buf q = takeWhile (\<lambda>c. c \<noteq> NUL) (drop q buf)"

lemma cstring_token:
  assumes "\<forall>t\<in>set ts. token_ok l t" "t \<in> set ts" "NUL \<notin> set l"
  shows "cstring_at (foldl (\<lambda>b (q, e). b[e := NUL]) (l @ [NUL]) ts) (fst t) = take (snd t - fst t) (drop (fst t) l)"
proof -
  obtain q e where t: "t = (q, e)" by force
  have ok: "q < e" "e \<le> length l" "\<forall>i. q \<le> i \<and> i < e \<longrightarrow> wordc (l ! i)"
    using assms(1,2) t by (auto simp: token_ok_def)
  let ?b = "foldl (\<lambda>b (q, e). b[e := NUL]) (l @ [NUL]) ts"
  have i: "?b ! i = l ! i" if "q \<le> i" "i < e" for i
  proof -
    have "i \<notin> snd ` set ts" using assms(1) ok that by (fastforce simp: token_ok_def)
    then show ?thesis using ok(2) that by (simp add: nth_foldl_nul nth_append)
  qed
  have "?b ! e = NUL" using assms(2) t ok(2) by (subst nth_foldl_nul) force+
  moreover have "drop q ?b = take (e - q) (drop q ?b) @ ?b ! e # drop (Suc e) ?b"
    using ok(1,2) by (subst id_take_nth_drop [of "e - q" "drop q ?b"]) (simp_all add: Suc_diff_le)
  moreover have w: "take (e - q) (drop q ?b) = take (e - q) (drop q l)"
    using ok(1,2) i by (intro nth_equalityI) auto
  ultimately have "drop q ?b = take (e - q) (drop q l) @ NUL # drop (Suc e) ?b" by simp
  moreover have "NUL \<notin> set (take (e - q) (drop q l))" using assms(3) by (meson in_set_dropD in_set_takeD)
  ultimately show ?thesis by (simp add: cstring_at_def t takeWhile_sep)
qed

text \<open>
  Property C16: what the parser returns is well-formed.  Every command has fewer than \<open>MAXARGS\<close> arguments (the arrays
  have room for the null pointer behind them), redirections open descriptor 0 for reading or 1 for
  writing, tokens lie in the line, and after \<open>nulterminate\<close> the C string that starts
  at a token is exactly the token, although the NULs are written into the line the
  tokens share.
\<close>

theorem parsecmd_well_formed:
  assumes "NUL \<notin> set l" "parsecmd l = Parsed c buf"
  shows "cmd_ok l c \<and> length buf = Suc (length l) \<and>
     (\<forall>(q, e)\<in>set (tokens c). cstring_at buf q = take (e - q) (drop q l) \<and> cstring_at buf q \<noteq> [])"
proof -
  obtain s where p: "parseline (4 * length l + 4) (length l) l = POk c s" "buf = nulterminate c (l @ [NUL])"
    using assms(2) by (auto simp: parsecmd_def Let_def split: pres.splits prod.splits if_splits)
  have "rest_of l l" by (simp add: rest_of_def)
  then have ok: "cmd_ok l c" using parser_derives [of "4 * length l + 4" "length l" l c s] p(1) derives_ok(1) by blast
  note t = cmd_ok_tokens [OF ok]
  have "cstring_at buf q = take (e - q) (drop q l) \<and> cstring_at buf q \<noteq> []" if "(q, e) \<in> set (tokens c)" for q e
  proof -
    have "cstring_at buf q = take (e - q) (drop q l)"
      using cstring_token [OF t that assms(1)] by (simp add: p(2) nulterminate_tokens)
    moreover have "q < e" "e \<le> length l" using t that by (auto simp: token_ok_def)
    ultimately show ?thesis by auto
  qed
  then show ?thesis using ok by (auto simp: p(2) nulterminate_tokens)
qed

theorem parsecmd_well_formed_witness:
  "\<exists>c buf. parsecmd ''echo a>f | wc &'' = Parsed c buf \<and> (5, 6) \<in> set (tokens c) \<and> cstring_at buf 5 = ''a''"
proof -
  have p: "parsecmd ''echo a>f | wc &'' = Parsed (BACK (PIPE (REDIR (EXEC [(0, 4), (5, 6)]) (7, 8) 0x601 1) (EXEC [(11, 13)])))
      (''echo'' @ [NUL] @ ''a'' @ [NUL] @ ''f'' @ [NUL] @ ''| wc'' @ [NUL] @ ''&'' @ [NUL])" by code_simp
  have "NUL \<notin> set ''echo a>f | wc &''" by simp
  from parsecmd_well_formed [OF this p] p show ?thesis by fastforce
qed

section \<open>Printing and parsing\<close>

text \<open>Commands with their strings, as \<^verbatim>\<open>runcmd\<close> sees them.\<close>

datatype acmd = AExec "string list" | ARedir acmd string int int | APipe acmd acmd | AList acmd acmd | ABack acmd

primrec strings :: "string \<Rightarrow> cmd \<Rightarrow> acmd" where
  "strings buf (EXEC argv) = AExec (map (\<lambda>(q, e). cstring_at buf q) argv)"
| "strings buf (REDIR c f mode fd) = ARedir (strings buf c) (cstring_at buf (fst f)) mode fd"
| "strings buf (PIPE c d) = APipe (strings buf c) (strings buf d)"
| "strings buf (LIST c d) = AList (strings buf c) (strings buf d)"
| "strings buf (BACK c) = ABack (strings buf c)"

definition plain_word :: "string \<Rightarrow> bool" where
  "plain_word w \<longleftrightarrow> w \<noteq> [] \<and> (\<forall>c\<in>set w. wordc c \<and> c \<noteq> NUL)"

primrec acmd_ok :: "acmd \<Rightarrow> bool" where
  "acmd_ok (AExec ws) \<longleftrightarrow> length ws < MAXARGS \<and> (\<forall>w\<in>set ws. plain_word w)"
| "acmd_ok (ARedir c f mode fd) \<longleftrightarrow> acmd_ok c \<and> plain_word f \<and> (fd, mode) \<in> {(0, 0), (1, 0x601), (1, 0x201)}"
| "acmd_ok (APipe c d) \<longleftrightarrow> acmd_ok c \<and> acmd_ok d"
| "acmd_ok (AList c d) \<longleftrightarrow> acmd_ok c \<and> acmd_ok d"
| "acmd_ok (ABack c) \<longleftrightarrow> acmd_ok c"

definition redir_sign :: "int \<Rightarrow> int \<Rightarrow> string" where
  "redir_sign mode fd = (if fd = 0 then ''<'' else if mode = 0x601 then ''>'' else ''>>'')"

primrec show_cmd :: "acmd \<Rightarrow> string" where
  "show_cmd (AExec ws) = concat (map (\<lambda>w. w @ '' '') ws)"
| "show_cmd (ARedir c f mode fd) = ''('' @ show_cmd c @ '')'' @ redir_sign mode fd @ f @ '' ''"
| "show_cmd (APipe c d) = ''('' @ show_cmd c @ '')|('' @ show_cmd d @ '')''"
| "show_cmd (AList c d) = ''('' @ show_cmd c @ '');('' @ show_cmd d @ '')''"
| "show_cmd (ABack c) = ''('' @ show_cmd c @ '')&''"

text \<open>The text of a token of the line, and the command with the texts of its tokens.\<close>

definition text_of :: "string \<Rightarrow> token \<Rightarrow> string" where
  "text_of l t = take (snd t - fst t) (drop (fst t) l)"

primrec texts :: "string \<Rightarrow> cmd \<Rightarrow> acmd" where
  "texts l (EXEC argv) = AExec (map (text_of l) argv)"
| "texts l (REDIR c f mode fd) = ARedir (texts l c) (text_of l f) mode fd"
| "texts l (PIPE c d) = APipe (texts l c) (texts l d)"
| "texts l (LIST c d) = AList (texts l c) (texts l d)"
| "texts l (BACK c) = ABack (texts l c)"

text \<open>The end of a command: the end of the line or a closing parenthesis.\<close>

definition closed :: "string \<Rightarrow> bool" where
  "closed r \<longleftrightarrow> r = [] \<or> hd r = CHR '')''"

lemma closed_white [simp]: "closed r \<Longrightarrow> dropWhile white r = r"
  by (cases r) (auto simp: closed_def white_iff whitespace_def)

lemma peek_head: "\<not> white c \<Longrightarrow> peek (c # s) toks = (u_strchr toks c \<noteq> None, c # s)"
  by (simp add: peek_def)

lemma peek_closed:
  assumes "closed r"
  shows "peek r '';'' = (False, r)" "peek r ''|'' = (False, r)" "peek r ''&'' = (False, r)" "peek r ''<>'' = (False, r)"
    "peek r ''('' = (False, r)"
  using assms by (auto simp: peek_def Let_def closed_def)

lemma peek_close: "peek (CHR '')'' # s) '')'' = (True, CHR '')'' # s)"
  by (simp add: peek_def white_iff whitespace_def)

lemma peek_open: "peek (CHR ''('' # s) ''('' = (True, CHR ''('' # s)"
  by (simp add: peek_def white_iff whitespace_def)

lemma after_symbol:
  "c \<in> {CHR ''|'', CHR ''('', CHR '')'', CHR '';'', CHR ''&'', CHR ''<''} \<Longrightarrow> after_token (c # s) = dropWhile white s"
  by (auto simp: after_token_def gettoken_def scan_def white_iff whitespace_def)

lemma rest_append: "rest_of l (a @ s) \<Longrightarrow> rest_of l s"
  unfolding rest_of_iff by (metis append.assoc)

lemma text_token: "rest_of l (w @ e) \<Longrightarrow> text_of l (length l - length (w @ e), length l - length e) = w"
  unfolding rest_of_iff text_of_def by auto

lemma gettoken_plain:
  assumes "plain_word w" "e = [] \<or> \<not> wordc (hd e)"
  shows "gettoken (w @ e) = (CHR ''a'', w @ e, e, dropWhile white e)"
proof -
  obtain c w' where w: "w = c # w'" "wordc c" using assms(1) by (cases w) (auto simp: plain_word_def)
  have "dropWhile wordc (w @ e) = e" using assms by (cases e) (auto simp: plain_word_def dropWhile_append)
  then show ?thesis using w unfolding gettoken_eq
    by (auto simp: scan_def wordc_iff white_iff symbols_def)
qed

lemma peek_word: "wordc c \<Longrightarrow> set toks \<subseteq> set symbols \<Longrightarrow> peek (c # s) toks = (False, c # s)"
proof -
  assume *: "wordc c" "set toks \<subseteq> set symbols"
  have "u_strchr t c = None" if "c \<notin> set t" for t using that by (induction t) auto
  then show ?thesis using * by (subst peek_head) (auto simp: wordc_iff white_iff)
qed

lemma peek_words: "s \<noteq> [] \<Longrightarrow> wordc (hd s) \<Longrightarrow> set toks \<subseteq> set symbols \<Longrightarrow> peek s toks = (False, s)"
  using peek_word by (cases s) auto

lemma parseredirs_none:
  assumes "closed s \<or> (s \<noteq> [] \<and> wordc (hd s))"
  shows "parseredirs n s rs = POk rs s"
proof -
  have "peek s ''<>'' = (False, s)"
    using assms peek_closed(4) peek_word [of "hd s" "''<>''" "tl s"] by (auto simp: symbols_def)
  then show ?thesis by (simp add: parseredirs.simps)
qed

definition shown_words :: "string list \<Rightarrow> string" where
  "shown_words ws = concat (map (\<lambda>w. w @ '' '') ws)"

lemma words_start:
  assumes "\<forall>w\<in>set ws. plain_word w" "closed r"
  shows "closed (shown_words ws @ r) \<or> (shown_words ws @ r \<noteq> [] \<and> wordc (hd (shown_words ws @ r)))"
    "dropWhile white (shown_words ws @ r) = shown_words ws @ r"
proof -
  show a: "closed (shown_words ws @ r) \<or> (shown_words ws @ r \<noteq> [] \<and> wordc (hd (shown_words ws @ r)))"
  proof (cases ws)
    case (Cons w ws')
    then show ?thesis using assms(1) by (cases w) (auto simp: plain_word_def shown_words_def)
  qed (use assms(2) in \<open>simp add: shown_words_def\<close>)
  have "\<not> white (hd (shown_words ws @ r))" if "wordc (hd (shown_words ws @ r))" using that by (simp add: wordc_iff white_iff)
  then show "dropWhile white (shown_words ws @ r) = shown_words ws @ r"
    using a by (metis closed_white dropWhile_eq_self_iff)
qed

lemma parseargs_words:
  assumes "\<forall>w\<in>set ws. plain_word w" "length argv + length ws < MAXARGS" "closed r" "rest_of l (shown_words ws @ r)"
  shows "\<exists>ts. parseargs (length l) (shown_words ws @ r) argv rs = POk (argv @ ts, rs) r \<and> map (text_of l) ts = ws"
  using assms
proof (induction ws arbitrary: argv)
  case Nil
  have "parseargs (length l) r argv rs = POk (argv, rs) r"
    using \<open>closed r\<close> by (auto simp: parseargs.simps closed_def peek_def gettoken_def scan_def white_iff whitespace_def)
  then show ?case by (simp add: shown_words_def)
next
  case (Cons w ws)
  let ?e = "'' '' @ shown_words ws @ r"
  have s: "shown_words (w # ws) @ r = w @ ?e" by (simp add: shown_words_def)
  have w: "plain_word w" "\<forall>w\<in>set ws. plain_word w" using Cons.prems(1) by simp_all
  then obtain c w' where c: "w = c # w'" "wordc c" by (cases w) (auto simp: plain_word_def)
  have pk: "peek (w @ ?e) ''|)&;'' = (False, w @ ?e)" using peek_word [OF c(2), of "''|)&;''" "w' @ ?e"] c(1) by (simp add: symbols_def)
  note st = words_start [OF w(2) Cons.prems(3)]
  have sp: "white CHR '' ''" by code_simp
  then have g: "gettoken (w @ ?e) = (CHR ''a'', w @ ?e, ?e, shown_words ws @ r)"
    using gettoken_plain [OF w(1), of ?e] st(2) by (simp add: wordc_iff white_iff)
  have rd: "parseredirs (length l) (shown_words ws @ r) rs = POk rs (shown_words ws @ r)"
    by (rule parseredirs_none [OF st(1)])
  let ?t = "(length l - length (w @ ?e), length l - length ?e)"
  have r: "rest_of l (w @ ?e)" using Cons.prems(4) s by simp
  have "rest_of l (shown_words ws @ r)" using rest_append [of l "w @ '' ''"] r by simp
  then obtain ts where ts: "parseargs (length l) (shown_words ws @ r) (argv @ [?t]) rs = POk ((argv @ [?t]) @ ts, rs) r"
    "map (text_of l) ts = ws" using Cons.IH [of "argv @ [?t]"] Cons.prems w by auto
  have "parseargs (length l) (w @ ?e) argv rs = POk ((argv @ [?t]) @ ts, rs) r"
    unfolding parseargs.simps [of "length l" "w @ ?e"] pk using g rd ts(1) Cons.prems(2) by (simp add: Let_def)
  moreover have "text_of l ?t = w" by (rule text_token [OF r])
  ultimately show ?case using ts(2) unfolding s by (intro exI [of _ "?t # ts"]) simp
qed

lemma show_start:
  assumes "acmd_ok c" "closed r"
  shows "dropWhile white (show_cmd c @ r) = show_cmd c @ r"
proof (cases c)
  case (AExec ws)
  then show ?thesis using words_start(2) [of ws r] assms by (simp add: shown_words_def)
qed (simp_all add: white_iff whitespace_def)

definition stops :: "string \<Rightarrow> bool" where
  "stops t \<longleftrightarrow> t = [] \<or> hd t \<in> {CHR ''|'', CHR '';'', CHR ''&'', CHR '')''}"

lemma stops_simps [simp]: "closed t \<Longrightarrow> stops t" "stops (CHR ''|'' # t)" "stops (CHR '';'' # t)" "stops (CHR ''&'' # t)"
  by (auto simp: stops_def closed_def)

lemma stops_redirs: "stops t \<Longrightarrow> dropWhile white t = t \<and> parseredirs n t rs = POk rs t"
proof -
  assume "stops t"
  then have w: "dropWhile white t = t" and "t = [] \<or> u_strchr ''<>'' (hd t) = None"
    by (cases t, auto simp: stops_def white_iff whitespace_def)
  then have "peek t ''<>'' = (False, t)" by (auto simp: peek_def Let_def simp del: u_strchr.simps)
  with w show ?thesis by (simp add: parseredirs.simps [of n t])
qed

lemma paren_block:
  assumes "lineD n (show_cmd c @ CHR '')'' # t) c' (CHR '')'' # t)" "acmd_ok c"
    and "parseredirs n (dropWhile white t) [] = POk rs s"
  shows "execD n (CHR ''('' # show_cmd c @ CHR '')'' # t) (redirect c' rs) s"
proof -
  have "dropWhile white (show_cmd c @ CHR '')'' # t) = show_cmd c @ CHR '')'' # t"
    by (rule show_start [OF assms(2)]) (simp add: closed_def)
  then have "blockD n (CHR ''('' # show_cmd c @ CHR '')'' # t) (redirect c' rs) s"
    using assms(1,3) by (intro block [OF peek_open _ peek_close]) (simp_all add: after_symbol)
  then show ?thesis by (rule exec_block [OF peek_open])
qed

lemma paren_exec:
  assumes "lineD n (show_cmd c @ CHR '')'' # t) c' (CHR '')'' # t)" "acmd_ok c" "stops t"
  shows "execD n (CHR ''('' # show_cmd c @ CHR '')'' # t) c' t"
  using paren_block [OF assms(1,2), of "[]" t] stops_redirs [OF assms(3)] by (simp add: redirect_def)

lemma peek_stops: "stops r \<Longrightarrow> x \<noteq> NUL \<Longrightarrow> peek r [x] = (r \<noteq> [] \<and> hd r = x, r)"
proof -
  assume *: "stops r" "x \<noteq> NUL"
  have "dropWhile white r = r" using stops_redirs [OF *(1)] by blast
  moreover have "u_strchr [x] y \<noteq> None \<longleftrightarrow> y = x" for y using *(2) by auto
  ultimately show ?thesis unfolding peek_def Let_def by simp
qed

lemma exec_pipe: "execD n ps c r \<Longrightarrow> stops r \<Longrightarrow> \<not> (r \<noteq> [] \<and> hd r = CHR ''|'') \<Longrightarrow> pipeD n ps c r"
  by (rule pipe_last) (auto simp: peek_stops)

lemma backs_none: "stops r \<Longrightarrow> \<not> (r \<noteq> [] \<and> hd r = CHR ''&'') \<Longrightarrow> backs c r = (c, r)"
  by (auto simp: backs.simps [of c r] peek_stops)

lemma exec_line: "execD n ps c r \<Longrightarrow> closed r \<Longrightarrow> lineD n ps c r"
  by (rule line_last [OF exec_pipe backs_none]) (auto simp: peek_closed closed_def)

lemma sign_token:
  assumes "plain_word f" "(fd, mode) \<in> {(0, 0), (1, 0x601), (1, 0x201)}"
  shows "\<exists>tok. gettoken (redir_sign mode fd @ f @ e) = (tok, redir_sign mode fd @ f @ e, f @ e, f @ e) \<and>
     redir_args tok k = (k, mode, fd)"
proof -
  obtain c f' where f: "f = c # f'" "wordc c" using assms(1) by (cases f) (auto simp: plain_word_def)
  have c: "\<not> white c" "c \<noteq> CHR ''>''" using f(2) by (auto simp: wordc_iff white_iff symbols_def)
  have w: "\<not> white CHR ''<''" "\<not> white CHR ''>''" by code_simp+
  from assms(2) consider "fd = 0" "mode = 0" | "fd = 1" "mode = 0x601" | "fd = 1" "mode = 0x201" by auto
  then show ?thesis
    by cases (simp_all add: redir_sign_def gettoken_def scan_def f(1) c w redir_args_def)
qed

lemma parseredirs_shown:
  assumes "plain_word f" "(fd, mode) \<in> {(0, 0), (1, 0x601), (1, 0x201)}" "closed r"
  shows "parseredirs n (dropWhile white (redir_sign mode fd @ f @ '' '' @ r)) [] =
     POk [((n - length (f @ '' '' @ r), n - length ('' '' @ r)), mode, fd)] r"
proof -
  let ?e = "'' '' @ r"
  let ?t = "redir_sign mode fd @ f @ ?e"
  have pk: "peek ?t ''<>'' = (True, ?t)" "dropWhile white ?t = ?t"
    using assms(2) by (auto simp: redir_sign_def peek_def white_iff whitespace_def)
  have "white CHR '' ''" "\<not> wordc CHR '' ''" by code_simp+
  then have g: "gettoken (f @ ?e) = (CHR ''a'', f @ ?e, ?e, r)"
    using gettoken_plain [OF assms(1), of ?e] assms(3) by simp
  obtain tok where t: "gettoken ?t = (tok, ?t, f @ ?e, f @ ?e)"
    "redir_args tok (n - length (f @ ?e), n - length ?e) = ((n - length (f @ ?e), n - length ?e), mode, fd)"
    using sign_token [OF assms(1,2)] by blast
  have "parseredirs n ?t [] = parseredirs n r [((n - length (f @ ?e), n - length ?e), mode, fd)]"
    unfolding parseredirs.simps [of n ?t] pk(1) prod.case t(1) g using t(2) by simp
  then show ?thesis using parseredirs_none assms(3) unfolding pk(2) by simp
qed

lemma show_derives:
  "acmd_ok c \<Longrightarrow> closed r \<Longrightarrow> rest_of l (show_cmd c @ r) \<Longrightarrow>
     \<exists>c'. lineD (length l) (show_cmd c @ r) c' r \<and> texts l c' = c"
proof (induction c arbitrary: r)
  case (AExec ws)
  let ?s = "shown_words ws @ r"
  have ok: "\<forall>w\<in>set ws. plain_word w" "length ws < MAXARGS" using AExec.prems(1) by simp_all
  note st = words_start [OF ok(1) AExec.prems(2)]
  obtain ts where ts: "parseargs (length l) ?s [] [] = POk (ts, []) r" "map (text_of l) ts = ws"
    using parseargs_words [OF ok(1), of "[]" r l "[]"] ok(2) AExec.prems(2,3) by (auto simp: shown_words_def)
  have "peek ?s ''('' = (False, ?s)"
    using st(1) peek_closed(5) [of ?s] peek_words [of ?s "''(''"] by (auto simp: symbols_def)
  from exec_args [OF this parseredirs_none [OF st(1)] ts(1)] have "execD (length l) ?s (EXEC ts) r" by (simp add: redirect_def)
  from exec_line [OF this AExec.prems(2)] ts(2) show ?case by (auto simp: shown_words_def)
next
  case (ARedir c f mode fd)
  let ?e = "'' '' @ r"
  let ?t = "redir_sign mode fd @ f @ ?e"
  have f: "plain_word f" "(fd, mode) \<in> {(0, 0), (1, 0x601), (1, 0x201)}" using ARedir.prems(1) by simp_all
  have r1: "rest_of l (show_cmd c @ CHR '')'' # ?t)"
    by (rule rest_append [of l "''(''"]) (use ARedir.prems(3) in simp)
  have r2: "rest_of l (f @ ?e)"
    by (rule rest_append [of l "''('' @ show_cmd c @ '')'' @ redir_sign mode fd"]) (use ARedir.prems(3) in simp)
  note rs = r1 r2
  obtain c' where c: "lineD (length l) (show_cmd c @ CHR '')'' # ?t) c' (CHR '')'' # ?t)" "texts l c' = c"
    using ARedir.IH [of "CHR '')'' # ?t"] ARedir.prems(1) rs(1) by (auto simp: closed_def)
  let ?k = "(length l - length (f @ ?e), length l - length ?e)"
  have "parseredirs (length l) (dropWhile white ?t) [] = POk [(?k, mode, fd)] r"
    by (rule parseredirs_shown [OF f ARedir.prems(2)])
  from paren_block [OF c(1) _ this] ARedir.prems(1)
  have "execD (length l) (CHR ''('' # show_cmd c @ CHR '')'' # ?t) (REDIR c' ?k mode fd) r" by (simp add: redirect_def)
  from exec_line [OF this ARedir.prems(2)] c(2) text_token [OF rs(2)] show ?case
    by (intro exI [of _ "REDIR c' ?k mode fd"]) simp
next
  case (APipe c d)
  let ?t = "CHR ''|'' # CHR ''('' # show_cmd d @ CHR '')'' # r"
  have r1: "rest_of l (show_cmd c @ CHR '')'' # ?t)"
    by (rule rest_append [of l "''(''"]) (use APipe.prems(3) in simp)
  have r2: "rest_of l (show_cmd d @ CHR '')'' # r)"
    by (rule rest_append [of l "''('' @ show_cmd c @ '')|(''"]) (use APipe.prems(3) in simp)
  note rs = r1 r2
  obtain c' where c: "lineD (length l) (show_cmd c @ CHR '')'' # ?t) c' (CHR '')'' # ?t)" "texts l c' = c"
    using APipe.IH(1) [of "CHR '')'' # ?t"] APipe.prems(1) rs(1) by (auto simp: closed_def)
  obtain d' where d: "lineD (length l) (show_cmd d @ CHR '')'' # r) d' (CHR '')'' # r)" "texts l d' = d"
    using APipe.IH(2) [of "CHR '')'' # r"] APipe.prems(1) rs(2) by (auto simp: closed_def)
  have "pipeD (length l) (CHR ''('' # show_cmd d @ CHR '')'' # r) d' r"
    using paren_exec [OF d(1)] APipe.prems(1,2) by (intro exec_pipe) (auto simp: closed_def)
  then have "pipeD (length l) (CHR ''('' # show_cmd c @ CHR '')'' # ?t) (PIPE c' d') r"
    using paren_exec [OF c(1)] APipe.prems(1)
    by (intro pipe_pipe [where ?s1.0 = ?t and ?s2.0 = ?t]) (simp_all add: peek_def white_iff whitespace_def after_symbol)
  then have "lineD (length l) (CHR ''('' # show_cmd c @ CHR '')'' # ?t) (PIPE c' d') r"
    using APipe.prems(2) by (intro line_last [OF _ backs_none]) (auto simp: peek_closed closed_def)
  then show ?case using c(2) d(2) by (intro exI [of _ "PIPE c' d'"]) simp
next
  case (AList c d)
  let ?t = "CHR '';'' # CHR ''('' # show_cmd d @ CHR '')'' # r"
  have r1: "rest_of l (show_cmd c @ CHR '')'' # ?t)"
    by (rule rest_append [of l "''(''"]) (use AList.prems(3) in simp)
  have r2: "rest_of l (show_cmd d @ CHR '')'' # r)"
    by (rule rest_append [of l "''('' @ show_cmd c @ '');(''"]) (use AList.prems(3) in simp)
  note rs = r1 r2
  obtain c' where c: "lineD (length l) (show_cmd c @ CHR '')'' # ?t) c' (CHR '')'' # ?t)" "texts l c' = c"
    using AList.IH(1) [of "CHR '')'' # ?t"] AList.prems(1) rs(1) by (auto simp: closed_def)
  obtain d' where d: "lineD (length l) (show_cmd d @ CHR '')'' # r) d' (CHR '')'' # r)" "texts l d' = d"
    using AList.IH(2) [of "CHR '')'' # r"] AList.prems(1) rs(2) by (auto simp: closed_def)
  have "lineD (length l) (CHR ''('' # show_cmd d @ CHR '')'' # r) d' r"
    using paren_exec [OF d(1)] AList.prems(1,2) by (intro exec_line) simp_all
  moreover have "pipeD (length l) (CHR ''('' # show_cmd c @ CHR '')'' # ?t) c' ?t"
    using paren_exec [OF c(1)] AList.prems(1) by (intro exec_pipe) simp_all
  ultimately have "lineD (length l) (CHR ''('' # show_cmd c @ CHR '')'' # ?t) (LIST c' d') r"
    by (intro line_list [where ?s1.0 = ?t and ?s2.0 = ?t and ?s3.0 = ?t and c = c'])
      (simp_all add: peek_def white_iff whitespace_def after_symbol backs_none)
  then show ?case using c(2) d(2) by (intro exI [of _ "LIST c' d'"]) simp
next
  case (ABack c)
  let ?t = "CHR ''&'' # r"
  have r1: "rest_of l (show_cmd c @ CHR '')'' # ?t)"
    by (rule rest_append [of l "''(''"]) (use ABack.prems(3) in simp)
  note rs = r1
  obtain c' where c: "lineD (length l) (show_cmd c @ CHR '')'' # ?t) c' (CHR '')'' # ?t)" "texts l c' = c"
    using ABack.IH [of "CHR '')'' # ?t"] ABack.prems(1) rs by (auto simp: closed_def)
  have "pipeD (length l) (CHR ''('' # show_cmd c @ CHR '')'' # ?t) c' ?t"
    using paren_exec [OF c(1)] ABack.prems(1) by (intro exec_pipe) simp_all
  moreover have "backs c' ?t = (BACK c', r)"
    using ABack.prems(2) backs_none [of r "BACK c'"]
    by (subst backs.simps) (auto simp: peek_def white_iff whitespace_def after_symbol closed_def)
  ultimately have "lineD (length l) (CHR ''('' # show_cmd c @ CHR '')'' # ?t) (BACK c') r"
    using line_last [OF _ _ peek_closed(1) [OF ABack.prems(2)]] by blast
  then show ?case using c(2) by (intro exI [of _ "BACK c'"]) simp
qed

text \<open>Fuel that is enough finds the derivation.\<close>

lemma derives_parse:
  "lineD n ps c s \<Longrightarrow> parseline f n ps \<noteq> POut \<Longrightarrow> parseline f n ps = POk c s"
  "pipeD n ps c s \<Longrightarrow> parsepipe f n ps \<noteq> POut \<Longrightarrow> parsepipe f n ps = POk c s"
  "execD n ps c s \<Longrightarrow> parseexec f n ps \<noteq> POut \<Longrightarrow> parseexec f n ps = POk c s"
  "blockD n ps c s \<Longrightarrow> parseblock f n ps \<noteq> POut \<Longrightarrow> parseblock f n ps = POk c s"
proof (induction arbitrary: f and f and f and f rule: lineD_pipeD_execD_blockD.inducts)
  case (line_last ps c s1 d s2 s)
  then obtain g where f: "f = Suc g" by (cases f) auto
  have "parsepipe g n ps \<noteq> POut" using line_last.prems f by auto
  then have 1: "parsepipe g n ps = POk c s1" using line_last by blast
  then show ?case using line_last f by simp
next
  case (line_list ps c s1 d s2 s3 e s)
  then obtain g where f: "f = Suc g" by (cases f) auto
  have "parsepipe g n ps \<noteq> POut" using line_list.prems f by auto
  then have 1: "parsepipe g n ps = POk c s1" using line_list by blast
  have "parseline g n (after_token s3) \<noteq> POut" using line_list f 1 by auto
  then have "parseline g n (after_token s3) = POk e s" using line_list by blast
  then show ?case using 1 line_list f by simp
next
  case (pipe_last ps c s1 s)
  then obtain g where f: "f = Suc g" by (cases f) auto
  have "parseexec g n ps \<noteq> POut" using pipe_last.prems f by auto
  then have 1: "parseexec g n ps = POk c s1" using pipe_last by blast
  then show ?case using pipe_last f by simp
next
  case (pipe_pipe ps c s1 s2 d s)
  then obtain g where f: "f = Suc g" by (cases f) auto
  have "parseexec g n ps \<noteq> POut" using pipe_pipe.prems f by auto
  then have 1: "parseexec g n ps = POk c s1" using pipe_pipe by blast
  have "parsepipe g n (after_token s2) \<noteq> POut" using pipe_pipe f 1 by auto
  then have "parsepipe g n (after_token s2) = POk d s" using pipe_pipe by blast
  then show ?case using 1 pipe_pipe f by simp
next
  case (exec_block ps s1 c s)
  then obtain g where f: "f = Suc g" by (cases f) auto
  then show ?case using exec_block by simp
next
  case (exec_args ps s1 rs s2 argv rs' s)
  then show ?case by (cases f) auto
next
  case (block ps s1 c s2 s3 rs s)
  then obtain g where f: "f = Suc g" by (cases f) auto
  have "parseline g n (after_token s1) \<noteq> POut" using block f by auto
  then have 1: "parseline g n (after_token s1) = POk c s2" using block by blast
  then show ?case using block f by simp
qed

lemma strings_texts:
  assumes "cmd_ok l c" "\<And>q e. (q, e) \<in> set (tokens c) \<Longrightarrow> cstring_at buf q = text_of l (q, e)"
  shows "strings buf c = texts l c"
  using assms by (induction c) (auto simp: split_def)

lemma show_no_nul: "acmd_ok c \<Longrightarrow> NUL \<notin> set (show_cmd c)"
  by (induction c) (auto simp: plain_word_def redir_sign_def)

text \<open>
  Property C15: the shell reads every command.  Printed with parentheses around its parts, any well-formed command
  (words of word characters, fewer than \<open>MAXARGS\<close> arguments, the three kinds of redirection, pipes, lists and
  background commands nested in any way) is parsed back: \<open>parsecmd\<close> returns a command whose
  strings, as C strings of the line after \<open>nulterminate\<close>, are those of the command that was printed.
\<close>

theorem parsecmd_show:
  assumes "acmd_ok c"
  shows "\<exists>c' buf. parsecmd (show_cmd c) = Parsed c' buf \<and> strings buf c' = c"
proof -
  let ?l = "show_cmd c"
  obtain c' where c: "lineD (length ?l) ?l c' []" "texts ?l c' = c"
    using show_derives [OF assms, of "[]" ?l] unfolding append_Nil2 by (auto simp: closed_def rest_of_def simp del: show_cmd.simps)
  have p: "parseline (4 * length ?l + 4) (length ?l) ?l = POk c' []"
    by (rule derives_parse(1) [OF c(1) parser_total [THEN conjunct1, THEN mp, OF order_refl]])
  let ?b = "nulterminate c' (?l @ [NUL])"
  have ok: "cmd_ok ?l c'" using derives_ok(1) [OF c(1) refl] by (simp add: rest_of_def)
  have "cstring_at ?b q = text_of ?l (q, e)" if "(q, e) \<in> set (tokens c')" for q e
    using cstring_token [OF cmd_ok_tokens [OF ok] that show_no_nul [OF assms]]
    by (simp add: nulterminate_tokens text_of_def)
  then have "strings ?b c' = texts ?l c'" by (rule strings_texts [OF ok])
  then have "strings ?b c' = c" unfolding c(2) .
  moreover have "parsecmd ?l = Parsed c' ?b" unfolding parsecmd_def Let_def p by (simp add: peek_def)
  ultimately show ?thesis by blast
qed

theorem parsecmd_show_witness:
  "\<exists>c' buf. parsecmd (show_cmd (AList (APipe (AExec [''ls'', ''-l'']) (ARedir (AExec [''wc'']) ''out'' 0x601 1)) (ABack (AExec [''sleep'', ''9''])))) =
     Parsed c' buf \<and>
     strings buf c' = AList (APipe (AExec [''ls'', ''-l'']) (ARedir (AExec [''wc'']) ''out'' 0x601 1)) (ABack (AExec [''sleep'', ''9'']))"
proof (rule parsecmd_show)
  show "acmd_ok (AList (APipe (AExec [''ls'', ''-l'']) (ARedir (AExec [''wc'']) ''out'' 0x601 1)) (ABack (AExec [''sleep'', ''9''])))"
    by code_simp
qed

end
