(* ===== verification/Shellrun.thy ===== *)
theory Shellrun
  imports Shell
begin

text \<open>
  \<^verbatim>\<open>runcmd\<close> of \<^verbatim>\<open>user/sh.c\<close>.  The function never returns and forks, so it is modelled by the tree of
  its system calls: a call is followed by what the process does for each result, and after \<open>Fork\<close> the
  child goes on with the result 0 and the parent with the child's number.  The tree is
  then run on tables of open descriptors, with calls that succeed or fail, to see which programs
  it starts, on which standard input and output, what it waits for and how it ends.
\<close>

section \<open>The calls\<close>

datatype uproc =
    Exit int
  | Exec string "string list" uproc
  | Close int uproc
  | Open string int "int \<Rightarrow> uproc"
  | Dup int uproc
  | Pipe "int \<Rightarrow> int \<times> int \<Rightarrow> uproc"
  | Fork "int \<Rightarrow> uproc"
  | Wait uproc
  | Print string "string list" uproc

definition sh_panic :: "string \<Rightarrow> uproc" where
  "sh_panic s = Print ''%s\<newline>'' [s] (Exit 1)"

definition fork1 :: "(int \<Rightarrow> uproc) \<Rightarrow> uproc" where
  "fork1 k = Fork (\<lambda>pid. if pid = - 1 then sh_panic ''fork'' else k pid)"

primrec runcmd :: "acmd \<Rightarrow> uproc" where
  "runcmd (AExec argv) =
     (if argv = [] then Exit 1
      else Exec (hd argv) argv (Print ''exec %s failed\<newline>'' [hd argv] (Exit 0)))"
| "runcmd (ARedir cmd f mode fd) =
     Close fd (Open f mode (\<lambda>r.
       if r < 0 then Print ''open %s failed\<newline>'' [f] (Exit 1) else runcmd cmd))"
| "runcmd (AList left right) =
     fork1 (\<lambda>pid. if pid = 0 then runcmd left else Wait (runcmd right))"
| "runcmd (APipe left right) =
     Pipe (\<lambda>r (p0, p1).
       if r < 0 then sh_panic ''pipe''
       else fork1 (\<lambda>pid.
         if pid = 0 then Close 1 (Dup p1 (Close p0 (Close p1 (runcmd left))))
         else fork1 (\<lambda>pid.
           if pid = 0 then Close 0 (Dup p0 (Close p0 (Close p1 (runcmd right))))
           else Close p0 (Close p1 (Wait (Wait (Exit 0)))))))"
| "runcmd (ABack cmd) =
     fork1 (\<lambda>pid. if pid = 0 then runcmd cmd else Exit 0)"

text \<open>The prompt and the line; \<open>None\<close> is the end of the input.\<close>

definition getcmd :: "'s os \<Rightarrow> nat \<Rightarrow> ('s, string option) uprog" where
  "getcmd os nbuf =
     useq (usys (os_write os 2 ''$ '')) (
     ubind (gets os nbuf) (\<lambda>buf.
     uret (if buf = [] \<or> hd buf = NUL then None else Some buf)))"

text \<open>What the loop of \<^verbatim>\<open>main\<close> does with a line.\<close>

datatype action = Blank | Chdir string | Command string

definition sh_action :: "string \<Rightarrow> action" where
  "sh_action buf =
     (let cmd = dropWhile (\<lambda>c. c = CHR '' '' \<or> c = CHR 0x09) buf in
      if cmd \<noteq> [] \<and> hd cmd = CHR 0x0A then Blank
      else if take 3 cmd = ''cd '' then Chdir (drop 3 (butlast cmd))
      else Command cmd)"

section \<open>Descriptors\<close>

text \<open>
  What a descriptor refers to: what the shell was started with, a file, or an end of a pipe.  A pipe is
  named by the place in the tree of processes where it was made.
\<close>

datatype fobj = Given nat | File string int | PipeR "nat list" | PipeW "nat list"

type_synonym ftab = "int \<Rightarrow> fobj option"

definition lowest :: "ftab \<Rightarrow> int option" where
  "lowest T = find (\<lambda>f. T f = None) (map int [0..<16])"

text \<open>
  What a process does, as far as others can see it: it becomes a program, waits for a child, writes a
  message to descriptor 2, forks a child, or ends; each with the descriptors it has open then.
\<close>

datatype trace =
    Becomes string "string list" ftab
  | Waits ftab trace
  | Says string "string list" ftab trace
  | Forks trace trace
  | Ends int ftab

text \<open>Which calls of which process succeed; a full table of descriptors fails besides.\<close>

record world =
  exec_ok :: "nat list \<Rightarrow> string \<Rightarrow> bool"
  open_ok :: "nat list \<Rightarrow> string \<Rightarrow> int \<Rightarrow> bool"
  pipe_ok :: "nat list \<Rightarrow> bool"
  fork_ok :: "nat list \<Rightarrow> bool"

text \<open>
  The execution of a tree of calls by process \<open>p\<close>: descriptors are the lowest free ones, and both
  sides of a fork are followed, the child as process \<open>p @ [0]\<close>, the parent from then on as \<open>p @ [1]\<close>.
\<close>

primrec runs :: "world \<Rightarrow> uproc \<Rightarrow> ftab \<Rightarrow> nat list \<Rightarrow> trace" where
  "runs w (Exit c) T p = Ends c T"
| "runs w (Exec path argv k) T p = (if exec_ok w p path then Becomes path argv T else runs w k T p)"
| "runs w (Close fd k) T p = runs w k (T(fd := None)) p"
| "runs w (Open f mode k) T p =
     (if open_ok w p f mode
      then (case lowest T of Some fd \<Rightarrow> runs w (k fd) (T(fd \<mapsto> File f mode)) p | None \<Rightarrow> runs w (k (- 1)) T p)
      else runs w (k (- 1)) T p)"
| "runs w (Dup fd k) T p =
     (case lowest T of Some d \<Rightarrow> runs w k (T(d := T fd)) p | None \<Rightarrow> runs w k T p)"
| "runs w (Pipe k) T p =
     (if pipe_ok w p
      then (case lowest T of None \<Rightarrow> runs w (k (- 1) (0, 0)) T p
        | Some a \<Rightarrow> (case lowest (T(a \<mapsto> PipeR p)) of None \<Rightarrow> runs w (k (- 1) (0, 0)) T p
            | Some b \<Rightarrow> runs w (k 0 (a, b)) (T(a \<mapsto> PipeR p, b \<mapsto> PipeW p)) p))
      else runs w (k (- 1) (0, 0)) T p)"
| "runs w (Fork k) T p =
     (if fork_ok w p then Forks (runs w (k 0) T (p @ [0])) (runs w (k 1) T (p @ [1])) else runs w (k (- 1)) T p)"
| "runs w (Wait k) T p = Waits T (runs w k T p)"
| "runs w (Print fmt args k) T p = Says fmt args T (runs w k T p)"

text \<open>The standard descriptors and nothing else.\<close>

definition std :: "fobj \<Rightarrow> fobj \<Rightarrow> fobj \<Rightarrow> ftab" where
  "std i out e = (\<lambda>fd. if fd = 0 then Some i else if fd = 1 then Some out else if fd = 2 then Some e else None)"

text \<open>
  What a command means, in terms of standard input \<open>i\<close>, standard output \<open>out\<close> and standard error \<open>e\<close>:
  which processes there are, what each becomes, what it waits for before it goes on, what it reports
  and with which status it ends.
\<close>

definition fails :: "string \<Rightarrow> string list \<Rightarrow> int \<Rightarrow> ftab \<Rightarrow> trace" where
  "fails fmt args c T = Says fmt args T (Ends c T)"

primrec meaning :: "world \<Rightarrow> acmd \<Rightarrow> fobj \<Rightarrow> fobj \<Rightarrow> fobj \<Rightarrow> nat list \<Rightarrow> trace" where
  "meaning w (AExec argv) i out e p =
     (case argv of [] \<Rightarrow> Ends 1 (std i out e)
      | a # _ \<Rightarrow> if exec_ok w p a then Becomes a argv (std i out e)
                 else fails ''exec %s failed\<newline>'' [a] 0 (std i out e))"
| "meaning w (ARedir c f mode fd) i out e p =
     (if \<not> open_ok w p f mode then fails ''open %s failed\<newline>'' [f] 1 ((std i out e)(fd := None))
      else if fd = 0 then meaning w c (File f mode) out e p
      else meaning w c i (File f mode) e p)"
| "meaning w (AList c d) i out e p =
     (if fork_ok w p
      then Forks (meaning w c i out e (p @ [0])) (Waits (std i out e) (meaning w d i out e (p @ [1])))
      else fails ''%s\<newline>'' [''fork''] 1 (std i out e))"
| "meaning w (APipe c d) i out e p =
     (if \<not> pipe_ok w p then fails ''%s\<newline>'' [''pipe''] 1 (std i out e)
      else if \<not> fork_ok w p then fails ''%s\<newline>'' [''fork''] 1 ((std i out e)(3 \<mapsto> PipeR p, 4 \<mapsto> PipeW p))
      else Forks (meaning w c i (PipeW p) e (p @ [0]))
        (if \<not> fork_ok w (p @ [1]) then fails ''%s\<newline>'' [''fork''] 1 ((std i out e)(3 \<mapsto> PipeR p, 4 \<mapsto> PipeW p))
         else Forks (meaning w d (PipeR p) out e (p @ [1, 0]))
           (Waits (std i out e) (Waits (std i out e) (Ends 0 (std i out e))))))"
| "meaning w (ABack c) i out e p =
     (if fork_ok w p then Forks (meaning w c i out e (p @ [0])) (Ends 0 (std i out e))
      else fails ''%s\<newline>'' [''fork''] 1 (std i out e))"

text \<open>When every call succeeds: the programs that are started, with their standard input and output.\<close>

definition all_ok :: world where
  "all_ok = \<lparr>exec_ok = \<lambda>_ _. True, open_ok = \<lambda>_ _ _. True, pipe_ok = \<lambda>_. True, fork_ok = \<lambda>_. True\<rparr>"

primrec programs :: "trace \<Rightarrow> (string \<times> string list \<times> ftab) list" where
  "programs (Becomes path argv T) = [(path, argv, T)]"
| "programs (Waits T t) = programs t"
| "programs (Says fmt args T t) = programs t"
| "programs (Forks t u) = programs t @ programs u"
| "programs (Ends c T) = []"

primrec jobs :: "acmd \<Rightarrow> fobj \<Rightarrow> fobj \<Rightarrow> nat list \<Rightarrow> (string list \<times> fobj \<times> fobj) list" where
  "jobs (AExec argv) i out p = (if argv = [] then [] else [(argv, i, out)])"
| "jobs (ARedir c f mode fd) i out p =
     (if fd = 0 then jobs c (File f mode) out p else jobs c i (File f mode) p)"
| "jobs (APipe c d) i out p = jobs c i (PipeW p) (p @ [0]) @ jobs d (PipeR p) out (p @ [1, 0])"
| "jobs (AList c d) i out p = jobs c i out (p @ [0]) @ jobs d i out (p @ [1])"
| "jobs (ABack c) i out p = jobs c i out (p @ [0])"

lemma lowest_find: "(0 :: int) \<le> n \<Longrightarrow> n < 16 \<Longrightarrow> T n = None \<Longrightarrow> (\<forall>m. 0 \<le> m \<and> m < n \<longrightarrow> T m \<noteq> None) \<Longrightarrow> lowest T = Some n"
proof -
  assume *: "0 \<le> n" "n < 16" "T n = None" "\<forall>m. 0 \<le> m \<and> m < n \<longrightarrow> T m \<noteq> None"
  have "\<exists>i<length (map int [0..<16]). T (map int [0..<16] ! i) = None \<and> n = map int [0..<16] ! i \<and>
      (\<forall>j<i. T (map int [0..<16] ! j) \<noteq> None)"
    using * by (intro exI [of _ "nat n"]) auto
  then show ?thesis unfolding lowest_def find_Some_iff by blast
qed

lemma std_close:
  "(std i out e)(0 \<mapsto> x) = std x out e" "(std i out e)(1 \<mapsto> x) = std i x e"
  by (auto simp: std_def fun_eq_iff)

lemma lowest_std:
  "lowest ((std i out e)(0 := None)) = Some 0" "lowest ((std i out e)(1 := None)) = Some 1"
  "lowest (std i out e) = Some 3" "lowest ((std i out e)(3 \<mapsto> x)) = Some 4"
  "lowest ((std i out e)(3 \<mapsto> x, 4 \<mapsto> y, 1 := None)) = Some 1"
  "lowest ((std i out e)(3 \<mapsto> x, 4 \<mapsto> y, 0 := None)) = Some 0"
  by (rule lowest_find; auto simp: std_def)+

lemma std_pipe:
  "(std i out e)(1 \<mapsto> z, 3 := None, 4 := None) = std i z e"
  "(std i out e)(0 \<mapsto> z, 3 := None, 4 := None) = std z out e"
  "(std i out e)(3 := None, 4 := None) = std i out e"
  by (auto simp: std_def fun_eq_iff)

lemma runcmd_meaning:
  "acmd_ok c \<Longrightarrow> runs w (runcmd c) (std i out e) p = meaning w c i out e p"
proof (induction c arbitrary: i out p)
  case (AExec argv)
  then show ?case by (cases argv) (simp_all add: fails_def)
next
  case (ARedir c f mode fd)
  then consider "fd = 0" | "fd = 1" by auto
  then show ?case using ARedir by cases (simp_all add: lowest_std std_close fails_def)
next
  case (APipe c d)
  then show ?case by (simp add: fork1_def sh_panic_def fails_def lowest_std std_pipe)
qed (simp_all add: fork1_def sh_panic_def fails_def)

lemma meaning_jobs:
  "programs (meaning all_ok c i out e p) = map (\<lambda>(argv, i, out). (hd argv, argv, std i out e)) (jobs c i out p)"
  by (induction c arbitrary: i out p) (auto simp: all_ok_def split: list.splits)

text \<open>
  Property C18: the shell runs a command as the command says.  Run by a process that has the three standard
  descriptors, and whichever of the calls of \<^verbatim>\<open>exec\<close>, \<^verbatim>\<open>open\<close>, \<^verbatim>\<open>pipe\<close> and \<^verbatim>\<open>fork\<close> succeed, \<open>runcmd\<close> does exactly what
  the command means: every program gets its own path and arguments and exactly three open descriptors, the standard
  error it was started with and as standard input and output what the redirections and pipes around it ask for; the
  second command of a list starts after a wait for the first; the parent of a pipe waits for both sides, having
  closed both of its ends; a failed call is reported on standard error and ends the process with the status of the source.
  When all calls succeed, the programs that are started are those of the command.
\<close>

theorem runcmd_plumbing:
  assumes "acmd_ok c"
  shows "runs w (runcmd c) (std i out e) p = meaning w c i out e p \<and>
     programs (runs all_ok (runcmd c) (std i out e) p) =
       map (\<lambda>(argv, i, out). (hd argv, argv, std i out e)) (jobs c i out p)"
  using assms by (simp add: runcmd_meaning meaning_jobs)

theorem runcmd_plumbing_witness:
  "runs (all_ok\<lparr>exec_ok := \<lambda>_ path. path = ''ls''\<rparr>)
       (runcmd (APipe (AExec [''ls'']) (ARedir (AExec [''wc'']) ''f'' 0x601 1))) (std (Given 0) (Given 1) (Given 2)) [] =
     Forks (Becomes ''ls'' [''ls''] (std (Given 0) (PipeW []) (Given 2)))
       (Forks (fails ''exec %s failed\<newline>'' [''wc''] 0 (std (PipeR []) (File ''f'' 0x601) (Given 2)))
         (Waits (std (Given 0) (Given 1) (Given 2)) (Waits (std (Given 0) (Given 1) (Given 2))
           (Ends 0 (std (Given 0) (Given 1) (Given 2))))))"
proof -
  have "acmd_ok (APipe (AExec [''ls'']) (ARedir (AExec [''wc'']) ''f'' 0x601 1))" by code_simp
  from runcmd_plumbing [OF this, of "all_ok\<lparr>exec_ok := \<lambda>_ path. path = ''ls''\<rparr>" "Given 0" "Given 1" "Given 2" "[]"]
  show ?thesis by (simp add: all_ok_def)
qed

end
