(* ===== verification/Sbrk.thy ===== *)
theory Sbrk
  imports Syscall
begin

text \<open>
  Growth of a process with \<^verbatim>\<open>sys_sbrk\<close> and \<^verbatim>\<open>SBRK_LAZY\<close> (\<^verbatim>\<open>kernel/sysproc.c\<close>): the size is only
  checked for wrap-around, and the page fault handler relies on a bound that nobody enforces.
\<close>

lemma sys_sbrk_lazy_run:
  assumes "curproc s = Some p" "p < length (procs s)" "tf_a (p_tf (procs s ! p)) ! 0 = 2 ^ 30"
    "tf_a (p_tf (procs s ! p)) ! 1 = 2" "unat (p_sz (procs s ! p)) < 2 ^ 62"
  shows "sys_sbrk s = Ok (p_sz (procs s ! p))
     (s\<lparr>procs := (procs s)[p := (procs s ! p)\<lparr>p_sz := p_sz (procs s ! p) + 2 ^ 30\<rparr>]\<rparr>)"
proof -
  have "sint (ucast (2 ^ 30 :: u64) :: u32) = 2 ^ 30" "sint (ucast (2 :: u64) :: u32) = 2" by code_simp+
  moreover have "unat (p_sz (procs s ! p) + 2 ^ 30) = unat (p_sz (procs s ! p)) + 2 ^ 30"
    using assms(5) by (simp add: unat_word_ariths)
  then have "\<not> p_sz (procs s ! p) + 2 ^ 30 < p_sz (procs s ! p)" by (simp add: word_less_nat_alt)
  ultimately show ?thesis using assms(1-4)
    by (simp add: sys_sbrk_def argint_def argraw_def bnd_run sq_run SBRK_EAGER_def)
qed

definition sbrk_call :: "nat \<Rightarrow> ('z vm_st_scheme, unit) kernel" where
  "sbrk_call i = bnd sys_sbrk (\<lambda>_. ret ())"

definition grow_lazily :: "nat \<Rightarrow> ('z vm_st_scheme, unit) kernel" where
  "grow_lazily k = foreach [0..<k] sbrk_call"

lemma sbrk_call_run: "sys_sbrk s = Ok a t \<Longrightarrow> sbrk_call i s = Ok () t"
  by (simp add: sbrk_call_def bnd_run ret_def)

lemma grow_lazily_run:
  assumes "curproc s = Some p" "p < length (procs s)" "tf_a (p_tf (procs s ! p)) ! 0 = 2 ^ 30"
    "tf_a (p_tf (procs s ! p)) ! 1 = 2" "unat (p_sz (procs s ! p)) + length xs * 2 ^ 30 < 2 ^ 62"
  shows "\<exists>t. foreach xs sbrk_call s = Ok () t \<and> curproc t = Some p \<and>
     unat (p_sz (procs t ! p)) = unat (p_sz (procs s ! p)) + length xs * 2 ^ 30"
  using assms
proof (induction xs arbitrary: s)
  case (Cons x xs)
  let ?s = "s\<lparr>procs := (procs s)[p := (procs s ! p)\<lparr>p_sz := p_sz (procs s ! p) + 2 ^ 30\<rparr>]\<rparr>"
  have u: "unat (p_sz (procs s ! p) + 2 ^ 30) = unat (p_sz (procs s ! p)) + 2 ^ 30"
    using Cons.prems(5) by (simp add: unat_word_ariths)
  have "\<exists>t. foreach xs sbrk_call ?s = Ok () t \<and> curproc t = Some p \<and>
     unat (p_sz (procs t ! p)) = unat (p_sz (procs ?s ! p)) + length xs * 2 ^ 30"
    using Cons.prems u by (intro Cons.IH) simp_all
  moreover have "sbrk_call x s = Ok () ?s"
    by (rule sbrk_call_run [OF sys_sbrk_lazy_run]) (use Cons.prems in simp_all)
  ultimately show ?case using Cons.prems(2) u by (simp add: sq_run add.assoc)
qed (simp add: foreach_def ret_def)

text \<open>
  Property C19: a user process can make the kernel panic.  A process that calls \<open>sbrk\<close> lazily 257 times with a gigabyte
  succeeds every time, whatever memory the machine has; its size is then beyond the largest virtual
  address, and an access to that address, for which the trap handler calls \<open>vmfault\<close>, makes
  the kernel panic in \<open>walk\<close> instead of killing the process.
\<close>

theorem lazy_sbrk_panics:
  assumes "curproc s = Some p" "p < length (procs s)" "tf_a (p_tf (procs s ! p)) ! 0 = 2 ^ 30"
    "tf_a (p_tf (procs s ! p)) ! 1 = 2" "p_sz (procs s ! p) \<le> TRAPFRAME"
  shows "\<exists>t. grow_lazily 257 s = Ok () t \<and> MAXVA < p_sz (procs t ! p) \<and> vmfault pt MAXVA t = Panic ''walk''"
proof -
  have w: "TRAPFRAME \<le> 274877906944" "MAXVA = 274877906944" "PGROUNDDOWN MAXVA = MAXVA" by code_simp+
  then have "p_sz (procs s ! p) \<le> 274877906944" using assms(5) order_trans by blast
  then have sz: "unat (p_sz (procs s ! p)) \<le> 274877906944" by (simp add: word_le_nat_alt)
  then have "unat (p_sz (procs s ! p)) + length [0..<257] * 2 ^ 30 < 2 ^ 62" by simp
  from grow_lazily_run [OF assms(1-4) this] obtain t where t: "grow_lazily 257 s = Ok () t" "curproc t = Some p"
     "unat (p_sz (procs t ! p)) = unat (p_sz (procs s ! p)) + 257 * 2 ^ 30" unfolding grow_lazily_def by auto
  have lt: "MAXVA < p_sz (procs t ! p)" unfolding w(2) word_less_nat_alt using t(3) by simp
  then have "\<not> p_sz (procs t ! p) \<le> MAXVA" by simp
  then have "vmfault pt MAXVA t = Panic ''walk''"
    using t(2) w(3) by (simp add: vmfault_def ismapped_def walk_def bnd_run sq_run Let_def)
  then show ?thesis using t(1) lt by blast
qed

definition greedy :: "vm_st \<Rightarrow> vm_st" where
  "greedy s = s\<lparr>curproc := Some 0,
     procs := [proc0\<lparr>p_tf := (p_tf proc0)\<lparr>tf_a := [2 ^ 30, 2, 0, 0, 0, 0, 0, 0]\<rparr>, p_sz := 4096\<rparr>]\<rparr>"

theorem lazy_sbrk_panics_witness:
  "\<forall>s. \<exists>t. grow_lazily 257 (greedy s) = Ok () t \<and> vmfault 0 MAXVA t = Panic ''walk''"
proof
  fix s
  have "(4096 :: addr) \<le> TRAPFRAME" by code_simp
  then show "\<exists>t. grow_lazily 257 (greedy s) = Ok () t \<and> vmfault 0 MAXVA t = Panic ''walk''"
    using lazy_sbrk_panics [of "greedy s" 0 0] by (auto simp: greedy_def)
qed

end
