(* ===== verification/Handoff.thy ===== *)
theory Handoff
  imports Proctab
begin

text \<open>
  Sleep and wakeup among the threads of several processors.  The actions of \<^verbatim>\<open>sleep()\<close>, \<^verbatim>\<open>wakeup()\<close>,
  \<^verbatim>\<open>yield()\<close> and \<^verbatim>\<open>kkill()\<close>, and those of the schedulers, interleave in any order the spin locks allow.
  A channel stands for a condition; the spin lock that protects it is a parameter, as is the code
  around the calls, which follows the discipline the comments of \<^verbatim>\<open>proc.c\<close> ask for.
\<close>

section \<open>The machine\<close>

text \<open>
  What a thread executes: actions of the kernel; the loop \<^verbatim>\<open>while(!condition) sleep(chan, lk)\<close>; a change
  of the condition; and a timer interrupt's \<^verbatim>\<open>yield()\<close>.
\<close>

datatype instr = Do kact | Test chan | Assign chan bool | Yield

text \<open>
  Where a thread is: on a processor; switched out, its lock not yet released by the scheduler; off;
  or looked at by a scheduler that has taken its lock.
\<close>

datatype phase = On | Leaving | Off | Looking

record conf =
  sh :: proc_st
  locks :: "nat \<Rightarrow> lockid list"
  phase :: "nat \<Rightarrow> phase"
  code :: "nat \<Rightarrow> instr list"
  cond :: "chan \<Rightarrow> bool"

text \<open>The kernel's state as thread \<open>p\<close> sees it.\<close>

definition view :: "conf \<Rightarrow> nat \<Rightarrow> proc_st" where
  "view s p = (sh s)\<lparr>held := locks s p, curproc := Some p\<rparr>"

text \<open>An \<^verbatim>\<open>acquire\<close> spins while another processor holds the lock.\<close>

definition spins :: "conf \<Rightarrow> nat \<Rightarrow> kact \<Rightarrow> bool" where
  "spins s p a \<longleftrightarrow> (\<exists>l q. a = Acquire l \<and> q \<noteq> p \<and> l \<in> set (locks s q))"

text \<open>The locks that code releases without having taken them: those it runs with.\<close>

primrec owed :: "instr list \<Rightarrow> lockid list" where
  "owed [] = []"
| "owed (i # r) = (case i of
     Do a \<Rightarrow> (case a of Acquire l \<Rightarrow> removeAll l (owed r) | Release l \<Rightarrow> l # removeAll l (owed r) | _ \<Rightarrow> owed r)
   | _ \<Rightarrow> owed r)"

text \<open>
  Code that wakes process \<open>q\<close> on channel \<open>x\<close> before it gives up the lock of the condition, or the
  processor.
\<close>

definition gives_up :: "(chan \<Rightarrow> lockid) \<Rightarrow> chan \<Rightarrow> instr \<Rightarrow> bool" where
  "gives_up lkof x i \<longleftrightarrow> (case i of
     Do a \<Rightarrow> a = Release (lkof x) \<or> a = Sched | Test y \<Rightarrow> True | Assign y b \<Rightarrow> False | Yield \<Rightarrow> True)"

primrec due :: "(chan \<Rightarrow> lockid) \<Rightarrow> nat \<Rightarrow> chan \<Rightarrow> instr list \<Rightarrow> bool" where
  "due lkof q x [] = False"
| "due lkof q x (i # r) = (i = Do (Wake q x) \<or> \<not> gives_up lkof x i \<and> due lkof q x r)"

text \<open>
  The discipline.  Locks are taken and released in matching pairs, a process is woken or killed
  under its lock, a thread yields holding no lock and sleeps holding just the lock of the condition;
  the condition is tested and changed under its lock, and whoever makes it true goes on to wake all
  other processes before releasing the lock.
\<close>

primrec disciplined :: "(chan \<Rightarrow> lockid) \<Rightarrow> nat \<Rightarrow> instr list \<Rightarrow> bool" where
  "disciplined lkof p [] = True"
| "disciplined lkof p (i # r) = (disciplined lkof p r \<and> (case i of
     Do a \<Rightarrow> (case a of
         Acquire l \<Rightarrow> l \<in> set (owed r)
       | Release l \<Rightarrow> l \<notin> set (owed r)
       | Wake j c \<Rightarrow> L_proc j \<in> set (owed r)
       | Kill j \<Rightarrow> L_proc j \<in> set (owed r)
       | _ \<Rightarrow> False)
   | Test x \<Rightarrow> owed r = [lkof x]
   | Assign x b \<Rightarrow> lkof x \<in> set (owed r) \<and> (b \<longrightarrow> (\<forall>q\<in>{..<NPROC} - {p}. due lkof q x r))
   | Yield \<Rightarrow> owed r = []))"

inductive handoff_step :: "(chan \<Rightarrow> lockid) \<Rightarrow> conf \<Rightarrow> conf \<Rightarrow> bool" for lkof where
  run: "p < NPROC \<Longrightarrow> phase s p = On \<Longrightarrow> code s p = Do a # r \<Longrightarrow> \<not> spins s p a \<Longrightarrow>
     act a (view s p) = Ok () v \<Longrightarrow>
     handoff_step lkof s (s\<lparr>sh := v, locks := (locks s)(p := held v), code := (code s)(p := r)\<rparr>)"
| switch: "p < NPROC \<Longrightarrow> phase s p = On \<Longrightarrow> code s p = Do a # r \<Longrightarrow> act a (view s p) = Sleep c v \<Longrightarrow>
     handoff_step lkof s (s\<lparr>sh := v, phase := (phase s)(p := Leaving), code := (code s)(p := r)\<rparr>)"
| go_on: "p < NPROC \<Longrightarrow> phase s p = On \<Longrightarrow> code s p = Test x # r \<Longrightarrow> cond s x \<Longrightarrow>
     handoff_step lkof s (s\<lparr>code := (code s)(p := r)\<rparr>)"
| wait: "p < NPROC \<Longrightarrow> phase s p = On \<Longrightarrow> code s p = Test x # r \<Longrightarrow> \<not> cond s x \<Longrightarrow>
     handoff_step lkof s (s\<lparr>code := (code s)(p := map Do (sleep_acts x (lkof x) p) @ Test x # r)\<rparr>)"
| assign: "p < NPROC \<Longrightarrow> phase s p = On \<Longrightarrow> code s p = Assign x b # r \<Longrightarrow>
     handoff_step lkof s (s\<lparr>cond := (cond s)(x := b), code := (code s)(p := r)\<rparr>)"
| timer: "p < NPROC \<Longrightarrow> phase s p = On \<Longrightarrow> code s p = Yield # r \<Longrightarrow>
     handoff_step lkof s (s\<lparr>code := (code s)(p := map Do (yield_acts p) @ r)\<rparr>)"
| start: "p < NPROC \<Longrightarrow> phase s p = On \<Longrightarrow> code s p = [] \<Longrightarrow> disciplined lkof p r \<Longrightarrow> owed r = [] \<Longrightarrow>
     handoff_step lkof s (s\<lparr>code := (code s)(p := r)\<rparr>)"
| sched_release: "p < NPROC \<Longrightarrow> phase s p = Leaving \<Longrightarrow>
     handoff_step lkof s (s\<lparr>locks := (locks s)(p := remove1 (L_proc p) (locks s p)), phase := (phase s)(p := Off)\<rparr>)"
| sched_acquire: "p < NPROC \<Longrightarrow> phase s p = Off \<Longrightarrow> (\<forall>q. L_proc p \<notin> set (locks s q)) \<Longrightarrow>
     handoff_step lkof s (s\<lparr>locks := (locks s)(p := L_proc p # locks s p), phase := (phase s)(p := Looking)\<rparr>)"
| sched_pass: "p < NPROC \<Longrightarrow> phase s p = Looking \<Longrightarrow> p_state (procs (sh s) ! p) \<noteq> RUNNABLE \<Longrightarrow>
     handoff_step lkof s (s\<lparr>locks := (locks s)(p := remove1 (L_proc p) (locks s p)), phase := (phase s)(p := Off)\<rparr>)"
| sched_run: "p < NPROC \<Longrightarrow> phase s p = Looking \<Longrightarrow> p_state (procs (sh s) ! p) = RUNNABLE \<Longrightarrow>
     handoff_step lkof s (s\<lparr>sh := (sh s)\<lparr>procs := (procs (sh s))[p := (procs (sh s) ! p)\<lparr>p_state := RUNNING\<rparr>]\<rparr>,
       phase := (phase s)(p := On)\<rparr>)"



section \<open>The invariant\<close>

text \<open>A thread that has done the first \<open>k\<close> actions of \<open>sleep\<close>, or of \<open>yield\<close>.\<close>

definition sleepy :: "(chan \<Rightarrow> lockid) \<Rightarrow> nat \<Rightarrow> chan \<Rightarrow> nat \<Rightarrow> instr list \<Rightarrow> instr list" where
  "sleepy lkof k x p r = map Do (drop k (sleep_acts x (lkof x) p)) @ Test x # r"

definition yielding :: "nat \<Rightarrow> nat \<Rightarrow> instr list \<Rightarrow> instr list" where
  "yielding k p r = map Do (drop k (yield_acts p)) @ r"

inductive ctl ::
  "(chan \<Rightarrow> lockid) \<Rightarrow> nat \<Rightarrow> (chan \<Rightarrow> bool) \<Rightarrow> phase \<Rightarrow> procstate \<Rightarrow> chan \<Rightarrow> instr list \<Rightarrow> bool"
  for lkof p cd
where
  plain: "disciplined lkof p co \<Longrightarrow> ctl lkof p cd On RUNNING ch co"
| s0: "disciplined lkof p (Test x # r) \<Longrightarrow> \<not> cd x \<Longrightarrow> ctl lkof p cd On RUNNING ch (sleepy lkof 0 x p r)"
| s1: "disciplined lkof p (Test x # r) \<Longrightarrow> \<not> cd x \<Longrightarrow> ctl lkof p cd On RUNNING ch (sleepy lkof (Suc 0) x p r)"
| s2: "disciplined lkof p (Test x # r) \<Longrightarrow> ctl lkof p cd On RUNNING ch (sleepy lkof 2 x p r)"
| s3: "disciplined lkof p (Test x # r) \<Longrightarrow> ctl lkof p cd On RUNNING x (sleepy lkof 3 x p r)"
| s4: "disciplined lkof p (Test x # r) \<Longrightarrow> ctl lkof p cd On SLEEPING x (sleepy lkof 4 x p r)"
| s5: "disciplined lkof p (Test x # r) \<Longrightarrow> ph \<noteq> On \<Longrightarrow> st = RUNNABLE \<or> st = SLEEPING \<and> ch = x \<Longrightarrow>
     ctl lkof p cd ph st ch (sleepy lkof 5 x p r)"
| s5r: "disciplined lkof p (Test x # r) \<Longrightarrow> ctl lkof p cd On RUNNING ch (sleepy lkof 5 x p r)"
| y0: "disciplined lkof p r \<Longrightarrow> owed r = [] \<Longrightarrow> ctl lkof p cd On RUNNING ch (yielding 0 p r)"
| y1: "disciplined lkof p r \<Longrightarrow> owed r = [] \<Longrightarrow> ctl lkof p cd On RUNNING ch (yielding (Suc 0) p r)"
| y2: "disciplined lkof p r \<Longrightarrow> owed r = [] \<Longrightarrow> ctl lkof p cd On RUNNABLE ch (yielding 2 p r)"
| y3: "disciplined lkof p r \<Longrightarrow> owed r = [] \<Longrightarrow> ph \<noteq> On \<Longrightarrow> st = RUNNABLE \<or> st = UNUSED \<Longrightarrow>
     ctl lkof p cd ph st ch (yielding 3 p r)"

definition lockinv :: "(nat \<Rightarrow> lockid list) \<Rightarrow> (nat \<Rightarrow> phase) \<Rightarrow> (nat \<Rightarrow> instr list) \<Rightarrow> bool" where
  "lockinv lo ph co \<longleftrightarrow>
     (\<forall>p. distinct (lo p) \<and> set (lo p) = set (owed (co p)) - (if ph p = Off then {L_proc p} else {})) \<and>
     (\<forall>p q. p \<noteq> q \<longrightarrow> set (lo p) \<inter> set (lo q) = {})"

definition ctlinv ::
  "(chan \<Rightarrow> lockid) \<Rightarrow> (chan \<Rightarrow> bool) \<Rightarrow> (nat \<Rightarrow> phase) \<Rightarrow> proc list \<Rightarrow> (nat \<Rightarrow> instr list) \<Rightarrow> bool" where
  "ctlinv lkof cd ph ps co \<longleftrightarrow>
     (\<forall>p<NPROC. ctl lkof p cd (ph p) (p_state (ps ! p)) (p_chan (ps ! p)) (co p))"

text \<open>
  A process on its way to sleep on \<open>x\<close>, past the point where it released the lock of the condition,
  or asleep there.
\<close>

definition committed :: "(chan \<Rightarrow> lockid) \<Rightarrow> nat \<Rightarrow> chan \<Rightarrow> proc \<Rightarrow> instr list \<Rightarrow> bool" where
  "committed lkof p x pr co \<longleftrightarrow> p_state pr = SLEEPING \<and> p_chan pr = x \<or>
     (\<exists>r. co = sleepy lkof 2 x p r \<or> co = sleepy lkof 3 x p r)"

definition wakeinv ::
  "(chan \<Rightarrow> lockid) \<Rightarrow> (chan \<Rightarrow> bool) \<Rightarrow> (nat \<Rightarrow> lockid list) \<Rightarrow> proc list \<Rightarrow> (nat \<Rightarrow> instr list) \<Rightarrow> bool" where
  "wakeinv lkof cd lo ps co \<longleftrightarrow> (\<forall>p<NPROC. \<forall>x. cd x \<longrightarrow> committed lkof p x (ps ! p) (co p) \<longrightarrow>
     (\<exists>w. lkof x \<in> set (lo w) \<and> due lkof p x (co w)))"

definition inv :: "(chan \<Rightarrow> lockid) \<Rightarrow> conf \<Rightarrow> bool" where
  "inv lkof s \<longleftrightarrow> length (procs (sh s)) = NPROC \<and> lockinv (locks s) (phase s) (code s) \<and>
     ctlinv lkof (cond s) (phase s) (procs (sh s)) (code s) \<and>
     wakeinv lkof (cond s) (locks s) (procs (sh s)) (code s)"

lemma sleepy_steps:
  "sleepy lkof 0 x p r = Do (Acquire (L_proc p)) # sleepy lkof (Suc 0) x p r"
  "sleepy lkof (Suc 0) x p r = Do (Release (lkof x)) # sleepy lkof 2 x p r"
  "sleepy lkof 2 x p r = Do (Set_chan p x) # sleepy lkof 3 x p r"
  "sleepy lkof 3 x p r = Do (Set_state p SLEEPING) # sleepy lkof 4 x p r"
  "sleepy lkof 4 x p r = Do Sched # sleepy lkof 5 x p r"
  "sleepy lkof 5 x p r = Do (Set_chan p Chan_none) # Do (Release (L_proc p)) # Do (Acquire (lkof x)) # Test x # r"
  by (simp_all add: sleepy_def handoff_acts numeral_eq_Suc)

lemma yielding_steps:
  "yielding 0 p r = Do (Acquire (L_proc p)) # yielding (Suc 0) p r"
  "yielding (Suc 0) p r = Do (Set_state p RUNNABLE) # yielding 2 p r"
  "yielding 2 p r = Do Sched # yielding 3 p r"
  "yielding 3 p r = Do (Release (L_proc p)) # r"
  by (simp_all add: yielding_def handoff_acts numeral_eq_Suc)

lemmas code_steps = sleepy_steps yielding_steps

text \<open>The locks a sleeping thread holds at each point.\<close>

lemma owed_sleepy:
  assumes "owed r = [lkof x]" "lkof x \<noteq> L_proc p"
  shows "owed (sleepy lkof 0 x p r) = [lkof x]" "set (owed (sleepy lkof (Suc 0) x p r)) = {L_proc p, lkof x}"
    "owed (sleepy lkof 2 x p r) = [L_proc p]" "owed (sleepy lkof 3 x p r) = [L_proc p]"
    "owed (sleepy lkof 4 x p r) = [L_proc p]" "owed (sleepy lkof 5 x p r) = [L_proc p]"
  using assms by (auto simp: sleepy_steps)

lemma owed_yielding:
  assumes "owed r = []"
  shows "owed (yielding 0 p r) = []" "owed (yielding (Suc 0) p r) = [L_proc p]"
    "owed (yielding 2 p r) = [L_proc p]" "owed (yielding 3 p r) = [L_proc p]"
  using assms by (auto simp: yielding_steps)

lemma due_sleepy [simp]:
  "\<not> due lkof q y (sleepy lkof 0 x p r)" "\<not> due lkof q y (sleepy lkof (Suc 0) x p r)"
  "\<not> due lkof q y (sleepy lkof 2 x p r)" "\<not> due lkof q y (sleepy lkof 3 x p r)"
  "\<not> due lkof q y (sleepy lkof 4 x p r)" "\<not> due lkof q y (sleepy lkof 5 x p r)"
  "\<not> due lkof q y (yielding 0 p r)" "\<not> due lkof q y (yielding (Suc 0) p r)" "\<not> due lkof q y (yielding 2 p r)"
  by (simp_all add: code_steps gives_up_def)

lemma sleepy_not_disciplined:
  "\<not> disciplined lkof p (sleepy lkof 2 x p r)" "\<not> disciplined lkof p (sleepy lkof 3 x p r)"
  "\<not> disciplined lkof p (sleepy lkof 4 x p r)" "\<not> disciplined lkof p (sleepy lkof 5 x p r)"
  by (simp_all add: code_steps)



text \<open>What a thread on a processor may do next.\<close>

lemma sleepy_disciplined:
  "disciplined lkof p (Test x # r) \<Longrightarrow> lkof x \<noteq> L_proc p \<Longrightarrow>
     disciplined lkof p (Do (Release (L_proc p)) # Do (Acquire (lkof x)) # Test x # r)"
  by simp

lemma not_committed:
  "disciplined lkof p co \<Longrightarrow> p_state pr \<noteq> SLEEPING \<Longrightarrow> \<not> committed lkof p x pr co"
  by (auto simp: committed_def sleepy_not_disciplined)

lemma ctl_Do:
  assumes c: "ctl lkof p cd On st ch (Do a # r)" and lk: "\<forall>x p. lkof x \<noteq> L_proc p"
  obtains
    (acq) l where "a = Acquire l" "l \<in> set (owed r)" "st = RUNNING" "ctl lkof p cd On RUNNING ch r"
      "\<And>x pr. p_state pr = RUNNING \<Longrightarrow> \<not> committed lkof p x pr r"
  | (rel) l where "a = Release l" "l \<notin> set (owed r)" "st = RUNNING" "ctl lkof p cd On RUNNING ch r"
      "\<And>x pr. p_state pr = RUNNING \<Longrightarrow> committed lkof p x pr r \<Longrightarrow> \<not> cd x"
  | (chan) x r' where "a = Set_chan p x" "Do a # r = sleepy lkof 2 x p r'" "r = sleepy lkof 3 x p r'"
      "st = RUNNING" "disciplined lkof p (Test x # r')"
  | (asleep) x r' where "a = Set_state p SLEEPING" "Do a # r = sleepy lkof 3 x p r'" "r = sleepy lkof 4 x p r'"
      "st = RUNNING" "ch = x" "disciplined lkof p (Test x # r')"
  | (sched) x r' where "a = Sched" "r = sleepy lkof 5 x p r'" "st = SLEEPING" "ch = x"
      "disciplined lkof p (Test x # r')"
  | (tidy) "a = Set_chan p Chan_none" "st = RUNNING" "disciplined lkof p r"
  | (runnable) r' where "a = Set_state p RUNNABLE" "r = yielding 2 p r'" "st = RUNNING" "disciplined lkof p r'"
      "owed r' = []"
  | (resched) r' where "a = Sched" "r = yielding 3 p r'" "st = RUNNABLE" "disciplined lkof p r'" "owed r' = []"
  | (wake) j y where "a = Wake j y" "st = RUNNING" "disciplined lkof p r" "L_proc j \<in> set (owed r)"
  | (kill) j where "a = Kill j" "st = RUNNING" "disciplined lkof p r" "L_proc j \<in> set (owed r)"
  using c
proof (cases rule: ctl.cases)
  case plain
  then show ?thesis using not_committed [of lkof p r]
    by (cases a) (auto intro: acq rel wake kill ctl.plain)
next
  case (s0 x r')
  then have r: "a = Acquire (L_proc p)" "r = sleepy lkof (Suc 0) x p r'" by (simp_all add: sleepy_steps(1))
  have "\<not> committed lkof p y pr r" if "p_state pr = RUNNING" for y pr
    using that r(2) by (simp add: committed_def sleepy_steps)
  then show ?thesis using s0 lk r
    by (intro acq [of "L_proc p"]) (simp_all add: owed_sleepy ctl.s1)
next
  case (s1 x r')
  then have r: "a = Release (lkof x)" "r = sleepy lkof 2 x p r'" by (simp_all add: sleepy_steps(2))
  have "\<not> cd y" if "p_state pr = RUNNING" "committed lkof p y pr r" for y pr
    using that r(2) s1(4) by (auto simp: committed_def sleepy_steps)
  then show ?thesis using s1 lk r
    by (intro rel [of "lkof x"]) (simp_all add: owed_sleepy ctl.s2)
next
  case (s2 x r')
  then show ?thesis using chan by (simp add: sleepy_steps(3))
next
  case (s3 r')
  then show ?thesis using asleep by (simp add: sleepy_steps(4))
next
  case (s4 r')
  then show ?thesis using sched by (simp add: sleepy_steps(5))
next
  case (s5r x r')
  then show ?thesis using tidy lk by (simp add: sleepy_steps(6))
next
  case (y0 r')
  then have r: "a = Acquire (L_proc p)" "r = yielding (Suc 0) p r'" by (simp_all add: yielding_steps(1))
  have "\<not> committed lkof p y pr r" if "p_state pr = RUNNING" for y pr
    using that r(2) by (simp add: committed_def code_steps)
  then show ?thesis using y0 r
    by (intro acq [of "L_proc p"]) (simp_all add: owed_yielding ctl.y1)
next
  case (y1 r')
  then show ?thesis using runnable by (simp add: yielding_steps(2))
next
  case (y2 r')
  then show ?thesis using resched by (simp add: yielding_steps(3))
qed simp_all



section \<open>Preservation\<close>

lemma invD:
  assumes "inv lkof s" "p < NPROC"
  shows "length (procs (sh s)) = NPROC" "distinct (locks s p)"
    "set (locks s p) = set (owed (code s p)) - (if phase s p = Off then {L_proc p} else {})"
    "ctl lkof p (cond s) (phase s p) (p_state (procs (sh s) ! p)) (p_chan (procs (sh s) ! p)) (code s p)"
  using assms unfolding inv_def lockinv_def ctlinv_def by blast+












lemma act_wake:
  "act (Wake j y) s = Ok () (s\<lparr>procs := (procs s)[j := (if p_state (procs s ! j) = SLEEPING \<and> p_chan (procs s ! j) = y
     then (procs s ! j)\<lparr>p_state := RUNNABLE\<rparr> else procs s ! j)]\<rparr>)"
  by (simp add: bnd_run)

lemma act_kill:
  "act (Kill j) s = Ok () (s\<lparr>procs := (procs s)[j := (procs s ! j)\<lparr>p_killed := True,
     p_state := (if p_state (procs s ! j) = SLEEPING then RUNNABLE else p_state (procs s ! j))\<rparr>]\<rparr>)"
  by (cases "j < length (procs s)") (simp_all add: bnd_run sq_run not_less list_update_beyond)














section \<open>Properties\<close>




text \<open>
  Only a scheduler takes a process out of the state \<open>RUNNABLE\<close>, by dispatching it: the fact that the
  fairness of the scheduler (theory \<open>Sched\<close>) rests on.
\<close>

lemma runnable_until_dispatched:
  assumes "handoff_step lkof s t" "inv lkof s" "\<forall>x p. lkof x \<noteq> L_proc p" "p < NPROC" "p_state (procs (sh s) ! p) = RUNNABLE"
  shows "p_state (procs (sh t) ! p) = RUNNABLE \<or> phase s p = Looking \<and> phase t p = On"
  using assms(1)
proof cases
  case (run q a r v)
  note d = invD [OF assms(2) run(2)]
  have "ctl lkof q (cond s) On (p_state (procs (sh s) ! q)) (p_chan (procs (sh s) ! q)) (Do a # r)"
    using d(4) run by simp
  then have "p_state (procs v ! p) = RUNNABLE"
    using assms(3)
  proof (cases rule: ctl_Do)
    case (wake j y)
    then show ?thesis using run assms(5) d(1) assms(4)
      by (cases "j = p") (auto simp: act_wake view_def simp del: act.simps)
  next
    case (kill j)
    then show ?thesis using run assms(5) d(1) assms(4)
      by (cases "j = p") (auto simp: act_kill view_def simp del: act.simps)
  qed (use run assms(4,5) d(1) sched_not_Ok in \<open>auto simp: view_def nth_list_update split: if_splits\<close>)
  then show ?thesis using run by simp
next
  case (switch q a r c v)
  have "ctl lkof q (cond s) On (p_state (procs (sh s) ! q)) (p_chan (procs (sh s) ! q)) (Do a # r)"
    using invD(4) [OF assms(2) switch(2)] switch by simp
  then have "procs v = procs (sh s)"
    using assms(3) switch(5)
    by (cases rule: ctl_Do)
      (auto simp: act_wake act_kill view_def sched_Sleep_iff simp del: act.simps(6,7) split: if_splits)
  then show ?thesis using switch assms(5) by simp
next
  case (sched_run q)
  then show ?thesis using assms(4,5) invD(1) [OF assms(2,4)] by (cases "q = p") auto
qed (use assms(5) in auto)






text \<open>
  \<open>wakeup\<close> is the sequence of its actions, and code that changes a condition under its lock, calls
  \<open>wakeup\<close> and releases the lock follows the discipline.
\<close>

definition wakeup_acts :: "chan \<Rightarrow> nat option \<Rightarrow> nat list \<Rightarrow> kact list" where
  "wakeup_acts c me ns = concat (map (wakeup1_acts c me) ns)"

lemma acts_append: "acts (as @ bs) s = sq (acts as) (acts bs) s"
  by (induction as arbitrary: s) (simp_all add: sq_run split: res.splits)

lemma wakeup_as_acts: "wakeup c s = acts (wakeup_acts c (curproc s) [0..<NPROC]) s"
proof -
  have "foreach ns (wakeup1 c) s = acts (wakeup_acts c (curproc s) ns) s" for ns
  proof (induction ns arbitrary: s)
    case (Cons n ns)
    have "curproc t = curproc s" if "acts (wakeup1_acts c (curproc s) n) s = Ok () t" for t
      using that by (auto simp: wakeup1_acts_def sq_run bnd_run split: if_splits)
    then show ?case
      using Cons by (auto simp: wakeup_acts_def acts_append wakeup1_def sq_run bnd_run split: res.splits)
  qed (simp add: wakeup_acts_def)
  then show ?thesis by (simp add: wakeup_def)
qed









end
