(* ===== verification/Fullcache.thy ===== *)
theory Fullcache
  imports Txn
begin

text \<open>
  A transaction that uses all the log allows leaves no buffer for the commit.  Three processes run an
  operation each, interleaved, and each logs the \<open>MAXOPBLOCKS\<close> blocks it may log, in the way the comment
  of \<^verbatim>\<open>log_write()\<close> in \<^verbatim>\<open>kernel/log.c\<close> prescribes.
\<close>

text \<open>The thread of process \<open>q\<close> has the processor.\<close>

definition as_proc :: "nat \<Rightarrow> ('z proc_st_scheme, 'a) kernel \<Rightarrow> ('z proc_st_scheme, 'a) kernel" where
  "as_proc q m = sq (upd (\<lambda>s. s\<lparr>curproc := Some q\<rparr>)) m"

definition op_writes :: "(block \<Rightarrow> block) \<Rightarrow> nat list \<Rightarrow> ('z log_st_scheme, unit) kernel" where
  "op_writes f ns =
     foreach ns (\<lambda>n.
       bnd (bread ROOTDEV n) (\<lambda>b.
       sq (bset_data b f) (
       sq (log_write b)
          (brelse b))))"

text \<open>Three operations, of processes \<open>p\<close>, \<open>q\<close> and \<open>r\<close>, up to the end of the last one.\<close>

definition three_ops :: "nat \<Rightarrow> nat \<Rightarrow> nat \<Rightarrow> (block \<Rightarrow> block) \<Rightarrow> nat list \<Rightarrow> nat list \<Rightarrow> nat list \<Rightarrow>
    ('z log_st_scheme, unit) kernel" where
  "three_ops p q r f ks ms ns =
     sq (as_proc p begin_op) (
     sq (as_proc q begin_op) (
     sq (as_proc r begin_op) (
     sq (as_proc p (op_writes f ks)) (
     sq (as_proc q (op_writes f ms)) (
     sq (as_proc r (op_writes f ns)) (
     sq (as_proc p end_op)
        (as_proc q end_op)))))))"

lemma op_writes_tx:
  assumes "tx s {} {}" "1 \<le> log_outstanding s" "distinct ns" "set ns \<inter> logged s = {}"
    and "card (logged s) + length ns \<le> LOGBLOCKS" "\<And>b. length b = BSIZE \<Longrightarrow> length (f b) = BSIZE"
  shows "\<exists>t. op_writes f ns s = Ok () t \<and> tframe s t \<and> tx t {} {} \<and> logged t = logged s \<union> set ns"
  using assms(1-5)
proof (induction ns arbitrary: s)
  case Nil
  then show ?case by (auto simp: op_writes_def ret_def)
next
  case (Cons n ns)
  have c: "card ({} \<union> logged s) < NBUF" "card (logged s) < LOGBLOCKS" "n \<notin> logged s"
    using Cons.prems by (auto simp: NBUF_LOGBLOCKS)
  have "wp (bread ROOTDEV n) (\<lambda>b. wp (bset_data b f) (\<lambda>_. wp (log_write b) (\<lambda>_. wp (brelse b)
      (\<lambda>_ t. tframe s t \<and> tx t {} {} \<and> logged t = insert n (logged s))))) s"
  proof (rule wp_bread [OF Cons.prems(1) _ c(1)])
    fix b t
    assume t: "tframe s t" "tx t (insert n {}) {}" "logged t = logged s" "handle t n = Some b"
    have o: "1 \<le> log_outstanding t" using Cons.prems(2) tframe_fields [OF t(1)] by simp
    show "wp (bset_data b f) (\<lambda>_. wp (log_write b) (\<lambda>_. wp (brelse b)
        (\<lambda>_ u. tframe s u \<and> tx u {} {} \<and> logged u = insert n (logged s)))) t"
      by (rule wp_update_release [OF t(2) _ _ t(4) _ _ o])
        (use t c assms(6) txD(8) [OF t(2)] tframe_trans [OF t(1)] in auto)
  qed simp
  then obtain t where t: "bnd (bread ROOTDEV n) (\<lambda>b. sq (bset_data b f) (sq (log_write b) (brelse b))) s = Ok () t"
    "tframe s t" "tx t {} {}" "logged t = insert n (logged s)"
    by (auto simp: wp_Ok bnd_run sq_run)
  have "card (logged t) = Suc (card (logged s))" using c(3) by (simp add: t(4))
  then obtain u where "op_writes f ns t = Ok () u" "tframe t u" "tx u {} {}" "logged u = logged t \<union> set ns"
    using Cons.IH [OF t(3)] Cons.prems t(4) tframe_fields [OF t(2)] by auto
  with t show ?case using tframe_trans [OF t(2)] by (auto simp: op_writes_def sq_run)
qed

text \<open>Between the calls: \<open>k\<close> operations are open, the blocks \<open>L\<close> are logged, and nobody holds a buffer.\<close>

definition open_ops :: "'z log_st_scheme \<Rightarrow> nat \<Rightarrow> int \<Rightarrow> nat set \<Rightarrow> bool" where
  "open_ops s st k L \<longleftrightarrow> tx s {} {} \<and> log_outstanding s = k \<and> \<not> log_committing s \<and> log_dev s = ROOTDEV \<and>
     log_start s = st \<and> logged s = L"

lemma open_opsD:
  assumes "open_ops s st k L"
  shows "lh_n s = int (card L)" "log_outstanding s = k"
proof -
  from assms have "tx s {} {}" "logged s = L" "log_outstanding s = k" by (simp_all add: open_ops_def)
  moreover from this have "0 \<le> lh_n s" by (simp add: tx_def)
  ultimately show "lh_n s = int (card L)" "log_outstanding s = k" using card_logged [of s "{}" "{}"] by simp_all
qed

lemma open_ops_proc: "open_ops s st k L \<Longrightarrow> q < NPROC \<Longrightarrow> open_ops (s\<lparr>curproc := Some q\<rparr>) st k L"
  by (auto simp: open_ops_def tx_def bc_inv_def in_proc_def logged_def bview_def)

lemma open_ops_begin:
  assumes "open_ops s st k L" "q < NPROC" "int (card L) + (k + 1) * int MAXOPBLOCKS \<le> int LOGBLOCKS"
  shows "\<exists>t. as_proc q begin_op s = Ok () t \<and> open_ops t st (k + 1) L"
proof -
  note s = open_ops_proc [OF assms(1,2)]
  let ?s = "s\<lparr>curproc := Some q\<rparr>"
  have "lh_n s = int (card L)" "L_log \<notin> set (held s)"
    using open_opsD [OF assms(1)] s by (auto simp: open_ops_def tx_def)
  then have "as_proc q begin_op s = Ok () (?s\<lparr>log_outstanding := k + 1\<rparr>)"
    using s assms(3) by (simp add: as_proc_def begin_op_def begin_op_loop_def sq_run bnd_run open_ops_def)
  moreover have "open_ops (?s\<lparr>log_outstanding := k + 1\<rparr>) st (k + 1) L"
    using s by (auto simp: open_ops_def tx_def bc_inv_def in_proc_def logged_def bview_def mypid_def)
  ultimately show ?thesis by blast
qed

lemma open_ops_writes:
  assumes "open_ops s st k L" "q < NPROC" "1 \<le> k" "distinct ns" "set ns \<inter> L = {}"
    and "card L + length ns \<le> LOGBLOCKS" "\<And>b. length b = BSIZE \<Longrightarrow> length (f b) = BSIZE"
  shows "\<exists>t. as_proc q (op_writes f ns) s = Ok () t \<and> open_ops t st k (L \<union> set ns)"
proof -
  note s = open_ops_proc [OF assms(1,2)]
  obtain t where t: "op_writes f ns (s\<lparr>curproc := Some q\<rparr>) = Ok () t" "tframe (s\<lparr>curproc := Some q\<rparr>) t" "tx t {} {}"
    "logged t = L \<union> set ns"
    using op_writes_tx [of "s\<lparr>curproc := Some q\<rparr>" ns f] s assms(3-) by (auto simp: open_ops_def)
  then have "open_ops t st k (L \<union> set ns)" using s by (auto simp: open_ops_def tframe_def)
  then show ?thesis using t(1) by (simp add: as_proc_def sq_run)
qed

lemma open_ops_end:
  assumes "open_ops s st k L" "q < NPROC" "2 \<le> k"
  shows "\<exists>t. as_proc q end_op s = Ok () t \<and> open_ops t st (k - 1) L"
proof -
  note s = open_ops_proc [OF assms(1,2)]
  let ?s = "s\<lparr>curproc := Some q\<rparr>"
  let ?t = "?s\<lparr>log_outstanding := k - 1, procs := awake_procs Chan_log (Some q) (procs s)\<rparr>"
  have "in_proc ?s" "L_log \<notin> set (held s)" using s by (auto simp: open_ops_def tx_def bc_inv_def)
  then have "as_proc q end_op s = Ok () ?t"
    using s assms(3)
    by (simp add: as_proc_def end_op_def end_op_leave_def sq_run bnd_run wakeup_run in_proc_def open_ops_def)
  moreover have "open_ops ?t st (k - 1) L"
    using s by (auto simp: open_ops_def tx_def bc_inv_def in_proc_def logged_def bview_def mypid_def awake_def)
  ultimately show ?thesis by blast
qed

lemma open_ops_full:
  assumes "open_ops s st 1 L" "q < NPROC" "card L = LOGBLOCKS" "st + 1 \<notin> L"
  shows "as_proc q end_op s = Panic ''bget: no buffers''"
proof -
  note s = open_ops_proc [OF assms(1,2)]
  let ?s = "s\<lparr>curproc := Some q\<rparr>"
  let ?t = "?s\<lparr>log_outstanding := 0, log_committing := True\<rparr>"
  have h: "L_log \<notin> set (held s)" "lh_n s = int LOGBLOCKS"
    using open_opsD [OF assms(1)] s assms(3) by (auto simp: open_ops_def tx_def)
  have v: "bview ?t = bview ?s" "bc_inv ?t = bc_inv ?s" by (simp_all add: bview_def bc_inv_def in_proc_def)
  have "commit ?t = Panic ''bget: no buffers''"
  proof (rule commit_no_buffer)
    show "vfree (bview ?t) = 0" "vrefs (bview ?t) (log_start ?t + 1) = 0" "bc_inv ?t"
      unfolding v using s assms(3,4) txD(1,5,6) [of ?s "{}" "{}"] by (auto simp: open_ops_def NBUF_LOGBLOCKS)
  qed (use s h(2) in \<open>simp_all add: open_ops_def LOGBLOCKS_def MAXOPBLOCKS_def\<close>)
  then show ?thesis
    using s h(1) by (simp add: as_proc_def end_op_def end_op_leave_def sq_run bnd_run open_ops_def)
qed

text \<open>
  Property C20: a transaction that uses all that the log allows makes the kernel panic.  From any state with an empty log
  and no operation open, such as the one after boot, three processes may each begin an operation and log
  \<open>MAXOPBLOCKS\<close> blocks, all different and none of them the first block of the log; all these calls return, and two of the
  operations end.  The end of the last one commits, and the commit panics for want of a buffer: the log's limit
  \<open>LOGBLOCKS\<close> on pinned blocks is the number \<open>NBUF\<close> of buffers.
\<close>

theorem commit_full_cache:
  assumes "tx s {} {}" "lh_n s = 0" "log_outstanding s = 0" "\<not> log_committing s" "log_dev s = ROOTDEV"
    and "p < NPROC" "q < NPROC" "r < NPROC"
    and "length ks = MAXOPBLOCKS" "length ms = MAXOPBLOCKS" "length ns = MAXOPBLOCKS"
    and "distinct (ks @ ms @ ns)" "log_start s + 1 \<notin> set (ks @ ms @ ns)"
    and "\<And>b. length b = BSIZE \<Longrightarrow> length (f b) = BSIZE"
  shows "\<exists>t. three_ops p q r f ks ms ns s = Ok () t \<and> log_outstanding t = 1 \<and> lh_n t = int LOGBLOCKS \<and>
     as_proc r end_op t = Panic ''bget: no buffers''"
proof -
  have M: "int MAXOPBLOCKS = 10" "int LOGBLOCKS = 30" "MAXOPBLOCKS = 10" "LOGBLOCKS = 30"
    by (simp_all add: MAXOPBLOCKS_def LOGBLOCKS_def)
  define st where "st = log_start s"
  have 0: "open_ops s st 0 {}" using assms(1-5) by (simp add: open_ops_def logged_def st_def)
  obtain a where a: "as_proc p begin_op s = Ok () a" "open_ops a st 1 {}"
    using open_ops_begin [OF 0 assms(6)] M by auto
  obtain b where b: "as_proc q begin_op a = Ok () b" "open_ops b st 2 {}"
    using open_ops_begin [OF a(2) assms(7)] M by auto
  obtain c where c: "as_proc r begin_op b = Ok () c" "open_ops c st 3 {}"
    using open_ops_begin [OF b(2) assms(8)] M by auto
  obtain d where d: "as_proc p (op_writes f ks) c = Ok () d" "open_ops d st 3 (set ks)"
    using open_ops_writes [OF c(2) assms(6), of ks f] assms(9,12,14) M by auto
  obtain e where e: "as_proc q (op_writes f ms) d = Ok () e" "open_ops e st 3 (set ks \<union> set ms)"
    using open_ops_writes [OF d(2) assms(7), of ms f] assms(9,10,12,14) M by (auto simp: distinct_card Int_commute)
  have "distinct (ks @ ms)" using assms(12) by auto
  from distinct_card [OF this] have "card (set ks \<union> set ms) = 20" using assms(9,10) M by simp
  then obtain g where g: "as_proc r (op_writes f ns) e = Ok () g" "open_ops g st 3 (set ks \<union> set ms \<union> set ns)"
    using open_ops_writes [OF e(2) assms(8), of ns f] assms(11,12,14) M by (auto simp: Int_commute)
  obtain h where h: "as_proc p end_op g = Ok () h" "open_ops h st 2 (set ks \<union> set ms \<union> set ns)"
    using open_ops_end [OF g(2) assms(6)] by auto
  obtain t where t: "as_proc q end_op h = Ok () t" "open_ops t st 1 (set ks \<union> set ms \<union> set ns)"
    using open_ops_end [OF h(2) assms(7)] by auto
  have card: "card (set ks \<union> set ms \<union> set ns) = LOGBLOCKS"
    using distinct_card [OF assms(12)] assms(9-11) M by (simp add: Un_assoc)
  have "lh_n t = int LOGBLOCKS" "log_outstanding t = 1"
    using open_opsD [OF t(2)] by (simp_all only: card)
  moreover have "as_proc r end_op t = Panic ''bget: no buffers''"
    using open_ops_full [OF t(2) assms(8) card] assms(13) by (simp add: st_def)
  ultimately show ?thesis
    using a(1) b(1) c(1) d(1) e(1) g(1) h(1) t(1) by (simp add: three_ops_def sq_run)
qed

theorem commit_full_cache_witness:
  "\<exists>s t. binit log_boot = Ok () s \<and> three_ops 1 2 3 (map (\<lambda>_. 7)) [100..<110] [200..<210] [300..<310] s = Ok () t \<and>
     as_proc 3 end_op t = Panic ''bget: no buffers''"
proof -
  from log_boot_inv obtain s where s: "binit log_boot = Ok () s" "bc_inv s"
    "bview s = \<lparr>vcont = (\<lambda>n. replicate BSIZE 0), vrefs = (\<lambda>_. 0),
       vlock = (\<lambda>_. None), vfree = NBUF, vdisk = (\<lambda>n. replicate BSIZE 0), vtrace = []\<rparr>"
    "held s = []" "log_start s = 2" "log_outstanding s = 0" "\<not> log_committing s" "log_dev s = ROOTDEV" "lh_n s = 0"
    "lh_block s = replicate LOGBLOCKS 0" by blast
  then have "tx s {} {}" by (simp add: tx_def logged_def)
  from commit_full_cache [OF this s(9,6-8), of 1 2 3 "[100..<110]" "[200..<210]" "[300..<310]" "map (\<lambda>_. 7)"] s(1,5) show ?thesis
    by (auto simp: NPROC_def MAXOPBLOCKS_def)
qed

end
